(* ===== verification/Telemt_Prelude.thy ===== *)
theory Telemt_Prelude
  imports Main "HOL-Library.Word" "HOL-Library.AList"
begin

unbundle bit_operations_syntax

section \<open>Shared types, machine arithmetic and lemmas\<close>

text \<open>
  What every component of the development uses: bytes and byte strings, the fixed-width
  arithmetic of the Rust standard library (\<open>saturating_add\<close>, \<open>saturating_sub\<close>,
  \<open>checked_mul\<close>, \<open>to_be_bytes\<close>, \<open>from_le_bytes\<close>), fallible slice reads, and a
  hash map as an association list with distinct keys behind the interface
  \<open>hash_map\<close>. Integers wider than a byte are \<open>nat\<close> or \<open>int\<close> with the bound of
  their Rust type written out wherever an operation can reach it.
\<close>

named_theorems codec_simps \<open>rewrite rules for byte encodings\<close>
named_theorems sat_simps \<open>saturating arithmetic away from its bounds\<close>

subsection \<open>Bytes\<close>

type_synonym u8 = "8 word"
type_synonym u32 = "32 word"
type_synonym bytes = "u8 list"

abbreviation (input) "U8_MAX \<equiv> (255 :: nat)"
abbreviation (input) "U16_MAX \<equiv> (65535 :: nat)"
abbreviation (input) "U32_MAX \<equiv> (4294967295 :: nat)"
abbreviation (input) "U64_MAX \<equiv> (18446744073709551615 :: nat)"
abbreviation (input) "I64_MAX \<equiv> (9223372036854775807 :: nat)"

subsection \<open>Saturating and checked arithmetic\<close>

text \<open>
  \<open>usize\<close> is 64 bits wide. A saturating operation takes the largest value of the type
  as its first argument.
\<close>

definition sat_add :: "nat \<Rightarrow> nat \<Rightarrow> nat \<Rightarrow> nat" where
  "sat_add mx a b = min (a + b) mx"

definition sat_mul :: "nat \<Rightarrow> nat \<Rightarrow> nat \<Rightarrow> nat" where
  "sat_mul mx a b = min (a * b) mx"

definition checked_mul :: "nat \<Rightarrow> nat \<Rightarrow> nat \<Rightarrow> nat option" where
  "checked_mul mx a b = (if a * b \<le> mx then Some (a * b) else None)"

definition checked_add :: "nat \<Rightarrow> nat \<Rightarrow> nat \<Rightarrow> nat option" where
  "checked_add mx a b = (if a + b \<le> mx then Some (a + b) else None)"

lemma sat_add_exact [sat_simps]: "a + b \<le> mx \<Longrightarrow> sat_add mx a b = a + b"
  by (simp add: sat_add_def)

lemma sat_add_le_max [simp]: "sat_add mx a b \<le> mx"
  by (simp add: sat_add_def)

lemma sat_add_gt_iff: "c < mx \<Longrightarrow> c < sat_add mx a b \<longleftrightarrow> c < a + b"
  by (auto simp: sat_add_def)

lemma sat_add_not_gt: "\<not> c < sat_add mx a b \<Longrightarrow> c < mx \<or> a + b \<le> mx \<Longrightarrow> a + b \<le> c"
  by (auto simp: sat_add_def min_def split: if_splits)

subsection \<open>Big- and little-endian integers\<close>

definition u16_to_be_bytes :: "nat \<Rightarrow> bytes" where
  "u16_to_be_bytes n = [word_of_nat (n div 256), word_of_nat n]"

definition u16_from_be_bytes :: "u8 \<Rightarrow> u8 \<Rightarrow> nat" where
  "u16_from_be_bytes a b = unat a * 256 + unat b"

definition u32_to_le_bytes :: "u32 \<Rightarrow> bytes" where
  "u32_to_le_bytes x =
     [word_of_nat (unat x), word_of_nat (unat x div 256),
      word_of_nat (unat x div 65536), word_of_nat (unat x div 16777216)]"

definition u32_to_be_bytes :: "u32 \<Rightarrow> bytes" where
  "u32_to_be_bytes x = rev (u32_to_le_bytes x)"

definition u32_from_le_bytes :: "u8 \<Rightarrow> u8 \<Rightarrow> u8 \<Rightarrow> u8 \<Rightarrow> nat" where
  "u32_from_le_bytes a b c d =
     unat a + unat b * 256 + unat c * 65536 + unat d * 16777216"

lemma unat_u8_less [simp]: "unat (b :: u8) < 256"
  by (rule order_less_le_trans [OF unsigned_less]) simp

lemma unat_u32_less [simp]: "unat (x :: u32) < 4294967296"
  by (rule order_less_le_trans [OF unsigned_less]) simp

lemma unat_u8_of_nat [simp]: "unat (word_of_nat n :: u8) = n mod 256"
  by (simp add: unat_of_nat)

lemma u16_from_be_bytes_le [simp]: "u16_from_be_bytes a b \<le> U16_MAX"
  using unat_u8_less [of a] unat_u8_less [of b] unfolding u16_from_be_bytes_def by linarith

lemma length_u16_to_be_bytes [simp]: "length (u16_to_be_bytes n) = 2"
  by (simp add: u16_to_be_bytes_def)

lemma length_u32_to_le_bytes [simp]: "length (u32_to_le_bytes n) = 4"
  by (simp add: u32_to_le_bytes_def)

lemma u16_be_roundtrip [codec_simps]:
  "n \<le> U16_MAX \<Longrightarrow> u16_from_be_bytes (word_of_nat (n div 256)) (word_of_nat n) = n"
proof -
  assume "n \<le> U16_MAX"
  then have "n div 256 mod 256 = n div 256" by (simp add: less_mult_imp_div_less)
  then show ?thesis
    unfolding u16_from_be_bytes_def unat_u8_of_nat using mod_div_mult_eq [of n 256] by linarith
qed

lemma word8_of_nat_mod: "(word_of_nat (unat a + 256 * k) :: u8) = a"
  by (simp only: word_unat_eq_iff unat_u8_of_nat) simp

lemma u16_be_roundtrip_inv [codec_simps]:
  "u16_to_be_bytes (u16_from_be_bytes a b) = [a, b]"
proof -
  have "(unat a * 256 + unat b) div 256 = unat a"
    using unat_u8_less [of b] by simp
  then show ?thesis
    using word8_of_nat_mod [of b "unat a"]
    by (simp add: u16_to_be_bytes_def u16_from_be_bytes_def algebra_simps)
qed

lemma base256_digits:
  fixes n :: nat
  assumes "n < 4294967296"
  shows "n mod 256 + n div 256 mod 256 * 256 + n div 65536 mod 256 * 65536
           + n div 16777216 mod 256 * 16777216 = n"
proof -
  let ?a = "n div 256" and ?b = "n div 65536" and ?c = "n div 16777216"
  have "n = n mod 256 + ?a * 256" by (simp add: mod_div_mult_eq)
  moreover have "?a = ?a mod 256 + ?b * 256"
    using mod_div_mult_eq [of ?a 256] by (simp add: div_mult2_eq [symmetric])
  moreover have "?b = ?b mod 256 + ?c * 256"
    using mod_div_mult_eq [of ?b 256] by (simp add: div_mult2_eq [symmetric])
  moreover have "?c mod 256 = ?c" using assms by (simp add: less_mult_imp_div_less)
  ultimately show ?thesis by linarith
qed

lemma u32_le_roundtrip [codec_simps]:
  "u32_from_le_bytes (word_of_nat (unat x)) (word_of_nat (unat x div 256))
     (word_of_nat (unat x div 65536)) (word_of_nat (unat x div 16777216)) = unat (x :: u32)"
  by (simp only: u32_from_le_bytes_def unat_u8_of_nat base256_digits [OF unat_u32_less])

lemma u32_from_le_bytes_less: "u32_from_le_bytes a b c d < 4294967296"
  using unat_u8_less [of a] unat_u8_less [of b] unat_u8_less [of c] unat_u8_less [of d]
  unfolding u32_from_le_bytes_def by linarith

text \<open>
  \<open>to_le_bytes\<close>, \<open>to_be_bytes\<close> and their inverses for any number of bytes: the \<open>u64\<close> of the
  RPC protocol and the \<open>u128\<close> counters of the stream cipher.
\<close>

fun le_bytes :: "nat \<Rightarrow> nat \<Rightarrow> bytes" where
  "le_bytes 0 v = []"
| "le_bytes (Suc n) v = word_of_nat v # le_bytes n (v div 256)"

fun from_le :: "bytes \<Rightarrow> nat" where
  "from_le [] = 0"
| "from_le (b # bs) = unat b + 256 * from_le bs"

definition be_bytes :: "nat \<Rightarrow> nat \<Rightarrow> bytes" where
  "be_bytes n v = rev (le_bytes n v)"

definition from_be :: "bytes \<Rightarrow> nat" where
  "from_be bs = from_le (rev bs)"

lemma length_le_bytes [simp]: "length (le_bytes n v) = n"
  by (induction n arbitrary: v) auto

lemma length_be_bytes [simp]: "length (be_bytes n v) = n"
  by (simp add: be_bytes_def)

lemma from_le_bytes [codec_simps]: "v < 256 ^ n \<Longrightarrow> from_le (le_bytes n v) = v"
proof (induction n arbitrary: v)
  case (Suc n)
  then have "v div 256 < 256 ^ n" by (simp add: less_mult_imp_div_less mult.commute)
  with Suc.IH show ?case by simp
qed simp

lemma from_le_less: "from_le bs < 256 ^ length bs"
proof (induction bs)
  case (Cons b bs)
  have "unat b + 256 * from_le bs < 256 * Suc (from_le bs)" using unat_u8_less [of b] by simp
  also have "\<dots> \<le> 256 * 256 ^ length bs" using Cons by (intro mult_le_mono2) simp
  finally show ?case by simp
qed simp

lemma le_bytes_from_le [codec_simps]: "length bs = n \<Longrightarrow> le_bytes n (from_le bs) = bs"
proof (induction bs arbitrary: n)
  case (Cons b bs)
  have "(unat b + 256 * from_le bs) div 256 = from_le bs" using unat_u8_less [of b] by simp
  with Cons show ?case using word8_of_nat_mod [of b "from_le bs"] by auto
qed simp

lemma from_be_bytes [codec_simps]: "v < 256 ^ n \<Longrightarrow> from_be (be_bytes n v) = v"
  by (simp add: from_be_def be_bytes_def from_le_bytes)

lemma be_bytes_from_be [codec_simps]: "length bs = n \<Longrightarrow> be_bytes n (from_be bs) = bs"
  by (simp add: from_be_def be_bytes_def le_bytes_from_le)

text \<open>Setting the top bit of a value that does not use it adds it.\<close>

lemma nat_or_exp:
  fixes m :: nat
  assumes "m < 2 ^ n"
  shows "m OR 2 ^ n = m + 2 ^ n"
proof -
  have "take_bit n m = m" using assms by (simp add: take_bit_nat_eq_self)
  moreover have "\<not> bit (take_bit n m) n" by (simp add: bit_take_bit_iff)
  ultimately have "\<not> bit m n" by simp
  then have "m AND 2 ^ n = 0"
    by (intro bit_eqI) (auto simp: bit_and_iff bit_exp_iff)
  then show ?thesis by (simp add: disjunctive_add_eq_or)
qed

lemma unat_or_top_bit_u32:
  "unat x < 2147483648 \<Longrightarrow> unat (x OR 2147483648 :: u32) = unat x + 2147483648"
  using nat_or_exp [of "unat x" 31] by (simp add: unsigned_or_eq)

lemma unat_or_top_bit_u8: "unat x < 128 \<Longrightarrow> unat (x OR 128 :: u8) = unat x + 128"
  using nat_or_exp [of "unat x" 7] by (simp add: unsigned_or_eq)

lemma unat_and_127_u8: "unat (x AND 127 :: u8) = unat x mod 128"
proof -
  have m: "(127 :: nat) = mask 7" by (simp add: mask_eq_exp_minus_1)
  have "unat (x AND 127) = unat x AND 127" by (simp add: unsigned_and_eq)
  also have "\<dots> = take_bit 7 (unat x)" unfolding m by (rule take_bit_eq_mask [symmetric])
  also have "\<dots> = unat x mod 128" by (simp add: take_bit_eq_mod)
  finally show ?thesis .
qed

subsection \<open>Slices\<close>

text \<open>
  \<open>slice xs i j\<close> is Rust's \<open>&xs[i..j]\<close> on a range already checked against the
  length; \<open>get_byte\<close> is \<open>xs.get(i).copied()\<close>; \<open>read_exact\<close> takes the bytes of
  a stream or fails at its end.
\<close>

definition slice :: "'a list \<Rightarrow> nat \<Rightarrow> nat \<Rightarrow> 'a list" where
  "slice xs i j = take (j - i) (drop i xs)"

definition get_byte :: "'a list \<Rightarrow> nat \<Rightarrow> 'a option" where
  "get_byte xs i = (if i < length xs then Some (xs ! i) else None)"

definition splice :: "'a list \<Rightarrow> nat \<Rightarrow> 'a list \<Rightarrow> 'a list" where
  "splice xs i ys = take i xs @ ys @ drop (i + length ys) xs"

definition read_exact :: "nat \<Rightarrow> bytes \<Rightarrow> (bytes \<times> bytes) option" where
  "read_exact n s = (if n \<le> length s then Some (take n s, drop n s) else None)"

lemma length_slice [simp]: "j \<le> length xs \<Longrightarrow> length (slice xs i j) = j - i"
  by (simp add: slice_def)

lemma slice_append_exact:
  "length a = i \<Longrightarrow> j = i + length b \<Longrightarrow> slice (a @ b @ c) i j = b"
  by (simp add: slice_def)

lemma length_splice [simp]:
  "i + length ys \<le> length xs \<Longrightarrow> length (splice xs i ys) = length xs"
  by (simp add: splice_def)

lemma slice_splice [simp]:
  "i + length ys \<le> length xs \<Longrightarrow> j = i + length ys \<Longrightarrow> slice (splice xs i ys) i j = ys"
  by (simp add: slice_def splice_def)

lemma read_exact_append [simp]:
  "length a = n \<Longrightarrow> read_exact n (a @ b) = Some (a, b)"
  by (auto simp: read_exact_def)

lemma read_exact_SomeD:
  "read_exact n s = Some (a, r) \<Longrightarrow> s = a @ r \<and> length a = n"
  by (auto simp: read_exact_def split: if_splits)

lemma read_exact_short [simp]: "length s < n \<Longrightarrow> read_exact n s = None"
  by (simp add: read_exact_def)

text \<open>\<open>xs.chunks(n)\<close> for a positive \<open>n\<close>; a chunk size of 0 panics in Rust and is not used.\<close>

function chunks :: "nat \<Rightarrow> 'a list \<Rightarrow> 'a list list" where
  "chunks n xs = (if n = 0 \<or> xs = [] then [] else take n xs # chunks n (drop n xs))"
  by pat_completeness auto
termination by (relation "measure (\<lambda>(n, xs). length xs)") auto

declare chunks.simps [simp del]

lemma chunks_Nil [simp]: "chunks n [] = []"
  by (simp add: chunks.simps)

lemma chunks_append:
  "0 < n \<Longrightarrow> length a = n \<Longrightarrow> chunks n (a @ b) = a # chunks n b"
  by (subst chunks.simps) auto

lemma concat_chunks [simp]: "0 < n \<Longrightarrow> concat (chunks n xs) = xs"
  by (induction n xs rule: chunks.induct) (subst chunks.simps, auto)

lemma chunks_concat:
  "0 < n \<Longrightarrow> \<forall>b\<in>set bs. length b = n \<Longrightarrow> chunks n (concat bs) = bs"
  by (induction bs) (auto simp: chunks_append)

lemma chunks_full:
  "0 < n \<Longrightarrow> n dvd length xs \<Longrightarrow> b \<in> set (chunks n xs) \<Longrightarrow> length b = n"
proof (induction n xs rule: chunks.induct)
  case (1 n xs)
  then have "xs \<noteq> []" by auto
  with 1 have "n \<le> length xs" by (auto intro: dvd_imp_le)
  with 1 \<open>xs \<noteq> []\<close> show ?case by (subst (asm) chunks.simps) (auto simp: dvd_diff_nat)
qed

text \<open>Rounding a length up to a multiple of the block size.\<close>

lemma pad_dvd:
  fixes n k :: nat
  assumes "0 < k"
  shows "k dvd n + (k - n mod k) mod k"
proof (cases "n mod k = 0")
  case True
  then show ?thesis by (simp add: dvd_eq_mod_eq_0)
next
  case False
  have "n mod k < k" using assms by simp
  with False have "(k - n mod k) mod k = k - n mod k" by simp
  moreover have "n + (k - n mod k) = n div k * k + k"
    using mod_div_mult_eq [of n k] \<open>n mod k < k\<close> by linarith
  ultimately show ?thesis by simp
qed

subsection \<open>Hash maps\<close>

text \<open>
  The interface the components use of \<open>std::collections::HashMap\<close>: lookup, insertion
  that replaces, removal, and the number of entries, with a weight summed over the
  entries for the counters that the code keeps beside a map. The model's maps are
  association lists with distinct keys.
\<close>

locale hash_map =
  fixes lookup :: "'m \<Rightarrow> 'k \<Rightarrow> 'v option"
    and insert :: "'k \<Rightarrow> 'v \<Rightarrow> 'm \<Rightarrow> 'm"
    and remove :: "'k \<Rightarrow> 'm \<Rightarrow> 'm"
    and size :: "'m \<Rightarrow> nat"
    and weight :: "('k \<Rightarrow> 'v \<Rightarrow> nat) \<Rightarrow> 'm \<Rightarrow> nat"
    and wf :: "'m \<Rightarrow> bool"
  assumes lookup_insert: "lookup (insert k v m) = (lookup m)(k \<mapsto> v)"
    and lookup_remove: "lookup (remove k m) = (lookup m)(k := None)"
    and wf_insert: "wf m \<Longrightarrow> wf (insert k v m)"
    and wf_remove: "wf m \<Longrightarrow> wf (remove k m)"
    and weight_insert_fresh: "lookup m k = None \<Longrightarrow>
          weight f (insert k v m) = weight f m + f k v"
    and weight_remove: "wf m \<Longrightarrow> lookup m k = Some v \<Longrightarrow>
          weight f (remove k m) + f k v = weight f m"
    and weight_insert: "wf m \<Longrightarrow> lookup m k = Some v \<Longrightarrow>
          weight f (insert k v' m) + f k v = weight f m + f k v'"
    and size_weight: "size m = weight (\<lambda>_ _. 1) m"
    and weight_mono: "(\<And>k v. f k v \<le> g k v) \<Longrightarrow> weight f m \<le> weight g m"
begin

lemma weight_ge: "wf m \<Longrightarrow> lookup m k = Some v \<Longrightarrow> f k v \<le> weight f m"
  using weight_remove [of m k v f] by simp

lemma weight_update:
  "wf m \<Longrightarrow> lookup m k = Some v \<Longrightarrow> weight f (insert k v' m) = weight f m - f k v + f k v'"
  using weight_insert [of m k v f v'] weight_ge [of m k v f] by simp

lemma weight_update_same:
  "wf m \<Longrightarrow> lookup m k = Some v \<Longrightarrow> f k v' = f k v \<Longrightarrow> weight f (insert k v' m) = weight f m"
  using weight_insert [of m k v f v'] by simp

lemma weight_delete:
  "wf m \<Longrightarrow> lookup m k = Some v \<Longrightarrow> weight f (remove k m) = weight f m - f k v"
  using weight_remove [of m k v f] by simp

lemma size_insert:
  "wf m \<Longrightarrow> size (insert k v m) = (if lookup m k = None then Suc (size m) else size m)"
  by (auto simp: size_weight weight_insert_fresh weight_update_same)

lemma size_remove: "wf m \<Longrightarrow> lookup m k = Some v \<Longrightarrow> Suc (size (remove k m)) = size m"
  using weight_remove [of m k v "\<lambda>_ _. 1"] by (simp add: size_weight)

lemma weight_le_size: "(\<And>k v. f k v \<le> 1) \<Longrightarrow> weight f m \<le> size m"
  unfolding size_weight by (rule weight_mono)

end

definition map_weight :: "('k \<Rightarrow> 'v \<Rightarrow> nat) \<Rightarrow> ('k \<times> 'v) list \<Rightarrow> nat" where
  "map_weight f m = sum_list (map (\<lambda>(k, v). f k v) m)"

definition map_wf :: "('k \<times> 'v) list \<Rightarrow> bool" where
  "map_wf m \<longleftrightarrow> distinct (map fst m)"

lemma map_weight_simps [simp]:
  "map_weight f [] = 0" "map_weight f ((k, v) # m) = f k v + map_weight f m"
  by (simp_all add: map_weight_def)

lemma map_weight_update_fresh:
  "map_of m k = None \<Longrightarrow> map_weight f (AList.update k v m) = map_weight f m + f k v"
  by (induction m) (auto split: if_splits)

lemma map_weight_update_present:
  "map_wf m \<Longrightarrow> map_of m k = Some v \<Longrightarrow>
   map_weight f (AList.update k v' m) + f k v = map_weight f m + f k v'"
  by (induction m) (auto simp: map_wf_def split: if_splits)

lemma map_weight_delete:
  "map_wf m \<Longrightarrow> map_of m k = Some v \<Longrightarrow>
   map_weight f (AList.delete k m) + f k v = map_weight f m"
proof (induction m)
  case (Cons kv m)
  have "AList.delete k m = m" if "k \<notin> fst ` set m"
    using that by (simp add: AList.delete_id)
  with Cons show ?case by (cases kv) (auto simp: map_wf_def)
qed simp

lemma map_weight_mono:
  "(\<And>k v. f k v \<le> g k v) \<Longrightarrow> map_weight f m \<le> map_weight g m"
  by (induction m) (auto intro!: add_le_mono)

lemma length_map_weight: "length m = map_weight (\<lambda>_ _. 1) m"
  by (induction m) auto


interpretation hm: hash_map map_of AList.update AList.delete length map_weight map_wf
proof (unfold_locales, goal_cases)
  case (1 k v m) show ?case by (rule AList.update_conv')
next
  case (2 k m) show ?case by (rule AList.delete_conv')
next
  case (3 m k v) then show ?case by (simp add: map_wf_def AList.distinct_update)
next
  case (4 m k) then show ?case by (simp add: map_wf_def AList.distinct_delete)
next
  case (5 m k f v) then show ?case by (rule map_weight_update_fresh)
next
  case (6 m k v f) then show ?case by (rule map_weight_delete)
next
  case (7 m k v f v') then show ?case by (rule map_weight_update_present)
next
  case (8 m) show ?case by (rule length_map_weight)
next
  case (9 f g m) then show ?case by (rule map_weight_mono)
qed

lemma map_wf_Nil [simp]: "map_wf []"
  by (simp add: map_wf_def)

lemma map_weight_cong:
  assumes "map_wf m" and "\<And>k v. map_of m k = Some v \<Longrightarrow> f k v = g k v"
  shows "map_weight f m = map_weight g m"
proof -
  have "f k v = g k v" if "(k, v) \<in> set m" for k v
    using assms that by (simp add: map_wf_def)
  then show ?thesis
    unfolding map_weight_def by (intro arg_cong [where f = sum_list] map_cong) auto
qed

end
