(* ===== verification/Secure_Random.thy ===== *)
theory Secure_Random
  imports Telemt_Prelude "HOL-Library.Multiset"
begin

section \<open>The buffered random source\<close>

text \<open>
  \<open>SecureRandom\<close> of \<^verbatim>\<open>src/src/crypto/random.rs\<close>: a generator whose output is
  passed through an AES-CTR keystream in chunks of 512 bytes and handed out from a
  buffer. The generator (\<open>StdRng\<close> of the rand crate) and the keystream (the aes and
  ctr crates behind \<open>AesCtr::apply\<close>) are parameters: a call that fills a slice gives
  the byte written at each index and the next generator state. Of the range operation
  the code relies on the documented bound, \<open>rng_laws\<close>.
\<close>

record ('g, 'c) rng_env =
  fill_bytes :: "nat \<Rightarrow> 'g \<Rightarrow> (nat \<Rightarrow> u8) \<times> 'g"
  keystream :: "nat \<Rightarrow> 'c \<Rightarrow> (nat \<Rightarrow> u8) \<times> 'c"
  random_range :: "nat \<Rightarrow> 'g \<Rightarrow> nat \<times> 'g"

definition rng_laws :: "('g, 'c) rng_env \<Rightarrow> bool" where
  "rng_laws E \<longleftrightarrow> (\<forall>n g. 0 < n \<longrightarrow> fst (random_range E n g) < n)"

record ('g, 'c) secure_random =
  sr_rng :: 'g
  sr_cipher :: 'c
  sr_buffer :: bytes
  sr_start :: nat

definition CHUNK_SIZE :: nat where
  "CHUNK_SIZE = 512"

subsection \<open>Operations\<close>

text \<open>
  One round of the loop in \<open>fill\<close>: \<open>sr_refill\<close> is the part that makes the buffer
  non-empty, \<open>sr_take\<close> the part that copies bytes out and resets a drained buffer.
\<close>

definition sr_refill ::
    "('g, 'c) rng_env \<Rightarrow> ('g, 'c) secure_random \<Rightarrow> ('g, 'c) secure_random" where
  "sr_refill E s =
     (let s1 = (if sr_start s \<ge> length (sr_buffer s)
                then s\<lparr>sr_buffer := [], sr_start := 0\<rparr> else s)
      in if sr_buffer s1 = [] then
           (let (f, g') = fill_bytes E CHUNK_SIZE (sr_rng s1);
                (k, c') = keystream E CHUNK_SIZE (sr_cipher s1);
                chunk = map (\<lambda>i. f i XOR k i) [0..<CHUNK_SIZE]
            in s1\<lparr>sr_rng := g', sr_cipher := c', sr_buffer := chunk, sr_start := 0\<rparr>)
         else s1)"

definition sr_take ::
    "nat \<Rightarrow> ('g, 'c) secure_random \<Rightarrow> bytes \<times> ('g, 'c) secure_random" where
  "sr_take n s =
     (let e = sr_start s + n
      in (slice (sr_buffer s) (sr_start s) e,
          if e \<ge> length (sr_buffer s) then s\<lparr>sr_buffer := [], sr_start := 0\<rparr>
          else s\<lparr>sr_start := e\<rparr>))"

definition sr_available :: "('g, 'c) secure_random \<Rightarrow> nat" where
  "sr_available s = length (sr_buffer s) - sr_start s"

lemma sr_available_refill [simp]: "0 < sr_available (sr_refill E s)"
  by (auto simp: sr_refill_def sr_available_def CHUNK_SIZE_def Let_def split: prod.splits)

function sr_fill :: "('g, 'c) rng_env \<Rightarrow> nat \<Rightarrow> ('g, 'c) secure_random \<Rightarrow>
    bytes \<times> ('g, 'c) secure_random" where
  "sr_fill E n s =
     (if n = 0 then ([], s)
      else let s1 = sr_refill E s;
               k = min n (sr_available s1);
               (out, s2) = sr_take k s1;
               (rest, s3) = sr_fill E (n - k) s2
           in (out @ rest, s3))"
  by pat_completeness auto
termination
  by (relation "measure (\<lambda>(E, n, s). n)") (auto simp: sr_available_refill)

declare sr_fill.simps [simp del]

definition sr_bytes :: "('g, 'c) rng_env \<Rightarrow> nat \<Rightarrow> ('g, 'c) secure_random \<Rightarrow>
    bytes \<times> ('g, 'c) secure_random" where
  "sr_bytes E n s = sr_fill E n s"

definition sr_range :: "('g, 'c) rng_env \<Rightarrow> nat \<Rightarrow> ('g, 'c) secure_random \<Rightarrow>
    nat \<times> ('g, 'c) secure_random" where
  "sr_range E mx s =
     (if mx = 0 then (0, s)
      else let (r, g') = random_range E mx (sr_rng s) in (r, s\<lparr>sr_rng := g'\<rparr>))"

fun or_le_bytes :: "nat \<Rightarrow> bytes \<Rightarrow> 64 word \<Rightarrow> 64 word" where
  "or_le_bytes i [] acc = acc"
| "or_le_bytes i (b # bs) acc =
     (if i \<ge> 8 then acc else or_le_bytes (Suc i) bs (acc OR push_bit (i * 8) (ucast b)))"

definition sr_bits :: "('g, 'c) rng_env \<Rightarrow> nat \<Rightarrow> ('g, 'c) secure_random \<Rightarrow>
    64 word \<times> ('g, 'c) secure_random" where
  "sr_bits E k s =
     (if k = 0 then (0, s)
      else let (bs, s') = sr_bytes E (min ((k + 7) div 8) 8) s;
               result = or_le_bytes 0 bs 0
           in (if k < 64 then result AND (push_bit k 1 - 1) else result, s'))"

definition sr_choose :: "('g, 'c) rng_env \<Rightarrow> 'a list \<Rightarrow> ('g, 'c) secure_random \<Rightarrow>
    'a option \<times> ('g, 'c) secure_random" where
  "sr_choose E xs s =
     (if xs = [] then (None, s)
      else let (i, s') = sr_range E (length xs) s in (Some (xs ! i), s'))"

definition swap_at :: "nat \<Rightarrow> nat \<Rightarrow> 'a list \<Rightarrow> 'a list" where
  "swap_at i j xs = xs[i := xs ! j, j := xs ! i]"

fun shuffle_from :: "('g, 'c) rng_env \<Rightarrow> nat \<Rightarrow> 'a list \<Rightarrow> 'g \<Rightarrow> 'a list \<times> 'g" where
  "shuffle_from E 0 xs g = (xs, g)"
| "shuffle_from E (Suc i) xs g =
     (let (j, g') = random_range E (Suc i + 1) g
      in shuffle_from E i (swap_at (Suc i) j xs) g')"

definition sr_shuffle :: "('g, 'c) rng_env \<Rightarrow> 'a list \<Rightarrow> ('g, 'c) secure_random \<Rightarrow>
    'a list \<times> ('g, 'c) secure_random" where
  "sr_shuffle E xs s =
     (let (ys, g') = shuffle_from E (length xs - 1) xs (sr_rng s) in (ys, s\<lparr>sr_rng := g'\<rparr>))"

subsection \<open>A byte-at-a-time reference\<close>

text \<open>
  The loop hands out runs of buffered bytes. The reference draws one byte at a time;
  the two agree on the bytes and on the final state, so how a caller splits its
  requests does not change what it receives.
\<close>

definition sr_next :: "('g, 'c) rng_env \<Rightarrow> ('g, 'c) secure_random \<Rightarrow>
    bytes \<times> ('g, 'c) secure_random" where
  "sr_next E s = sr_take 1 (sr_refill E s)"

fun sr_iter :: "('g, 'c) rng_env \<Rightarrow> nat \<Rightarrow> ('g, 'c) secure_random \<Rightarrow>
    bytes \<times> ('g, 'c) secure_random" where
  "sr_iter E 0 s = ([], s)"
| "sr_iter E (Suc n) s =
     (let (b, s1) = sr_next E s; (bs, s2) = sr_iter E n s1 in (b @ bs, s2))"

lemma sr_refill_idle: "sr_start s < length (sr_buffer s) \<Longrightarrow> sr_refill E s = s"
  by (auto simp: sr_refill_def Let_def)

lemma sr_refill_filled: "sr_start (sr_refill E s) < length (sr_buffer (sr_refill E s))"
  using sr_available_refill [of E s] by (simp add: sr_available_def)

lemma sr_refill_idem [simp]: "sr_refill E (sr_refill E s) = sr_refill E s"
  by (rule sr_refill_idle) (rule sr_refill_filled)

lemma sr_iter_refill: "0 < n \<Longrightarrow> sr_iter E n (sr_refill E s) = sr_iter E n s"
  by (cases n) (simp_all add: sr_next_def)

lemma sr_iter_add:
  "sr_iter E (m + n) s =
     (let (a, s1) = sr_iter E m s; (b, s2) = sr_iter E n s1 in (a @ b, s2))"
  by (induction m arbitrary: s) (auto simp: Let_def split: prod.splits)

lemma sr_take_iter:
  "sr_start s < length (sr_buffer s) \<Longrightarrow> 0 < k \<Longrightarrow> k \<le> sr_available s \<Longrightarrow>
   sr_take k s = sr_iter E k s"
proof (induction k arbitrary: s)
  case (Suc k)
  show ?case
  proof (cases "k = 0")
    case True
    with Suc.prems show ?thesis
      by (simp add: sr_next_def sr_refill_idle split: prod.splits)
  next
    case False
    let ?s1 = "s\<lparr>sr_start := sr_start s + 1\<rparr>"
    from Suc.prems False have more: "sr_start s + 1 < length (sr_buffer s)"
      by (simp add: sr_available_def)
    have first: "sr_next E s = ([sr_buffer s ! sr_start s], ?s1)"
      using more Suc.prems(1)
      by (simp add: sr_next_def sr_refill_idle sr_take_def slice_def take_Suc hd_drop_conv_nth)
    have "sr_take k ?s1 = sr_iter E k ?s1"
      using False more Suc.prems(3) by (intro Suc.IH) (auto simp: sr_available_def)
    moreover have "sr_take (Suc k) s =
        (sr_buffer s ! sr_start s # fst (sr_take k ?s1), snd (sr_take k ?s1))"
      using Suc.prems(1) by (simp add: sr_take_def slice_def Let_def Cons_nth_drop_Suc [symmetric])
    ultimately show ?thesis by (simp add: first Let_def split: prod.splits)
  qed
qed simp

lemma sr_fill_eq_iter: "sr_fill E n s = sr_iter E n s"
proof (induction E n s rule: sr_fill.induct)
  case (1 E n s)
  show ?case
  proof (cases "n = 0")
    case True
    then show ?thesis by (simp add: sr_fill.simps)
  next
    case False
    let ?s1 = "sr_refill E s"
    let ?k = "min n (sr_available ?s1)"
    have k: "0 < ?k" using False by simp
    have step: "sr_take ?k ?s1 = sr_iter E ?k ?s1"
      by (rule sr_take_iter [OF sr_refill_filled k]) simp
    obtain a s2 where a: "sr_take ?k ?s1 = (a, s2)" by fastforce
    have rest: "sr_fill E (n - ?k) s2 = sr_iter E (n - ?k) s2"
      using "1.IH" [OF False refl refl a [symmetric] refl] by simp
    have "sr_iter E (?k + (n - ?k)) ?s1 =
        (let (b, s3) = sr_iter E (n - ?k) s2 in (a @ b, s3))"
      unfolding sr_iter_add step [symmetric] a by simp
    then have "sr_iter E n ?s1 = (let (b, s3) = sr_iter E (n - ?k) s2 in (a @ b, s3))"
      by simp
    then show ?thesis
      using False a rest by (simp add: sr_fill.simps [of E n s] sr_iter_refill Let_def)
  qed
qed

lemma length_sr_next [simp]: "length (fst (sr_next E s)) = 1"
  using sr_refill_filled [of E s] by (simp add: sr_next_def sr_take_def Let_def)

lemma length_sr_iter: "length (fst (sr_iter E n s)) = n"
proof (induction n arbitrary: s)
  case (Suc n)
  obtain b s1 where b: "sr_next E s = (b, s1)" by fastforce
  with length_sr_next [of E s] Suc.IH [of s1] show ?case
    by (simp add: case_prod_unfold Let_def)
qed simp

lemma length_sr_bytes [simp]: "length (fst (sr_bytes E n s)) = n"
  by (simp add: sr_bytes_def sr_fill_eq_iter length_sr_iter)

lemma sr_range_less: "rng_laws E \<Longrightarrow> 0 < n \<Longrightarrow> fst (sr_range E n s) < n"
  by (auto simp: sr_range_def rng_laws_def Let_def split: prod.splits)
     (metis fst_conv)

lemma mset_swap_at: "i < length xs \<Longrightarrow> j < length xs \<Longrightarrow> mset (swap_at i j xs) = mset xs"
  by (simp add: swap_at_def mset_swap)

lemma mset_shuffle_from:
  "rng_laws E \<Longrightarrow> i < length xs \<Longrightarrow> mset (fst (shuffle_from E i xs g)) = mset xs"
proof (induction i arbitrary: xs g)
  case (Suc i)
  obtain j g' where j: "random_range E (Suc i + 1) g = (j, g')" by fastforce
  with Suc.prems(1) have "j < Suc i + 1"
    unfolding rng_laws_def by (metis fst_conv zero_less_Suc add.commute plus_1_eq_Suc)
  with Suc.prems(2) have "mset (swap_at (Suc i) j xs) = mset xs"
    by (intro mset_swap_at) auto
  with Suc j show ?case by (simp add: swap_at_def)
qed simp

subsection \<open>Properties\<close>

text \<open>
  The random source hands out a stream: filling a buffer of \<open>m + n\<close> bytes gives the
  bytes of a fill of \<open>m\<close> followed by those of a fill of \<open>n\<close> from the state the first
  one leaves, and ends in the same state. No byte of a chunk is lost, repeated or
  reordered when a request ends in the middle of a chunk or spans several.
\<close>

theorem sr_fill_split:
  "sr_fill E (m + n) s =
     (let (a, s1) = sr_fill E m s; (b, s2) = sr_fill E n s1 in (a @ b, s2))"
  unfolding sr_fill_eq_iter by (rule sr_iter_add)

text \<open>
  Shuffling returns a permutation of the slice, whatever the generator draws within
  its documented range, and leaves the byte buffer untouched.
\<close>

theorem sr_shuffle_permutes:
  assumes "rng_laws E"
  shows "mset (fst (sr_shuffle E xs s)) = mset xs \<and>
         sr_buffer (snd (sr_shuffle E xs s)) = sr_buffer s"
proof (cases "xs = []")
  case True
  then show ?thesis by (simp add: sr_shuffle_def)
next
  case False
  then have "mset (fst (shuffle_from E (length xs - 1) xs (sr_rng s))) = mset xs"
    using assms by (intro mset_shuffle_from) auto
  then show ?thesis by (simp add: sr_shuffle_def case_prod_unfold Let_def)
qed

definition counter_env :: "(nat, nat) rng_env" where
  "counter_env = \<lparr>fill_bytes = (\<lambda>n g. (\<lambda>i. word_of_nat (g + i), g + n)),
                 keystream = (\<lambda>n c. (\<lambda>i. 0, c + n)),
                 random_range = (\<lambda>n g. (g mod n, g + 1))\<rparr>"

lemma counter_env_laws: "rng_laws counter_env"
  by (simp add: rng_laws_def counter_env_def)

theorem sr_shuffle_permutes_witness:
  "mset (fst (sr_shuffle counter_env [1, 2, 3 :: nat]
      \<lparr>sr_rng = 5, sr_cipher = 0, sr_buffer = [], sr_start = 0\<rparr>)) = mset [1, 2, 3]"
  using sr_shuffle_permutes [OF counter_env_laws] by blast

end
