(* ===== verification/Proto_Constants.thy ===== *)
theory Proto_Constants
  imports Secure_Random
begin

section \<open>Protocol constants, tags and length rules\<close>

text \<open>
  \<^verbatim>\<open>src/src/protocol/constants.rs\<close> (protocol tags, the lengths of Secure
  Intermediate frames, reserved nonce patterns, sizes) and
  \<^verbatim>\<open>src/src/protocol/frame.rs\<close> (frame metadata, frame modes, the message length check).
\<close>

subsection \<open>Protocol tags\<close>

datatype proto_tag = Abridged | Intermediate | Secure

fun proto_tag_value :: "proto_tag \<Rightarrow> u32" where
  "proto_tag_value Abridged = 0xefefefef"
| "proto_tag_value Intermediate = 0xeeeeeeee"
| "proto_tag_value Secure = 0xdddddddd"

definition proto_tag_from_bytes :: "bytes \<Rightarrow> proto_tag option" where
  "proto_tag_from_bytes bs =
     (case bs of
        [a, b, c, d] \<Rightarrow>
          (let v = u32_from_le_bytes a b c d in
           if v = 0xefefefef then Some Abridged
           else if v = 0xeeeeeeee then Some Intermediate
           else if v = 0xdddddddd then Some Secure
           else None)
      | _ \<Rightarrow> None)"

definition proto_tag_to_bytes :: "proto_tag \<Rightarrow> bytes" where
  "proto_tag_to_bytes t = u32_to_le_bytes (proto_tag_value t)"

definition PROTO_TAG_ABRIDGED :: bytes where
  "PROTO_TAG_ABRIDGED = [0xef, 0xef, 0xef, 0xef]"

definition PROTO_TAG_INTERMEDIATE :: bytes where
  "PROTO_TAG_INTERMEDIATE = [0xee, 0xee, 0xee, 0xee]"

definition PROTO_TAG_SECURE :: bytes where
  "PROTO_TAG_SECURE = [0xdd, 0xdd, 0xdd, 0xdd]"

fun proto_tag_as_bytes :: "proto_tag \<Rightarrow> bytes" where
  "proto_tag_as_bytes Abridged = PROTO_TAG_ABRIDGED"
| "proto_tag_as_bytes Intermediate = PROTO_TAG_INTERMEDIATE"
| "proto_tag_as_bytes Secure = PROTO_TAG_SECURE"

subsection \<open>Handshake layout and sizes\<close>

abbreviation (input) "SKIP_LEN \<equiv> (8 :: nat)"
abbreviation (input) "PREKEY_LEN \<equiv> (32 :: nat)"
abbreviation (input) "KEY_LEN \<equiv> (32 :: nat)"
abbreviation (input) "IV_LEN \<equiv> (16 :: nat)"
abbreviation (input) "HANDSHAKE_LEN \<equiv> (64 :: nat)"
abbreviation (input) "PROTO_TAG_POS \<equiv> (56 :: nat)"
abbreviation (input) "DC_IDX_POS \<equiv> (60 :: nat)"
abbreviation (input) "MIN_MSG_LEN \<equiv> (12 :: nat)"
abbreviation (input) "MAX_MSG_LEN \<equiv> (16777216 :: nat)"
abbreviation (input) "MAX_TLS_PLAINTEXT_SIZE \<equiv> (16384 :: nat)"
abbreviation (input) "MAX_TLS_CIPHERTEXT_SIZE \<equiv> (16640 :: nat)"

definition PADDING_FILLER :: bytes where
  "PADDING_FILLER = [4, 0, 0, 0]"

definition TLS_VERSION :: bytes where
  "TLS_VERSION = [0x03, 0x03]"

abbreviation (input) "TLS_RECORD_CHANGE_CIPHER \<equiv> (0x14 :: u8)"
abbreviation (input) "TLS_RECORD_ALERT \<equiv> (0x15 :: u8)"
abbreviation (input) "TLS_RECORD_HANDSHAKE \<equiv> (0x16 :: u8)"
abbreviation (input) "TLS_RECORD_APPLICATION \<equiv> (0x17 :: u8)"

definition RESERVED_NONCE_FIRST_BYTES :: "u8 list" where
  "RESERVED_NONCE_FIRST_BYTES = [0xef]"

definition RESERVED_NONCE_BEGINNINGS :: "bytes list" where
  "RESERVED_NONCE_BEGINNINGS =
     [[0x48, 0x45, 0x41, 0x44], [0x50, 0x4F, 0x53, 0x54], [0x47, 0x45, 0x54, 0x20],
      [0xee, 0xee, 0xee, 0xee], [0xdd, 0xdd, 0xdd, 0xdd], [0x16, 0x03, 0x01, 0x02]]"

definition RESERVED_NONCE_CONTINUES :: "bytes list" where
  "RESERVED_NONCE_CONTINUES = [[0, 0, 0, 0]]"

abbreviation (input) "RPC_FLAG_QUICKACK \<equiv> (0x80000000 :: u32)"

subsection \<open>Secure Intermediate lengths\<close>

definition is_valid_secure_payload_len :: "nat \<Rightarrow> bool" where
  "is_valid_secure_payload_len data_len \<longleftrightarrow> data_len mod 4 = 0"

definition secure_payload_len_from_wire_len :: "nat \<Rightarrow> nat option" where
  "secure_payload_len_from_wire_len wire_len =
     (if wire_len < 4 then None else Some (wire_len - wire_len mod 4))"

definition secure_padding_len :: "('g, 'c) rng_env \<Rightarrow> nat \<Rightarrow> ('g, 'c) secure_random \<Rightarrow>
    nat \<times> ('g, 'c) secure_random" where
  "secure_padding_len E data_len s = (let (r, s') = sr_range E 3 s in (r + 1, s'))"

subsection \<open>Frame metadata of the protocol layer\<close>

record frame_extra =
  fx_quickack :: bool
  fx_simple_ack :: bool
  fx_skip_send :: bool
  fx_custom :: "(string \<times> string) list"

definition frame_extra_new :: frame_extra where
  "frame_extra_new =
     \<lparr>fx_quickack = False, fx_simple_ack = False, fx_skip_send = False, fx_custom = []\<rparr>"

definition frame_extra_with_quickack :: frame_extra where
  "frame_extra_with_quickack = frame_extra_new\<lparr>fx_quickack := True\<rparr>"

definition frame_extra_with_simple_ack :: frame_extra where
  "frame_extra_with_simple_ack = frame_extra_new\<lparr>fx_simple_ack := True\<rparr>"

definition frame_extra_has_flags :: "frame_extra \<Rightarrow> bool" where
  "frame_extra_has_flags x \<longleftrightarrow> fx_quickack x \<or> fx_simple_ack x \<or> fx_skip_send x"

datatype frame_mode = FM_Abridged | FM_Intermediate | FM_SecureIntermediate | FM_Full

fun max_overhead :: "frame_mode \<Rightarrow> nat" where
  "max_overhead FM_Abridged = 4"
| "max_overhead FM_Intermediate = 4"
| "max_overhead FM_SecureIntermediate = 4 + 3"
| "max_overhead FM_Full = 12 + 16"

definition validate_message_length :: "nat \<Rightarrow> bool" where
  "validate_message_length len \<longleftrightarrow>
     MIN_MSG_LEN \<le> len \<and> len \<le> MAX_MSG_LEN \<and> len mod length PADDING_FILLER = 0"

subsection \<open>Lemmas\<close>

lemma proto_tag_roundtrip [simp]: "proto_tag_from_bytes (proto_tag_to_bytes t) = Some t"
  by (cases t)
    (simp_all add: proto_tag_from_bytes_def proto_tag_to_bytes_def u32_to_le_bytes_def
      u32_from_le_bytes_def)

lemma proto_tag_as_bytes_eq: "proto_tag_as_bytes t = proto_tag_to_bytes t"
  by (cases t)
    (simp_all add: proto_tag_to_bytes_def u32_to_le_bytes_def PROTO_TAG_ABRIDGED_def
      PROTO_TAG_INTERMEDIATE_def PROTO_TAG_SECURE_def)

lemma length_proto_tag_to_bytes [simp]: "length (proto_tag_to_bytes t) = 4"
  by (simp add: proto_tag_to_bytes_def)

lemma secure_padding_len_bounds:
  "rng_laws E \<Longrightarrow> 1 \<le> fst (secure_padding_len E n s) \<and> fst (secure_padding_len E n s) \<le> 3"
  using sr_range_less [of E 3 s]
  by (simp add: secure_padding_len_def Let_def case_prod_unfold)

lemma secure_payload_len_recovers:
  "is_valid_secure_payload_len n \<Longrightarrow> 4 \<le> n \<Longrightarrow> p \<le> 3 \<Longrightarrow>
   secure_payload_len_from_wire_len (n + p) = Some n"
  by (auto simp: is_valid_secure_payload_len_def secure_payload_len_from_wire_len_def)

end
