(* ===== verification/Frame_Codec.thy ===== *)
theory Frame_Codec
  imports Proto_Constants "HOL-Library.Sublist"
begin

section \<open>MTProto frame codecs\<close>

text \<open>
  \<^verbatim>\<open>src/src/stream/frame.rs\<close> (the frame type and the codec trait) and
  \<^verbatim>\<open>src/src/stream/frame_codec.rs\<close> (the abridged, intermediate and secure intermediate
  codecs). A decoder takes the receive buffer and returns the result with what is left
  of the buffer; an encoder appends to the destination buffer. An \<open>io::Error\<close> is a
  value of \<open>codec_error\<close> that carries the numbers its message prints; the error kind is
  \<open>codec_error_kind\<close>.
\<close>

subsection \<open>Frames\<close>

record frame_meta =
  quickack :: bool
  simple_ack :: bool
  padding_len :: nat

record frame =
  frame_data :: bytes
  meta :: frame_meta

definition frame_meta_new :: frame_meta where
  "frame_meta_new = \<lparr>quickack = False, simple_ack = False, padding_len = 0\<rparr>"

definition meta_with_quickack :: "frame_meta \<Rightarrow> frame_meta" where
  "meta_with_quickack m = m\<lparr>quickack := True\<rparr>"

definition meta_with_simple_ack :: "frame_meta \<Rightarrow> frame_meta" where
  "meta_with_simple_ack m = m\<lparr>simple_ack := True\<rparr>"

definition meta_with_padding :: "frame_meta \<Rightarrow> nat \<Rightarrow> frame_meta" where
  "meta_with_padding m len = m\<lparr>padding_len := len\<rparr>"

definition meta_has_flags :: "frame_meta \<Rightarrow> bool" where
  "meta_has_flags m \<longleftrightarrow> quickack m \<or> simple_ack m"

definition frame_new :: "bytes \<Rightarrow> frame" where
  "frame_new d = \<lparr>frame_data = d, meta = frame_meta_new\<rparr>"

definition frame_with_meta :: "bytes \<Rightarrow> frame_meta \<Rightarrow> frame" where
  "frame_with_meta d m = \<lparr>frame_data = d, meta = m\<rparr>"

definition frame_quickack :: "bytes \<Rightarrow> frame" where
  "frame_quickack d = frame_with_meta d (frame_meta_new\<lparr>quickack := True\<rparr>)"

definition frame_simple_ack :: "bytes \<Rightarrow> frame" where
  "frame_simple_ack d = frame_with_meta d (frame_meta_new\<lparr>simple_ack := True\<rparr>)"

subsection \<open>Errors\<close>

datatype error_kind = InvalidData | InvalidInput

datatype codec_error =
    FrameLengthOverflow
  | FrameTooLarge nat nat
  | AbridgedNotAligned nat
  | AbridgedTooLarge nat
  | InvalidSecureLength nat
  | SecureNotAligned nat

fun codec_error_kind :: "codec_error \<Rightarrow> error_kind" where
  "codec_error_kind FrameLengthOverflow = InvalidData"
| "codec_error_kind (FrameTooLarge _ _) = InvalidData"
| "codec_error_kind (AbridgedNotAligned _) = InvalidInput"
| "codec_error_kind (AbridgedTooLarge _) = InvalidInput"
| "codec_error_kind (InvalidSecureLength _) = InvalidData"
| "codec_error_kind (SecureNotAligned _) = InvalidData"

type_synonym decode_result = "(codec_error + frame option) \<times> bytes"

subsection \<open>Abridged\<close>

definition decode_abridged :: "nat \<Rightarrow> bytes \<Rightarrow> decode_result" where
  "decode_abridged max_size src =
     (if src = [] then (Inr None, src)
      else
        let first_byte = src ! 0;
            short_len = unat (first_byte AND 0x7f);
            m = (if first_byte \<ge> 0x80 then frame_meta_new\<lparr>quickack := True\<rparr>
                 else frame_meta_new)
        in if short_len = 0x7f \<and> length src < 4 then (Inr None, src)
           else
             let (len_words, header_len) =
                   (if short_len = 0x7f
                    then (u32_from_le_bytes (src ! 1) (src ! 2) (src ! 3) 0, 4)
                    else (short_len, 1))
             in case checked_mul U64_MAX len_words 4 of
                  None \<Rightarrow> (Inl FrameLengthOverflow, src)
                | Some byte_len \<Rightarrow>
                    if byte_len > max_size then (Inl (FrameTooLarge byte_len max_size), src)
                    else if length src < header_len + byte_len then (Inr None, src)
                    else (Inr (Some (frame_with_meta
                                 (take byte_len (drop header_len src)) m)),
                          drop byte_len (drop header_len src)))"

definition encode_abridged :: "frame \<Rightarrow> bytes \<Rightarrow> codec_error + bytes" where
  "encode_abridged f dst =
     (let d = frame_data f in
      if length d mod 4 \<noteq> 0 then Inl (AbridgedNotAligned (length d))
      else if simple_ack (meta f) then Inr (dst @ rev d)
      else
        let len_words = length d div 4 in
        if len_words < 0x7f then
          (let b = word_of_nat len_words :: u8
           in Inr (dst @ [if quickack (meta f) then b OR 0x80 else b] @ d))
        else if len_words < 16777216 then
          (let first = (0x7f :: u8)
           in Inr (dst @ [if quickack (meta f) then first OR 0x80 else first]
                     @ take 3 (u32_to_le_bytes (word_of_nat len_words)) @ d))
        else Inl (AbridgedTooLarge (length d)))"

subsection \<open>Intermediate\<close>

definition decode_intermediate :: "nat \<Rightarrow> bytes \<Rightarrow> decode_result" where
  "decode_intermediate max_size src =
     (if length src < 4 then (Inr None, src)
      else
        let raw = u32_from_le_bytes (src ! 0) (src ! 1) (src ! 2) (src ! 3);
            (m, len) = (if raw \<ge> 0x80000000
                        then (frame_meta_new\<lparr>quickack := True\<rparr>, raw - 0x80000000)
                        else (frame_meta_new, raw))
        in if len > max_size then (Inl (FrameTooLarge len max_size), src)
           else if length src < 4 + len then (Inr None, src)
           else (Inr (Some (frame_with_meta (take len (drop 4 src)) m)),
                 drop len (drop 4 src)))"

definition encode_intermediate :: "frame \<Rightarrow> bytes \<Rightarrow> codec_error + bytes" where
  "encode_intermediate f dst =
     (let d = frame_data f in
      if simple_ack (meta f) then Inr (dst @ d)
      else
        let len = (word_of_nat (length d) :: u32);
            len' = (if quickack (meta f) then len OR 0x80000000 else len)
        in Inr (dst @ u32_to_le_bytes len' @ d))"

subsection \<open>Secure intermediate\<close>

definition decode_secure :: "nat \<Rightarrow> bytes \<Rightarrow> decode_result" where
  "decode_secure max_size src =
     (if length src < 4 then (Inr None, src)
      else
        let raw = u32_from_le_bytes (src ! 0) (src ! 1) (src ! 2) (src ! 3);
            (m, len) = (if raw \<ge> 0x80000000
                        then (frame_meta_new\<lparr>quickack := True\<rparr>, raw - 0x80000000)
                        else (frame_meta_new, raw))
        in if len > max_size then (Inl (FrameTooLarge len max_size), src)
           else if length src < 4 + len then (Inr None, src)
           else case secure_payload_len_from_wire_len len of
                  None \<Rightarrow> (Inl (InvalidSecureLength len), src)
                | Some data_len \<Rightarrow>
                    (let all_data = take len (drop 4 src)
                     in (Inr (Some (frame_with_meta (take data_len all_data)
                                (m\<lparr>padding_len := len - data_len\<rparr>))),
                         drop len (drop 4 src))))"

definition encode_secure :: "('g, 'c) rng_env \<Rightarrow> frame \<Rightarrow> bytes \<Rightarrow> ('g, 'c) secure_random \<Rightarrow>
    (codec_error + bytes) \<times> ('g, 'c) secure_random" where
  "encode_secure E f dst s =
     (let d = frame_data f in
      if simple_ack (meta f) then (Inr (dst @ d), s)
      else if \<not> is_valid_secure_payload_len (length d)
      then (Inl (SecureNotAligned (length d)), s)
      else
        let (pad_len, s1) = secure_padding_len E (length d) s;
            total_len = length d + pad_len;
            len = (word_of_nat total_len :: u32);
            len' = (if quickack (meta f) then len OR 0x80000000 else len);
            (padding, s2) = (if pad_len > 0 then sr_bytes E pad_len s1 else ([], s1))
        in (Inr (dst @ u32_to_le_bytes len' @ d @ padding), s2))"

subsection \<open>The unified codec\<close>

record codec =
  codec_tag :: proto_tag
  max_frame_size :: nat

definition codec_new :: "proto_tag \<Rightarrow> codec" where
  "codec_new t = \<lparr>codec_tag = t, max_frame_size = 16 * 1024 * 1024\<rparr>"

definition with_max_frame_size :: "codec \<Rightarrow> nat \<Rightarrow> codec" where
  "with_max_frame_size c n = c\<lparr>max_frame_size := n\<rparr>"

definition codec_decode :: "codec \<Rightarrow> bytes \<Rightarrow> decode_result" where
  "codec_decode c src =
     (case codec_tag c of
        Abridged \<Rightarrow> decode_abridged (max_frame_size c) src
      | Intermediate \<Rightarrow> decode_intermediate (max_frame_size c) src
      | Secure \<Rightarrow> decode_secure (max_frame_size c) src)"

definition codec_encode :: "('g, 'c) rng_env \<Rightarrow> codec \<Rightarrow> frame \<Rightarrow> bytes \<Rightarrow>
    ('g, 'c) secure_random \<Rightarrow> (codec_error + bytes) \<times> ('g, 'c) secure_random" where
  "codec_encode E c f dst s =
     (case codec_tag c of
        Abridged \<Rightarrow> (encode_abridged f dst, s)
      | Intermediate \<Rightarrow> (encode_intermediate f dst, s)
      | Secure \<Rightarrow> encode_secure E f dst s)"

fun min_header_size :: "proto_tag \<Rightarrow> nat" where
  "min_header_size Abridged = 1"
| "min_header_size Intermediate = 4"
| "min_header_size Secure = 4"

definition codec_trait_encode :: "('g, 'c) rng_env \<Rightarrow> codec \<Rightarrow> frame \<Rightarrow> bytes \<Rightarrow>
    ('g, 'c) secure_random \<Rightarrow> (codec_error + nat \<times> bytes) \<times> ('g, 'c) secure_random" where
  "codec_trait_encode E c f dst s =
     (case codec_encode E c f dst s of
        (Inl e, s') \<Rightarrow> (Inl e, s')
      | (Inr dst', s') \<Rightarrow> (Inr (length dst' - length dst, dst'), s'))"

subsection \<open>The codec interface\<close>

text \<open>
  What a framed reader relies on. \<open>wire f w\<close> says that \<open>w\<close> is an image of the frame
  \<open>f\<close> on the wire and \<open>received f w\<close> is the frame the peer sees. A complete image at
  the front of the buffer is decoded and removed; a proper prefix of an image leaves the
  buffer as it is and asks for more. The reader loop (the framed transport of tokio-util)
  appends each chunk it reads and decodes until the codec asks for more.
\<close>

fun decode_available ::
    "(bytes \<Rightarrow> decode_result) \<Rightarrow> nat \<Rightarrow> bytes \<Rightarrow> (codec_error + frame list) \<times> bytes" where
  "decode_available dec 0 buf = (Inr [], buf)"
| "decode_available dec (Suc n) buf =
     (case dec buf of
        (Inl e, r) \<Rightarrow> (Inl e, r)
      | (Inr None, r) \<Rightarrow> (Inr [], r)
      | (Inr (Some f), r) \<Rightarrow>
          (case decode_available dec n r of
             (Inl e, r') \<Rightarrow> (Inl e, r')
           | (Inr fs, r') \<Rightarrow> (Inr (f # fs), r')))"

fun feed_chunks ::
    "(bytes \<Rightarrow> decode_result) \<Rightarrow> bytes \<Rightarrow> bytes list \<Rightarrow> (codec_error + frame list) \<times> bytes" where
  "feed_chunks dec buf [] = (Inr [], buf)"
| "feed_chunks dec buf (c # cs) =
     (case decode_available dec (length (buf @ c)) (buf @ c) of
        (Inl e, r) \<Rightarrow> (Inl e, r)
      | (Inr fs, r) \<Rightarrow>
          (case feed_chunks dec r cs of
             (Inl e, r') \<Rightarrow> (Inl e, r')
           | (Inr fs', r') \<Rightarrow> (Inr (fs @ fs'), r')))"

lemma prefix_of_concat:
  assumes "prefix q (concat ws)" and "\<forall>w \<in> set ws. w \<noteq> []"
  shows "\<exists>k p. k \<le> length ws \<and> q = concat (take k ws) @ p \<and>
           (if k = length ws then p = [] else strict_prefix p (ws ! k))"
  using assms
proof (induction ws arbitrary: q)
  case (Cons w ws)
  show ?case
  proof (cases "strict_prefix q w")
    case True
    then show ?thesis by (intro exI [of _ 0] exI [of _ q]) simp
  next
    case False
    with Cons.prems(1) obtain q' where q': "q = w @ q'" "prefix q' (concat ws)"
      by (auto simp: prefix_append strict_prefix_def)
    with Cons.IH [of q'] Cons.prems(2) obtain k p where
      "k \<le> length ws" "q' = concat (take k ws) @ p"
      "if k = length ws then p = [] else strict_prefix p (ws ! k)" by auto
    with q' show ?thesis by (intro exI [of _ "Suc k"] exI [of _ p]) auto
  qed
qed simp

locale frame_codec =
  fixes decode :: "bytes \<Rightarrow> decode_result"
    and wire :: "frame \<Rightarrow> bytes \<Rightarrow> bool"
    and received :: "frame \<Rightarrow> bytes \<Rightarrow> frame"
  assumes decode_empty: "decode [] = (Inr None, [])"
    and decode_wire: "wire f w \<Longrightarrow> decode (w @ rest) = (Inr (Some (received f w)), rest)"
    and decode_partial: "wire f w \<Longrightarrow> strict_prefix p w \<Longrightarrow> decode p = (Inr None, p)"
begin

lemma wire_nonempty: "wire f w \<Longrightarrow> w \<noteq> []"
  using decode_wire [of f "[]" "[]"] decode_empty by auto

lemma decode_available_wire:
  "list_all2 wire fs ws \<Longrightarrow> length ws \<le> n \<Longrightarrow> decode p = (Inr None, p) \<Longrightarrow>
   decode_available decode n (concat ws @ p) = (Inr (map2 received fs ws), p)"
proof (induction fs ws arbitrary: n rule: list_all2_induct)
  case Nil
  then show ?case by (cases n) simp_all
next
  case (Cons f fs w ws)
  then obtain m where m: "n = Suc m" by (cases n) auto
  with Cons have "decode_available decode m (concat ws @ p) = (Inr (map2 received fs ws), p)"
    by simp
  with m Cons.hyps(1) decode_wire [of f w "concat ws @ p"] show ?case by simp
qed

lemma length_concat_wire: "list_all2 wire fs ws \<Longrightarrow> length ws \<le> length (concat ws)"
proof (induction fs ws rule: list_all2_induct)
  case (Cons f fs w ws)
  have "Suc 0 \<le> length w" using wire_nonempty [OF Cons.hyps(1)] by (simp add: Suc_le_eq)
  with Cons.IH show ?case unfolding concat.simps length_append list.size by linarith
qed simp

text \<open>
  However the bytes of a sequence of frames are cut into chunks, the reader recovers
  exactly those frames, in order, and keeps nothing back.
\<close>

lemma feed_chunks_wire:
  assumes "list_all2 wire fs ws" and "buf @ concat cs = concat ws"
    and "if ws = [] then buf = [] else strict_prefix buf (hd ws)"
  shows "feed_chunks decode buf cs = (Inr (map2 received fs ws), [])"
  using assms
proof (induction cs arbitrary: buf fs ws)
  case Nil
  have "ws = []"
  proof (rule ccontr)
    assume ne: "ws \<noteq> []"
    with Nil.prems(3) have "length buf < length (hd ws)" by (simp add: prefix_length_less)
    moreover have "length (hd ws) \<le> length (concat ws)" using ne by (cases ws) auto
    ultimately show False using Nil.prems(2) by simp
  qed
  with Nil show ?case by simp
next
  case (Cons c cs)
  have nonempty: "\<forall>w \<in> set ws. w \<noteq> []"
    using Cons.prems(1) wire_nonempty by (metis in_set_conv_nth list_all2_conv_all_nth)
  have pre: "prefix (buf @ c) (concat ws)"
    using Cons.prems(2) by (metis append.assoc concat.simps(2) prefixI)
  obtain k p where k: "k \<le> length ws" "buf @ c = concat (take k ws) @ p"
      and p: "if k = length ws then p = [] else strict_prefix p (ws ! k)"
    using prefix_of_concat [OF pre nonempty] by blast
  have wk: "list_all2 wire (take k fs) (take k ws)" "list_all2 wire (drop k fs) (drop k ws)"
    using Cons.prems(1) by (auto intro: list_all2_takeI list_all2_dropI)
  have stop: "decode p = (Inr None, p)"
  proof (cases "k = length ws")
    case True
    with p decode_empty show ?thesis by simp
  next
    case False
    with k(1) Cons.prems(1) have "wire (fs ! k) (ws ! k)" by (simp add: list_all2_conv_all_nth)
    with p False show ?thesis using decode_partial by simp
  qed
  have "length (take k ws) \<le> length (buf @ c)"
    using length_concat_wire [OF wk(1)] unfolding k(2) by simp
  then have now: "decode_available decode (length (buf @ c)) (buf @ c) =
      (Inr (map2 received (take k fs) (take k ws)), p)"
    unfolding k(2) by (intro decode_available_wire [OF wk(1) _ stop])
  have "concat ws = concat (take k ws) @ concat (drop k ws)"
    by (metis append_take_drop_id concat_append)
  moreover have "buf @ c @ concat cs = concat ws" using Cons.prems(2) by simp
  ultimately have rest: "p @ concat cs = concat (drop k ws)"
    using k(2) by (metis append.assoc same_append_eq)
  have "feed_chunks decode p cs = (Inr (map2 received (drop k fs) (drop k ws)), [])"
    by (rule Cons.IH [OF wk(2) rest]) (use p k(1) in \<open>auto simp: hd_drop_conv_nth\<close>)
  moreover have "map2 received fs ws =
      map2 received (take k fs) (take k ws) @ map2 received (drop k fs) (drop k ws)"
    by (metis append_take_drop_id drop_map drop_zip take_map take_zip)
  ultimately show ?case using now by simp
qed

lemma feed_chunks_stream:
  assumes "list_all2 wire fs ws" and "concat cs = concat ws"
  shows "feed_chunks decode [] cs = (Inr (map2 received fs ws), [])"
proof (rule feed_chunks_wire [OF assms(1)])
  show "if ws = [] then [] = [] else strict_prefix [] (hd ws)"
    using assms(1) wire_nonempty by (cases ws) (auto simp: list_all2_Cons2 strict_prefix_def)
qed (use assms(2) in simp)

end

subsection \<open>The three codecs implement the interface\<close>

definition received_plain :: "frame \<Rightarrow> bytes \<Rightarrow> frame" where
  "received_plain f w =
     frame_with_meta (frame_data f) (frame_meta_new\<lparr>quickack := quickack (meta f)\<rparr>)"

definition received_secure :: "frame \<Rightarrow> bytes \<Rightarrow> frame" where
  "received_secure f w =
     frame_with_meta (frame_data f)
       (frame_meta_new\<lparr>quickack := quickack (meta f),
                       padding_len := length w - 4 - length (frame_data f)\<rparr>)"

definition abridged_wire :: "nat \<Rightarrow> frame \<Rightarrow> bytes \<Rightarrow> bool" where
  "abridged_wire mx f w \<longleftrightarrow>
     \<not> simple_ack (meta f) \<and> length (frame_data f) \<le> mx \<and> encode_abridged f [] = Inr w"

definition intermediate_wire :: "nat \<Rightarrow> frame \<Rightarrow> bytes \<Rightarrow> bool" where
  "intermediate_wire mx f w \<longleftrightarrow>
     \<not> simple_ack (meta f) \<and> length (frame_data f) \<le> mx \<and>
     length (frame_data f) < 2147483648 \<and> encode_intermediate f [] = Inr w"

definition length_header :: "bool \<Rightarrow> nat \<Rightarrow> bytes" where
  "length_header q n =
     u32_to_le_bytes (if q then word_of_nat n OR 0x80000000 else word_of_nat n)"

definition secure_wire :: "nat \<Rightarrow> frame \<Rightarrow> bytes \<Rightarrow> bool" where
  "secure_wire mx f w \<longleftrightarrow>
     (let d = frame_data f; n = length w - 4 in
      \<not> simple_ack (meta f) \<and> is_valid_secure_payload_len (length d) \<and> 4 \<le> length d \<and>
      length d + 5 \<le> length w \<and> length w \<le> length d + 7 \<and> n \<le> mx \<and> n < 2147483648 \<and>
      take 4 w = length_header (quickack (meta f)) n \<and> slice w 4 (4 + length d) = d)"

lemma strict_prefix_append_cases:
  assumes "strict_prefix p (h @ d)"
  obtains "length p < length h" | p' where "p = h @ p'" "length p' < length d"
proof (cases "length p < length h")
  case False
  obtain q where q: "h @ d = p @ q" using assms by (auto simp: strict_prefix_def prefix_def)
  with False have "take (length h) p = h" by (metis append_eq_conv_conj linorder_not_less take_all take_append append_Nil2 diff_is_0_eq' take_0)
  then have "p = h @ drop (length h) p" by (metis append_take_drop_id)
  moreover have "length p < length h + length d"
    using prefix_length_less [OF assms] by simp
  ultimately show ?thesis using that(2) by (metis add_less_cancel_left length_append)
qed (use that in blast)

paragraph \<open>Abridged.\<close>

lemma decode_abridged_short:
  assumes "unat (b AND 127) = n" "n < 127" "n * 4 \<le> mx"
  shows "decode_abridged mx (b # xs) =
    (if length xs < n * 4 then (Inr None, b # xs)
     else (Inr (Some (frame_with_meta (take (n * 4) xs) (frame_meta_new\<lparr>quickack := 128 \<le> b\<rparr>))),
           drop (n * 4) xs))"
  using assms by (auto simp: decode_abridged_def checked_mul_def Let_def frame_meta_new_def)

lemma decode_abridged_long:
  assumes "unat (b AND 127) = 127" "n = u32_from_le_bytes x y z 0" "n * 4 \<le> mx"
  shows "decode_abridged mx (b # x # y # z # xs) =
    (if length xs < n * 4 then (Inr None, b # x # y # z # xs)
     else (Inr (Some (frame_with_meta (take (n * 4) xs) (frame_meta_new\<lparr>quickack := 128 \<le> b\<rparr>))),
           drop (n * 4) xs))"
proof -
  have "n * 4 \<le> U64_MAX"
    using u32_from_le_bytes_less [of x y z 0] assms(2) by simp
  with assms show ?thesis
    by (auto simp: decode_abridged_def checked_mul_def Let_def frame_meta_new_def)
qed

lemma decode_abridged_header_partial:
  "unat (b AND 127) = 127 \<Longrightarrow> length xs < 3 \<Longrightarrow> decode_abridged mx (b # xs) = (Inr None, b # xs)"
  by (simp add: decode_abridged_def Let_def)

definition ack_byte :: "bool \<Rightarrow> nat \<Rightarrow> u8" where
  "ack_byte q n = (if q then word_of_nat n OR 0x80 else word_of_nat n)"

lemma ack_byte_low: "n < 128 \<Longrightarrow> unat (ack_byte q n AND 127) = n"
  by (simp add: ack_byte_def unat_and_127_u8 unat_or_top_bit_u8)

lemma ack_byte_flag: "n < 128 \<Longrightarrow> 128 \<le> ack_byte q n \<longleftrightarrow> q"
  by (simp add: ack_byte_def word_le_nat_alt unat_or_top_bit_u8)

lemma three_byte_length:
  assumes "n < 16777216"
  shows "\<exists>x y z. take 3 (u32_to_le_bytes (word_of_nat n)) = [x, y, z] \<and>
           u32_from_le_bytes x y z 0 = n"
proof -
  have n: "unat (word_of_nat n :: u32) = n" using assms by (simp add: unat_of_nat)
  have "u32_from_le_bytes (word_of_nat n) (word_of_nat (n div 256)) (word_of_nat (n div 65536)) 0 = n"
    using u32_le_roundtrip [of "word_of_nat n"] assms unfolding n by simp
  then show ?thesis by (simp add: u32_to_le_bytes_def n)
qed

lemma abridged_wireE:
  assumes "abridged_wire mx f w"
  obtains (short) n where "n < 127" "length (frame_data f) = n * 4" "n * 4 \<le> mx"
      "w = ack_byte (quickack (meta f)) n # frame_data f"
  | (long) n x y z where "n = u32_from_le_bytes x y z 0" "length (frame_data f) = n * 4"
      "n * 4 \<le> mx" "w = ack_byte (quickack (meta f)) 127 # x # y # z # frame_data f"
proof -
  let ?n = "length (frame_data f) div 4"
  from assms have al: "length (frame_data f) = ?n * 4" and mx: "?n * 4 \<le> mx"
    by (auto simp: abridged_wire_def encode_abridged_def Let_def split: if_splits)
  show ?thesis
  proof (cases "?n < 127")
    case True
    with assms have "w = ack_byte (quickack (meta f)) ?n # frame_data f"
      by (auto simp: abridged_wire_def encode_abridged_def ack_byte_def Let_def split: if_splits)
    with True al mx show ?thesis by (rule short)
  next
    case False
    with assms have "?n < 16777216" and w: "w = ack_byte (quickack (meta f)) 127 #
        take 3 (u32_to_le_bytes (word_of_nat ?n)) @ frame_data f"
      by (auto simp: abridged_wire_def encode_abridged_def ack_byte_def Let_def split: if_splits)
    then obtain x y z where "take 3 (u32_to_le_bytes (word_of_nat ?n)) = [x, y, z]"
        "u32_from_le_bytes x y z 0 = ?n" using three_byte_length by blast
    with w al mx show ?thesis by (intro long [of ?n x y z]) auto
  qed
qed

lemma decode_abridged_wire:
  assumes "abridged_wire mx f w"
  shows "decode_abridged mx (w @ rest) = (Inr (Some (received_plain f w)), rest)"
  using assms
proof (cases rule: abridged_wireE)
  case (short n)
  then show ?thesis
    using decode_abridged_short [OF ack_byte_low [of n "quickack (meta f)"], of mx "frame_data f @ rest"]
    by (simp add: received_plain_def ack_byte_flag)
next
  case (long n x y z)
  then show ?thesis
    using decode_abridged_long [OF ack_byte_low [of 127 "quickack (meta f)"], of n x y z mx "frame_data f @ rest"]
    by (simp add: received_plain_def ack_byte_flag)
qed

lemma decode_abridged_partial:
  assumes "abridged_wire mx f w" and "strict_prefix p w"
  shows "decode_abridged mx p = (Inr None, p)"
  using assms(1)
proof (cases rule: abridged_wireE)
  case (short n)
  from assms(2) have "strict_prefix p ([ack_byte (quickack (meta f)) n] @ frame_data f)"
    using short by simp
  then show ?thesis
  proof (cases rule: strict_prefix_append_cases)
    case 1
    then show ?thesis by (simp add: decode_abridged_def)
  next
    case (2 p')
    with short show ?thesis
      using decode_abridged_short [OF ack_byte_low [of n "quickack (meta f)"], of mx p'] by simp
  qed
next
  case (long n x y z)
  from assms(2) have "strict_prefix p ([ack_byte (quickack (meta f)) 127, x, y, z] @ frame_data f)"
    using long by simp
  then show ?thesis
  proof (cases rule: strict_prefix_append_cases)
    case 1
    have "p = [] \<or> (\<exists>xs. p = ack_byte (quickack (meta f)) 127 # xs)"
      using assms(2) long by (cases p) auto
    with 1 show ?thesis
      by (auto simp: decode_abridged_header_partial ack_byte_low) (simp add: decode_abridged_def)
  next
    case (2 p')
    with long show ?thesis
      using decode_abridged_long [OF ack_byte_low [of 127 "quickack (meta f)"], of n x y z mx p']
      by simp
  qed
qed

interpretation abr: frame_codec "decode_abridged mx" "abridged_wire mx" received_plain for mx
proof
  show "decode_abridged mx [] = (Inr None, [])" by (simp add: decode_abridged_def)
qed (use decode_abridged_wire decode_abridged_partial in blast)+

paragraph \<open>Intermediate and secure intermediate.\<close>

lemma length_length_header [simp]: "length (length_header q n) = 4"
  by (simp add: length_header_def)

lemma length_header_value:
  assumes "n < 2147483648"
  shows "\<exists>a b c d. length_header q n = [a, b, c, d] \<and>
           u32_from_le_bytes a b c d = (if q then n + 2147483648 else n)"
proof -
  let ?x = "(if q then word_of_nat n OR 0x80000000 else word_of_nat n) :: u32"
  have n: "unat (word_of_nat n :: u32) = n" using assms by (simp add: unat_of_nat)
  have "unat ?x = (if q then n + 2147483648 else n)"
    using assms unat_or_top_bit_u32 [of "word_of_nat n"] unfolding n by (simp add: n)
  then show ?thesis
    using u32_le_roundtrip [of ?x] unfolding length_header_def u32_to_le_bytes_def by auto
qed

lemma decode_intermediate_header:
  assumes "n < 2147483648" "n \<le> mx"
  shows "decode_intermediate mx (length_header q n @ xs) =
    (if length xs < n then (Inr None, length_header q n @ xs)
     else (Inr (Some (frame_with_meta (take n xs) (frame_meta_new\<lparr>quickack := q\<rparr>))), drop n xs))"
proof -
  obtain a b c d where h: "length_header q n = [a, b, c, d]"
      and v: "u32_from_le_bytes a b c d = (if q then n + 2147483648 else n)"
    using length_header_value [OF assms(1)] by blast
  show ?thesis
    using assms by (auto simp: decode_intermediate_def h v Let_def frame_meta_new_def)
qed

lemma decode_secure_header:
  assumes "n < 2147483648" "n \<le> mx" "secure_payload_len_from_wire_len n = Some k"
  shows "decode_secure mx (length_header q n @ xs) =
    (if length xs < n then (Inr None, length_header q n @ xs)
     else (Inr (Some (frame_with_meta (take k (take n xs))
             (frame_meta_new\<lparr>quickack := q, padding_len := n - k\<rparr>))), drop n xs))"
proof -
  obtain a b c d where h: "length_header q n = [a, b, c, d]"
      and v: "u32_from_le_bytes a b c d = (if q then n + 2147483648 else n)"
    using length_header_value [OF assms(1)] by blast
  show ?thesis
    using assms by (auto simp: decode_secure_def h v Let_def frame_meta_new_def)
qed

lemma intermediate_wireD:
  "intermediate_wire mx f w \<Longrightarrow>
   w = length_header (quickack (meta f)) (length (frame_data f)) @ frame_data f"
  by (auto simp: intermediate_wire_def encode_intermediate_def length_header_def Let_def)

interpretation itm: frame_codec "decode_intermediate mx" "intermediate_wire mx" received_plain
  for mx
proof
  show "decode_intermediate mx [] = (Inr None, [])" by (simp add: decode_intermediate_def)
next
  fix f w rest assume w: "intermediate_wire mx f w"
  then show "decode_intermediate mx (w @ rest) = (Inr (Some (received_plain f w)), rest)"
    unfolding intermediate_wireD [OF w]
    by (simp add: decode_intermediate_header received_plain_def intermediate_wire_def)
next
  fix f w p assume w: "intermediate_wire mx f w" and "strict_prefix p w"
  then have "strict_prefix p (length_header (quickack (meta f)) (length (frame_data f)) @ frame_data f)"
    using intermediate_wireD by simp
  then show "decode_intermediate mx p = (Inr None, p)"
  proof (cases rule: strict_prefix_append_cases)
    case 1
    then show ?thesis by (simp add: decode_intermediate_def)
  next
    case (2 p')
    with w show ?thesis by (simp add: decode_intermediate_header intermediate_wire_def)
  qed
qed

lemma secure_wireE:
  assumes "secure_wire mx f w"
  obtains pad where "1 \<le> length pad" "length pad \<le> 3"
    "w = length_header (quickack (meta f)) (length (frame_data f) + length pad)
           @ frame_data f @ pad"
    "length (frame_data f) + length pad \<le> mx" "length (frame_data f) + length pad < 2147483648"
    "secure_payload_len_from_wire_len (length (frame_data f) + length pad)
       = Some (length (frame_data f))"
proof -
  define d where "d = frame_data f"
  define pad where "pad = drop (4 + length d) w"
  have facts: "is_valid_secure_payload_len (length d)" "4 \<le> length d" "length d + 5 \<le> length w"
      "length w \<le> length d + 7" "length w - 4 \<le> mx" "length w - 4 < 2147483648"
      "take 4 w = length_header (quickack (meta f)) (length w - 4)"
      "slice w 4 (4 + length d) = d"
    using assms unfolding secure_wire_def Let_def d_def by blast+
  have len: "length w - 4 = length d + length pad" "1 \<le> length pad" "length pad \<le> 3"
    using facts(3,4) unfolding pad_def by auto
  have "drop 4 w = take (length d) (drop 4 w) @ drop (length d) (drop 4 w)"
    by (rule append_take_drop_id [symmetric])
  also have "take (length d) (drop 4 w) = d" using facts(8) by (simp add: slice_def)
  finally have "drop 4 w = d @ pad" by (simp add: pad_def add.commute)
  moreover have "w = take 4 w @ drop 4 w" by simp
  ultimately have w: "w = length_header (quickack (meta f)) (length d + length pad) @ d @ pad"
    using facts(7) len(1) by metis
  show ?thesis
    by (rule that [of pad])
      (use w len facts secure_payload_len_recovers [of "length d" "length pad"] in
        \<open>auto simp: d_def\<close>)
qed

interpretation sec: frame_codec "decode_secure mx" "secure_wire mx" received_secure for mx
proof
  show "decode_secure mx [] = (Inr None, [])" by (simp add: decode_secure_def)
next
  fix f w rest assume "secure_wire mx f w"
  then show "decode_secure mx (w @ rest) = (Inr (Some (received_secure f w)), rest)"
  proof (cases rule: secure_wireE)
    case (1 pad)
    then show ?thesis
      using decode_secure_header [OF 1(5,4,6), of "quickack (meta f)" "frame_data f @ pad @ rest"]
      by (simp add: received_secure_def)
  qed
next
  fix f w p assume "secure_wire mx f w" and p: "strict_prefix p w"
  then show "decode_secure mx p = (Inr None, p)"
  proof (cases rule: secure_wireE)
    case (1 pad)
    with p have "strict_prefix p (length_header (quickack (meta f))
        (length (frame_data f) + length pad) @ frame_data f @ pad)" by simp
    then show ?thesis
    proof (cases rule: strict_prefix_append_cases)
      case 1
      then show ?thesis by (simp add: decode_secure_def)
    next
      case (2 p')
      then show ?thesis
        using decode_secure_header [OF 1(5,4,6), of "quickack (meta f)" p'] by simp
    qed
  qed
qed

subsection \<open>Encoding a sequence of frames\<close>

text \<open>
  The frames each codec can carry. The secure codec needs at least one word of payload
  and room for three bytes of padding below the limit of the decoder.
\<close>

definition encodable :: "codec \<Rightarrow> frame \<Rightarrow> bool" where
  "encodable c f \<longleftrightarrow>
     \<not> simple_ack (meta f) \<and>
     (let n = length (frame_data f) in
      case codec_tag c of
        Abridged \<Rightarrow> n mod 4 = 0 \<and> n div 4 < 16777216 \<and> n \<le> max_frame_size c
      | Intermediate \<Rightarrow> n \<le> max_frame_size c \<and> n < 2147483648
      | Secure \<Rightarrow> n mod 4 = 0 \<and> 4 \<le> n \<and> n + 3 \<le> max_frame_size c \<and> n + 3 < 2147483648)"

fun encode_all :: "('g, 'c) rng_env \<Rightarrow> codec \<Rightarrow> frame list \<Rightarrow> bytes \<Rightarrow> ('g, 'c) secure_random \<Rightarrow>
    (codec_error + bytes) \<times> ('g, 'c) secure_random" where
  "encode_all E c [] dst s = (Inr dst, s)"
| "encode_all E c (f # fs) dst s =
     (case codec_encode E c f dst s of
        (Inl e, s') \<Rightarrow> (Inl e, s')
      | (Inr dst', s') \<Rightarrow> encode_all E c fs dst' s')"

definition codec_wire :: "codec \<Rightarrow> frame \<Rightarrow> bytes \<Rightarrow> bool" where
  "codec_wire c f w =
     (case codec_tag c of
        Abridged \<Rightarrow> abridged_wire (max_frame_size c) f w
      | Intermediate \<Rightarrow> intermediate_wire (max_frame_size c) f w
      | Secure \<Rightarrow> secure_wire (max_frame_size c) f w)"

definition codec_received :: "codec \<Rightarrow> frame \<Rightarrow> bytes \<Rightarrow> frame" where
  "codec_received c f w =
     (case codec_tag c of
        Abridged \<Rightarrow> received_plain f w
      | Intermediate \<Rightarrow> received_plain f w
      | Secure \<Rightarrow> received_secure f w)"

interpretation fc: frame_codec "codec_decode c" "codec_wire c" "codec_received c" for c
  by unfold_locales
    (cases "codec_tag c";
     simp add: codec_decode_def codec_wire_def codec_received_def abr.decode_empty
       itm.decode_empty sec.decode_empty abr.decode_wire itm.decode_wire sec.decode_wire
       abr.decode_partial itm.decode_partial sec.decode_partial)+

lemma encode_secure_wire:
  assumes "rng_laws E" "codec_tag c = Secure" "encodable c f"
  shows "\<exists>w s'. encode_secure E f dst s = (Inr (dst @ w), s') \<and> secure_wire (max_frame_size c) f w"
proof -
  let ?d = "frame_data f"
  obtain k s1 where k: "secure_padding_len E (length ?d) s = (k, s1)" by fastforce
  have k3: "1 \<le> k" "k \<le> 3" using secure_padding_len_bounds [OF assms(1), of "length ?d" s] k by auto
  obtain pad s2 where pad: "sr_bytes E k s1 = (pad, s2)" by fastforce
  have lp: "length pad = k" using length_sr_bytes [of E k s1] pad by simp
  let ?w = "length_header (quickack (meta f)) (length ?d + k) @ ?d @ pad"
  have "encode_secure E f dst s = (Inr (dst @ ?w), s2)"
    using assms(2,3) k k3 pad
    by (auto simp: encode_secure_def encodable_def is_valid_secure_payload_len_def
        length_header_def Let_def)
  moreover have "secure_wire (max_frame_size c) f ?w"
    using assms(2,3) k3 lp
    by (auto simp: secure_wire_def encodable_def is_valid_secure_payload_len_def Let_def slice_def)
  ultimately show ?thesis by blast
qed

lemma codec_encode_wire:
  assumes "rng_laws E" "encodable c f"
  shows "\<exists>w s'. codec_encode E c f dst s = (Inr (dst @ w), s') \<and> codec_wire c f w"
proof (cases "codec_tag c")
  case Abridged
  with assms(2) show ?thesis
    by (auto simp: codec_encode_def codec_wire_def abridged_wire_def encodable_def
        encode_abridged_def Let_def)
next
  case Intermediate
  with assms(2) show ?thesis
    by (auto simp: codec_encode_def codec_wire_def intermediate_wire_def encodable_def
        encode_intermediate_def Let_def)
next
  case Secure
  with encode_secure_wire [OF assms(1) Secure assms(2), of dst s] show ?thesis
    by (simp add: codec_encode_def codec_wire_def)
qed

lemma encode_all_wire:
  "rng_laws E \<Longrightarrow> \<forall>f \<in> set fs. encodable c f \<Longrightarrow>
   \<exists>ws s'. encode_all E c fs dst s = (Inr (dst @ concat ws), s') \<and> list_all2 (codec_wire c) fs ws"
proof (induction fs arbitrary: dst s)
  case (Cons f fs)
  obtain w s1 where w: "codec_encode E c f dst s = (Inr (dst @ w), s1)" "codec_wire c f w"
    using codec_encode_wire [of E c f dst s] Cons.prems by auto
  obtain ws s2 where "encode_all E c fs (dst @ w) s1 = (Inr ((dst @ w) @ concat ws), s2)"
      "list_all2 (codec_wire c) fs ws"
    using Cons.IH [of "dst @ w" s1] Cons.prems by auto
  with w show ?case by (intro exI [of _ "w # ws"] exI [of _ s2]) simp
qed simp

lemma received_same_payload:
  "list_all2 (codec_wire c) fs ws \<Longrightarrow>
   map (\<lambda>f. (frame_data f, quickack (meta f))) (map2 (codec_received c) fs ws) =
   map (\<lambda>f. (frame_data f, quickack (meta f))) fs"
  by (induction fs ws rule: list_all2_induct)
    (auto simp: codec_received_def received_plain_def received_secure_def frame_with_meta_def
      split: proto_tag.splits)

lemma suffix_drop_drop: "suffix (drop n (drop m xs)) xs"
  by (simp add: suffix_drop)

lemma decode_abridged_safe:
  "case decode_abridged mx src of
     (Inl e, r) \<Rightarrow> r = src
   | (Inr None, r) \<Rightarrow> r = src
   | (Inr (Some f), r) \<Rightarrow> length (frame_data f) \<le> mx \<and> suffix r src \<and>
       length r + 1 + length (frame_data f) \<le> length src \<and> padding_len (meta f) = 0"
  by (auto simp: decode_abridged_def frame_with_meta_def frame_meta_new_def checked_mul_def
      Let_def suffix_drop split: sum.splits option.splits)

lemma decode_intermediate_safe:
  "case decode_intermediate mx src of
     (Inl e, r) \<Rightarrow> r = src
   | (Inr None, r) \<Rightarrow> r = src
   | (Inr (Some f), r) \<Rightarrow> length (frame_data f) \<le> mx \<and> suffix r src \<and>
       length r + 4 + length (frame_data f) \<le> length src \<and> padding_len (meta f) = 0"
  by (auto simp: decode_intermediate_def frame_with_meta_def frame_meta_new_def
      Let_def suffix_drop split: sum.splits option.splits)

lemma decode_secure_safe:
  "case decode_secure mx src of
     (Inl e, r) \<Rightarrow> r = src
   | (Inr None, r) \<Rightarrow> r = src
   | (Inr (Some f), r) \<Rightarrow> length (frame_data f) \<le> mx \<and> suffix r src \<and>
       length r + 4 + length (frame_data f) \<le> length src \<and> padding_len (meta f) \<le> 3"
  by (auto simp: decode_secure_def frame_with_meta_def frame_meta_new_def
      secure_payload_len_from_wire_len_def Let_def suffix_drop split: sum.splits option.splits)

subsection \<open>Properties\<close>

text \<open>
  C11. Framing is transparent. Every sequence of frames the codec can carry is encoded
  without error, and however the network cuts the encoded stream into chunks, a reader
  that appends each chunk and decodes until the codec asks for more recovers exactly the
  payloads and quick-acknowledge flags that were sent, in order, with an empty buffer at
  the end. This holds for the abridged, the intermediate and the secure codec, whatever
  padding the random source picks.
\<close>

theorem codec_stream_roundtrip:
  assumes "rng_laws E" and "\<forall>f \<in> set fs. encodable c f"
  shows "\<exists>stream s'. encode_all E c fs [] s = (Inr stream, s') \<and>
    (\<forall>chunks. concat chunks = stream \<longrightarrow>
       (\<exists>out. feed_chunks (codec_decode c) [] chunks = (Inr out, []) \<and>
              map (\<lambda>f. (frame_data f, quickack (meta f))) out =
              map (\<lambda>f. (frame_data f, quickack (meta f))) fs))"
proof -
  obtain ws s' where ws: "encode_all E c fs [] s = (Inr (concat ws), s')"
      "list_all2 (codec_wire c) fs ws"
    using encode_all_wire [OF assms, of "[]" s] by auto
  have "\<exists>out. feed_chunks (codec_decode c) [] chunks = (Inr out, []) \<and>
      map (\<lambda>f. (frame_data f, quickack (meta f))) out =
      map (\<lambda>f. (frame_data f, quickack (meta f))) fs" if "concat chunks = concat ws" for chunks
    using fc.feed_chunks_stream [OF ws(2) that] received_same_payload [OF ws(2)] by blast
  with ws(1) show ?thesis by blast
qed

theorem codec_stream_roundtrip_witness:
  "\<exists>stream s'. encode_all counter_env (codec_new Secure) [frame_quickack [1, 2, 3, 4]] []
      \<lparr>sr_rng = 5, sr_cipher = 0, sr_buffer = [], sr_start = 0\<rparr> = (Inr stream, s')"
proof -
  have "\<forall>f \<in> set [frame_quickack [1, 2, 3, 4]]. encodable (codec_new Secure) f"
    by (simp add: encodable_def codec_new_def frame_quickack_def frame_with_meta_def
        frame_meta_new_def)
  from codec_stream_roundtrip [OF counter_env_laws this] show ?thesis by blast
qed

text \<open>
  C27. A decoder never accepts a payload above the configured maximum, never reads past
  the buffer, and never loses bytes: asking for more or failing leaves the buffer as it
  was, and a decoded frame removes a front part of the buffer that holds at least its
  header and its payload. Secure padding is at most three bytes.
\<close>

theorem codec_decode_safe:
  "case codec_decode c src of
     (Inl e, r) \<Rightarrow> r = src
   | (Inr None, r) \<Rightarrow> r = src
   | (Inr (Some f), r) \<Rightarrow> length (frame_data f) \<le> max_frame_size c \<and> suffix r src \<and>
       length r + min_header_size (codec_tag c) + length (frame_data f) \<le> length src \<and>
       padding_len (meta f) \<le> 3"
  using decode_abridged_safe [where mx = "max_frame_size c" and src = src]
    decode_intermediate_safe [where mx = "max_frame_size c" and src = src]
    decode_secure_safe [where mx = "max_frame_size c" and src = src]
  by (cases "codec_tag c") (auto simp: codec_decode_def split: sum.splits option.splits prod.splits)

text \<open>
  C40. The secure encoder and decoder disagree on an empty payload: the encoder accepts it
  and writes a frame of padding only, which the decoder refuses as an invalid secure
  frame length.
\<close>

theorem secure_empty_payload_rejected:
  assumes "rng_laws E" and "3 \<le> mx" and "frame_data f = []" and "\<not> simple_ack (meta f)"
  shows "\<exists>w s' n. encode_secure E f [] s = (Inr w, s') \<and>
           decode_secure mx w = (Inl (InvalidSecureLength n), w)"
proof -
  obtain k s1 where k: "secure_padding_len E 0 s = (k, s1)" by fastforce
  have k3: "1 \<le> k" "k \<le> 3" using secure_padding_len_bounds [OF assms(1), of 0 s] k by auto
  obtain pad s2 where pad: "sr_bytes E k s1 = (pad, s2)" by fastforce
  have lp: "length pad = k" using length_sr_bytes [of E k s1] pad by simp
  let ?w = "length_header (quickack (meta f)) k @ pad"
  have enc: "encode_secure E f [] s = (Inr ?w, s2)"
    using assms(3,4) k k3 pad
    by (auto simp: encode_secure_def is_valid_secure_payload_len_def length_header_def Let_def)
  have small: "k < 2147483648" using k3(2) by simp
  obtain a b c d where h: "length_header (quickack (meta f)) k = [a, b, c, d]"
      and v: "u32_from_le_bytes a b c d = (if quickack (meta f) then k + 2147483648 else k)"
    using length_header_value [OF small] by blast
  have "decode_secure mx ?w = (Inl (InvalidSecureLength k), ?w)"
    using assms(2) k3 lp
    by (auto simp: decode_secure_def h v secure_payload_len_from_wire_len_def Let_def)
  with enc show ?thesis by blast
qed

theorem secure_empty_payload_rejected_witness:
  "\<exists>w s' n. encode_secure counter_env (frame_new []) []
      \<lparr>sr_rng = 5, sr_cipher = 0, sr_buffer = [], sr_start = 0\<rparr> = (Inr w, s') \<and>
      decode_secure 16777216 w = (Inl (InvalidSecureLength n), w)"
  by (rule secure_empty_payload_rejected [OF counter_env_laws])
    (simp_all add: frame_new_def frame_meta_new_def)

end
