(* ===== verification/Fair_Pressure.thy ===== *)
theory Fair_Pressure
  imports Telemt_Prelude
begin

section \<open>Pressure evaluation with hysteresis\<close>

text \<open>
  \<^verbatim>\<open>src/src/transport/middle_proxy/fairness/pressure.rs\<close> and the pressure states of
  \<^verbatim>\<open>fairness/model.rs\<close>. The evaluator of a reader worker turns queue, standing-flow,
  rejection and stall signals into one of four pressure states, and changes state only
  after a run of evaluations that agree on the new one. Instants and durations are
  nanoseconds; \<open>saturating_duration_since\<close> is subtraction on \<open>nat\<close>.
\<close>

type_synonym instant = nat
type_synonym duration = nat

definition duration_from_secs :: "nat \<Rightarrow> duration" where
  "duration_from_secs n = n * 1000000000"

definition duration_from_millis :: "nat \<Rightarrow> duration" where
  "duration_from_millis n = n * 1000000"

subsection \<open>Pressure states\<close>

datatype pressure_state = Normal | Pressured | Shedding | Saturated

fun pressure_as_u8 :: "pressure_state \<Rightarrow> nat" where
  "pressure_as_u8 Normal = 0"
| "pressure_as_u8 Pressured = 1"
| "pressure_as_u8 Shedding = 2"
| "pressure_as_u8 Saturated = 3"

lemma pressure_as_u8_inj: "pressure_as_u8 a = pressure_as_u8 b \<Longrightarrow> a = b"
  by (cases a; cases b; simp)

text \<open>The derived \<open>Ord\<close> of the enum compares the discriminants.\<close>

instantiation pressure_state :: linorder
begin

definition less_eq_pressure_state :: "pressure_state \<Rightarrow> pressure_state \<Rightarrow> bool" where
  "less_eq_pressure_state a b \<longleftrightarrow> pressure_as_u8 a \<le> pressure_as_u8 b"

definition less_pressure_state :: "pressure_state \<Rightarrow> pressure_state \<Rightarrow> bool" where
  "less_pressure_state a b \<longleftrightarrow> pressure_as_u8 a < pressure_as_u8 b"

instance
  by standard
    (auto simp: less_eq_pressure_state_def less_pressure_state_def dest: pressure_as_u8_inj)

end

subsection \<open>Signals, configuration and state\<close>

record pressure_signals =
  sig_active_flows :: nat
  sig_total_queued_bytes :: nat
  sig_standing_flows :: nat
  sig_backpressured_flows :: nat

record pressure_config =
  pc_backpressure_enabled :: bool
  pc_evaluate_every_rounds :: nat
  pc_transition_hysteresis_rounds :: nat
  pc_standing_ratio_pressured_pct :: nat
  pc_standing_ratio_shedding_pct :: nat
  pc_standing_ratio_saturated_pct :: nat
  pc_queue_ratio_pressured_pct :: nat
  pc_queue_ratio_shedding_pct :: nat
  pc_queue_ratio_saturated_pct :: nat
  pc_reject_window :: duration
  pc_rejects_pressured :: nat
  pc_rejects_shedding :: nat
  pc_rejects_saturated :: nat
  pc_stalls_pressured :: nat
  pc_stalls_shedding :: nat
  pc_stalls_saturated :: nat

definition pressure_config_default :: pressure_config where
  "pressure_config_default =
     \<lparr>pc_backpressure_enabled = True,
      pc_evaluate_every_rounds = 8,
      pc_transition_hysteresis_rounds = 3,
      pc_standing_ratio_pressured_pct = 20,
      pc_standing_ratio_shedding_pct = 35,
      pc_standing_ratio_saturated_pct = 50,
      pc_queue_ratio_pressured_pct = 65,
      pc_queue_ratio_shedding_pct = 82,
      pc_queue_ratio_saturated_pct = 94,
      pc_reject_window = duration_from_secs 2,
      pc_rejects_pressured = 32,
      pc_rejects_shedding = 96,
      pc_rejects_saturated = 256,
      pc_stalls_pressured = 32,
      pc_stalls_shedding = 96,
      pc_stalls_saturated = 256\<rparr>"

record pressure_evaluator =
  pe_state :: pressure_state
  pe_candidate_state :: pressure_state
  pe_candidate_hits :: nat
  pe_rounds_since_eval :: nat
  pe_window_started_at :: instant
  pe_admission_rejects_window :: nat
  pe_route_stalls_window :: nat

definition pressure_evaluator_new :: "instant \<Rightarrow> pressure_evaluator" where
  "pressure_evaluator_new now =
     \<lparr>pe_state = Normal, pe_candidate_state = Normal, pe_candidate_hits = 0,
      pe_rounds_since_eval = 0, pe_window_started_at = now,
      pe_admission_rejects_window = 0, pe_route_stalls_window = 0\<rparr>"

subsection \<open>Operations\<close>

definition rotate_window_if_needed ::
    "instant \<Rightarrow> pressure_config \<Rightarrow> pressure_evaluator \<Rightarrow> pressure_evaluator" where
  "rotate_window_if_needed now cfg pe =
     (if now - pe_window_started_at pe < pc_reject_window cfg then pe
      else pe\<lparr>pe_window_started_at := now, pe_admission_rejects_window := 0,
              pe_route_stalls_window := 0\<rparr>)"

definition note_admission_reject ::
    "instant \<Rightarrow> pressure_config \<Rightarrow> pressure_evaluator \<Rightarrow> pressure_evaluator" where
  "note_admission_reject now cfg pe =
     (let pe1 = rotate_window_if_needed now cfg pe
      in pe1\<lparr>pe_admission_rejects_window := sat_add U32_MAX (pe_admission_rejects_window pe1) 1\<rparr>)"

definition note_route_stall ::
    "instant \<Rightarrow> pressure_config \<Rightarrow> pressure_evaluator \<Rightarrow> pressure_evaluator" where
  "note_route_stall now cfg pe =
     (let pe1 = rotate_window_if_needed now cfg pe
      in pe1\<lparr>pe_route_stalls_window := sat_add U32_MAX (pe_route_stalls_window pe1) 1\<rparr>)"

text \<open>\<open>raise_to c n score\<close> is \<open>if c { score = score.max(n) }\<close>.\<close>

definition raise_to :: "bool \<Rightarrow> nat \<Rightarrow> nat \<Rightarrow> nat" where
  "raise_to c n score = (if c then max score n else score)"

definition queue_ratio_pct :: "nat \<Rightarrow> pressure_signals \<Rightarrow> nat" where
  "queue_ratio_pct max_total sg =
     (if max_total = 0 then 100
      else min (sat_mul U64_MAX (sig_total_queued_bytes sg) 100 div max_total) 100)"

definition standing_ratio_pct :: "pressure_signals \<Rightarrow> nat" where
  "standing_ratio_pct sg =
     (if sig_active_flows sg = 0 then 0
      else min (sat_mul U64_MAX (sig_standing_flows sg) 100 div sig_active_flows sg) 100)"

definition pressure_score ::
    "pressure_config \<Rightarrow> nat \<Rightarrow> pressure_signals \<Rightarrow> pressure_evaluator \<Rightarrow> nat" where
  "pressure_score cfg max_total sg pe =
     (let q = queue_ratio_pct max_total sg;
          st = standing_ratio_pct sg;
          r = pe_admission_rejects_window pe;
          w = pe_route_stalls_window pe;
          s0 = 0;
          s1 = raise_to (q \<ge> pc_queue_ratio_pressured_pct cfg) 1 s0;
          s2 = raise_to (q \<ge> pc_queue_ratio_shedding_pct cfg) 2 s1;
          s3 = raise_to (q \<ge> pc_queue_ratio_saturated_pct cfg) 3 s2;
          s4 = raise_to (st \<ge> pc_standing_ratio_pressured_pct cfg) 1 s3;
          s5 = raise_to (st \<ge> pc_standing_ratio_shedding_pct cfg) 2 s4;
          s6 = raise_to (st \<ge> pc_standing_ratio_saturated_pct cfg) 3 s5;
          s7 = raise_to (r \<ge> pc_rejects_pressured cfg) 1 s6;
          s8 = raise_to (r \<ge> pc_rejects_shedding cfg) 2 s7;
          s9 = raise_to (r \<ge> pc_rejects_saturated cfg) 3 s8;
          s10 = raise_to (w \<ge> pc_stalls_pressured cfg) 1 s9;
          s11 = raise_to (w \<ge> pc_stalls_shedding cfg) 2 s10;
          s12 = raise_to (w \<ge> pc_stalls_saturated cfg) 3 s11;
          s13 = raise_to (sig_backpressured_flows sg > sig_active_flows sg div 2
                          \<and> sig_active_flows sg > 0) 2 s12
      in s13)"

definition derive_target_state ::
    "pressure_config \<Rightarrow> nat \<Rightarrow> pressure_signals \<Rightarrow> pressure_evaluator \<Rightarrow> pressure_state" where
  "derive_target_state cfg max_total sg pe =
     (if \<not> pc_backpressure_enabled cfg then Normal
      else let score = pressure_score cfg max_total sg pe in
           if score = 0 then Normal
           else if score = 1 then Pressured
           else if score = 2 then Shedding
           else Saturated)"

definition maybe_evaluate ::
    "instant \<Rightarrow> pressure_config \<Rightarrow> nat \<Rightarrow> pressure_signals \<Rightarrow> bool \<Rightarrow>
     pressure_evaluator \<Rightarrow> pressure_evaluator" where
  "maybe_evaluate now cfg max_total sg force pe0 =
     (let pe = rotate_window_if_needed now cfg pe0 in
      if \<not> pc_backpressure_enabled cfg then
        pe\<lparr>pe_state := Normal, pe_candidate_state := Normal, pe_candidate_hits := 0,
           pe_rounds_since_eval := 0\<rparr>
      else
        let pe1 = pe\<lparr>pe_rounds_since_eval := sat_add U32_MAX (pe_rounds_since_eval pe) 1\<rparr> in
        if \<not> force \<and> pe_rounds_since_eval pe1 < max (pc_evaluate_every_rounds cfg) 1 then pe1
        else
          let pe2 = pe1\<lparr>pe_rounds_since_eval := 0\<rparr>;
              target = derive_target_state cfg max_total sg pe2
          in if target = pe_state pe2 then
               pe2\<lparr>pe_candidate_state := target, pe_candidate_hits := 0\<rparr>
             else
               let pe3 = (if pe_candidate_state pe2 = target
                          then pe2\<lparr>pe_candidate_hits := sat_add U8_MAX (pe_candidate_hits pe2) 1\<rparr>
                          else pe2\<lparr>pe_candidate_state := target, pe_candidate_hits := 1\<rparr>)
               in if pe_candidate_hits pe3 \<ge> max (pc_transition_hysteresis_rounds cfg) 1
                  then pe3\<lparr>pe_state := target, pe_candidate_hits := 0\<rparr>
                  else pe3)"

subsection \<open>Lemmas\<close>

lemma raise_to_mono: "(c \<Longrightarrow> c') \<Longrightarrow> s \<le> s' \<Longrightarrow> raise_to c n s \<le> raise_to c' n s'"
  by (auto simp: raise_to_def max_def)

lemma raise_to_le: "s \<le> 3 \<Longrightarrow> n \<le> 3 \<Longrightarrow> raise_to c n s \<le> 3"
  by (simp add: raise_to_def)

lemma pressure_score_le: "pressure_score cfg mt sg pe \<le> 3"
  unfolding pressure_score_def Let_def by (intro raise_to_le) simp_all

lemma pressure_as_u8_target:
  "pc_backpressure_enabled cfg \<Longrightarrow>
   pressure_as_u8 (derive_target_state cfg mt sg pe) = pressure_score cfg mt sg pe"
  using pressure_score_le [of cfg mt sg pe] by (simp add: derive_target_state_def Let_def)

lemma rotate_window_keeps [simp]:
  "pe_state (rotate_window_if_needed now cfg pe) = pe_state pe"
  "pe_candidate_state (rotate_window_if_needed now cfg pe) = pe_candidate_state pe"
  "pe_candidate_hits (rotate_window_if_needed now cfg pe) = pe_candidate_hits pe"
  "pe_rounds_since_eval (rotate_window_if_needed now cfg pe) = pe_rounds_since_eval pe"
  by (simp_all add: rotate_window_if_needed_def)

lemma note_reject_keeps [simp]:
  "pe_state (note_admission_reject now cfg pe) = pe_state pe"
  "pe_state (note_route_stall now cfg pe) = pe_state pe"
  by (simp_all add: note_admission_reject_def note_route_stall_def Let_def)

lemma maybe_evaluate_state_cases:
  "pe_state (maybe_evaluate now cfg mt sg force pe) = pe_state pe \<or>
   \<not> pc_backpressure_enabled cfg \<or>
   (pe_candidate_hits (maybe_evaluate now cfg mt sg force pe) = 0 \<and>
    max (pc_transition_hysteresis_rounds cfg) 1 \<le> pe_candidate_hits pe + 1)"
  by (auto simp: maybe_evaluate_def rotate_window_if_needed_def sat_add_def Let_def)

lemma maybe_evaluate_hits:
  "pc_backpressure_enabled cfg \<Longrightarrow>
   pe_candidate_hits (maybe_evaluate now cfg mt sg force pe) \<le> pe_candidate_hits pe + 1"
  by (auto simp: maybe_evaluate_def rotate_window_if_needed_def sat_add_def Let_def)

fun eval_run :: "pressure_config \<Rightarrow> (instant \<times> nat \<times> pressure_signals \<times> bool) list \<Rightarrow>
    pressure_evaluator \<Rightarrow> pressure_evaluator" where
  "eval_run cfg [] pe = pe"
| "eval_run cfg ((now, mt, sg, force) # es) pe =
     eval_run cfg es (maybe_evaluate now cfg mt sg force pe)"

lemma eval_run_stable:
  "pc_backpressure_enabled cfg \<Longrightarrow>
   pe_candidate_hits pe + length es < max (pc_transition_hysteresis_rounds cfg) 1 \<Longrightarrow>
   pe_state (eval_run cfg es pe) = pe_state pe"
proof (induction es arbitrary: pe)
  case (Cons e es)
  obtain now mt sg force where e: "e = (now, mt, sg, force)" by (cases e)
  let ?pe = "maybe_evaluate now cfg mt sg force pe"
  have "pe_state ?pe = pe_state pe"
    using maybe_evaluate_state_cases [of now cfg mt sg force pe] Cons.prems by auto
  moreover have "pe_candidate_hits ?pe + length es < max (pc_transition_hysteresis_rounds cfg) 1"
    using maybe_evaluate_hits [OF Cons.prems(1), of now mt sg force pe] Cons.prems(2) by simp
  ultimately show ?case using Cons.IH [of ?pe] Cons.prems(1) e by simp
qed simp

lemma sat_mul_mono: "a \<le> b \<Longrightarrow> sat_mul mx a c \<le> sat_mul mx b c"
  by (auto simp: sat_mul_def min_def intro: order_trans [OF mult_le_mono1])

lemma queue_ratio_pct_mono:
  "sig_total_queued_bytes sg \<le> sig_total_queued_bytes sg' \<Longrightarrow>
   queue_ratio_pct mt sg \<le> queue_ratio_pct mt sg'"
  unfolding queue_ratio_pct_def
  by (cases "mt = 0") (simp_all only: simp_thms if_True if_False order_refl min.mono div_le_mono sat_mul_mono)

lemma standing_ratio_pct_mono:
  "sig_active_flows sg = sig_active_flows sg' \<Longrightarrow> sig_standing_flows sg \<le> sig_standing_flows sg' \<Longrightarrow>
   standing_ratio_pct sg \<le> standing_ratio_pct sg'"
  unfolding standing_ratio_pct_def
  by (cases "sig_active_flows sg' = 0")
    (simp_all only: simp_thms if_True if_False order_refl min.mono div_le_mono sat_mul_mono)

lemma rotate_twice:
  "pe_admission_rejects_window (rotate_window_if_needed now cfg (rotate_window_if_needed now cfg pe)) =
   pe_admission_rejects_window (rotate_window_if_needed now cfg pe)"
  "pe_route_stalls_window (rotate_window_if_needed now cfg (rotate_window_if_needed now cfg pe)) =
   pe_route_stalls_window (rotate_window_if_needed now cfg pe)"
  by (simp_all add: rotate_window_if_needed_def)

text \<open>The target depends on the evaluator only through its two window counters.\<close>

lemma derive_target_cong:
  "pe_admission_rejects_window pe = pe_admission_rejects_window pe' \<Longrightarrow>
   pe_route_stalls_window pe = pe_route_stalls_window pe' \<Longrightarrow>
   derive_target_state cfg mt sg pe = derive_target_state cfg mt sg pe'"
  by (simp add: derive_target_state_def pressure_score_def)

definition target_at :: "instant \<Rightarrow> pressure_config \<Rightarrow> nat \<Rightarrow> pressure_signals \<Rightarrow>
    pressure_evaluator \<Rightarrow> pressure_state" where
  "target_at now cfg mt sg pe = derive_target_state cfg mt sg (rotate_window_if_needed now cfg pe)"

lemma maybe_evaluate_windows:
  "pe_admission_rejects_window (maybe_evaluate now cfg mt sg force pe) =
     pe_admission_rejects_window (rotate_window_if_needed now cfg pe)"
  "pe_route_stalls_window (maybe_evaluate now cfg mt sg force pe) =
     pe_route_stalls_window (rotate_window_if_needed now cfg pe)"
  "pe_window_started_at (maybe_evaluate now cfg mt sg force pe) =
     pe_window_started_at (rotate_window_if_needed now cfg pe)"
  by (simp_all add: maybe_evaluate_def Let_def)

lemma target_at_evaluate:
  "target_at now cfg mt sg (maybe_evaluate now cfg mt sg force pe) = target_at now cfg mt sg pe"
  unfolding target_at_def
  by (rule derive_target_cong)
    (simp_all add: rotate_window_if_needed_def maybe_evaluate_windows)

lemma target_at_iterate:
  "target_at now cfg mt sg ((maybe_evaluate now cfg mt sg True ^^ k) pe) = target_at now cfg mt sg pe"
  by (induction k) (simp_all add: target_at_evaluate)

lemma maybe_evaluate_forced:
  assumes "pc_backpressure_enabled cfg"
  shows "let T = target_at now cfg mt sg pe; pe' = maybe_evaluate now cfg mt sg True pe in
    (pe_state pe = T \<longrightarrow> pe_state pe' = T) \<and>
    (pe_state pe \<noteq> T \<longrightarrow>
       pe_state pe' = T \<or>
       pe_candidate_state pe' = T \<and>
       pe_candidate_hits pe' < max (pc_transition_hysteresis_rounds cfg) 1 \<and>
       pe_candidate_hits pe' =
         (if pe_candidate_state pe = T then sat_add U8_MAX (pe_candidate_hits pe) 1 else 1))"
proof -
  have "derive_target_state cfg mt sg (rotate_window_if_needed now cfg pe\<lparr>pe_rounds_since_eval := 0\<rparr>)
      = target_at now cfg mt sg pe"
    unfolding target_at_def by (rule derive_target_cong) simp_all
  then show ?thesis
    using assms
    by (auto simp: maybe_evaluate_def Let_def)
qed

lemma forced_iterate:
  assumes "pc_backpressure_enabled cfg" "pc_transition_hysteresis_rounds cfg \<le> U8_MAX" "0 < k"
  shows "let T = target_at now cfg mt sg pe; pe' = (maybe_evaluate now cfg mt sg True ^^ k) pe in
    pe_state pe' = T \<or>
    pe_candidate_state pe' = T \<and> k \<le> pe_candidate_hits pe' \<and>
    pe_candidate_hits pe' < max (pc_transition_hysteresis_rounds cfg) 1"
  using assms(3)
proof (induction k)
  case (Suc k)
  let ?T = "target_at now cfg mt sg pe"
  let ?p = "(maybe_evaluate now cfg mt sg True ^^ k) pe"
  let ?q = "maybe_evaluate now cfg mt sg True ?p"
  have T: "target_at now cfg mt sg ?p = ?T" by (rule target_at_iterate)
  note step = maybe_evaluate_forced [OF assms(1), where now = now and mt = mt and sg = sg and pe = ?p,
      unfolded T Let_def]
  show ?case
  proof (cases "k = 0")
    case True
    with step show ?thesis
      by (cases "pe_state ?p = ?T") (auto simp: sat_add_def Let_def split: if_splits)
  next
    case False
    with Suc.IH have "pe_state ?p = ?T \<or> pe_candidate_state ?p = ?T \<and> k \<le> pe_candidate_hits ?p \<and>
        pe_candidate_hits ?p < max (pc_transition_hysteresis_rounds cfg) 1"
      by (simp add: Let_def)
    with step assms(2) show ?thesis
      by (auto simp: sat_add_def Let_def)
  qed
qed simp

subsection \<open>Properties\<close>

text \<open>
  Hysteresis: while backpressure is enabled, fewer than the configured number of
  evaluations never change the pressure state of an evaluator with no pending candidate,
  whatever the signals, the clock and the forcing of each evaluation are.
\<close>

theorem pressure_hysteresis:
  assumes "pc_backpressure_enabled cfg" and "pe_candidate_hits pe = 0"
    and "length es < max (pc_transition_hysteresis_rounds cfg) 1"
  shows "pe_state (eval_run cfg es pe) = pe_state pe"
  using eval_run_stable [of cfg pe es] assms by simp

theorem pressure_hysteresis_witness:
  "pe_state (eval_run pressure_config_default
     [(1, 0, \<lparr>sig_active_flows = 1, sig_total_queued_bytes = 5, sig_standing_flows = 1,
             sig_backpressured_flows = 1\<rparr>, True)] (pressure_evaluator_new 0)) = Normal"
  using pressure_hysteresis [of pressure_config_default "pressure_evaluator_new 0"
      "[(1, 0, \<lparr>sig_active_flows = 1, sig_total_queued_bytes = 5, sig_standing_flows = 1,
             sig_backpressured_flows = 1\<rparr>, True)]"]
  by (simp add: pressure_config_default_def pressure_evaluator_new_def)

text \<open>
  Convergence: repeating a forced evaluation under unchanged signals at least as often
  as the hysteresis asks for puts the evaluator in the state those signals call for,
  whatever state and candidate it had before.
\<close>

theorem pressure_converges:
  assumes "pc_backpressure_enabled cfg" and "pc_transition_hysteresis_rounds cfg \<le> U8_MAX"
    and "max (pc_transition_hysteresis_rounds cfg) 1 \<le> k"
  shows "pe_state ((maybe_evaluate now cfg mt sg True ^^ k) pe) =
         derive_target_state cfg mt sg (rotate_window_if_needed now cfg pe)"
  using forced_iterate [OF assms(1,2), of k now mt sg pe] assms(3)
  by (auto simp: Let_def target_at_def)

theorem pressure_converges_witness:
  "pe_state ((maybe_evaluate 1 pressure_config_default 10
      \<lparr>sig_active_flows = 1, sig_total_queued_bytes = 10, sig_standing_flows = 0,
       sig_backpressured_flows = 0\<rparr> True ^^ 3) (pressure_evaluator_new 0)) = Saturated"
  using pressure_converges [of pressure_config_default 3 1 10
      "\<lparr>sig_active_flows = 1, sig_total_queued_bytes = 10, sig_standing_flows = 0,
       sig_backpressured_flows = 0\<rparr>" "pressure_evaluator_new 0"]
  by (simp add: pressure_config_default_def pressure_evaluator_new_def derive_target_state_def
      pressure_score_def raise_to_def queue_ratio_pct_def standing_ratio_pct_def sat_mul_def
      rotate_window_if_needed_def duration_from_secs_def)

text \<open>
  The pressure target is monotone in the load: more queued bytes, more standing or
  backpressured flows, more rejections or more stalls never call for a lower state.
\<close>

theorem pressure_target_monotone:
  assumes "sig_active_flows sg = sig_active_flows sg'"
    and "sig_total_queued_bytes sg \<le> sig_total_queued_bytes sg'"
    and "sig_standing_flows sg \<le> sig_standing_flows sg'"
    and "sig_backpressured_flows sg \<le> sig_backpressured_flows sg'"
    and "pe_admission_rejects_window pe \<le> pe_admission_rejects_window pe'"
    and "pe_route_stalls_window pe \<le> pe_route_stalls_window pe'"
  shows "derive_target_state cfg mt sg pe \<le> derive_target_state cfg mt sg' pe'"
proof (cases "pc_backpressure_enabled cfg")
  case True
  have q: "queue_ratio_pct mt sg \<le> queue_ratio_pct mt sg'"
    using assms(2) by (rule queue_ratio_pct_mono)
  have st: "standing_ratio_pct sg \<le> standing_ratio_pct sg'"
    using assms(1,3) by (rule standing_ratio_pct_mono)
  have "pressure_score cfg mt sg pe \<le> pressure_score cfg mt sg' pe'"
    unfolding pressure_score_def Let_def
    by (intro raise_to_mono) (use assms q st in auto)
  then show ?thesis
    using True by (simp add: less_eq_pressure_state_def pressure_as_u8_target)
qed (simp add: derive_target_state_def less_eq_pressure_state_def)

theorem pressure_target_monotone_witness:
  "derive_target_state pressure_config_default 10
     \<lparr>sig_active_flows = 1, sig_total_queued_bytes = 1, sig_standing_flows = 0,
      sig_backpressured_flows = 0\<rparr> (pressure_evaluator_new 0) \<le>
   derive_target_state pressure_config_default 10
     \<lparr>sig_active_flows = 1, sig_total_queued_bytes = 9, sig_standing_flows = 1,
      sig_backpressured_flows = 1\<rparr> (pressure_evaluator_new 3)"
  by (rule pressure_target_monotone) (simp_all add: pressure_evaluator_new_def)

end
