(* ===== verification/Fair_Scheduler.thy ===== *)
theory Fair_Scheduler
  imports Fair_Pressure Proto_Constants
begin

section \<open>The deficit-round-robin scheduler of a reader worker\<close>

text \<open>
  \<^verbatim>\<open>src/src/transport/middle_proxy/fairness/scheduler.rs\<close> and the flow types of
  \<^verbatim>\<open>fairness/model.rs\<close>. A worker owns one scheduler: frames that arrive from the
  middle proxy are queued per connection, a ring of active connections is served with
  per-visit byte quanta, and the outcome of each dispatch is fed back. Each method of
  \<open>WorkerFairnessState\<close> is a function on the worker record; a method with a result
  returns it beside the new state. Counters are \<open>nat\<close> with the saturation of their
  Rust type written out; the deficit is an \<open>i64\<close>.
\<close>

subsection \<open>Flows\<close>

datatype flow_pressure_class = Healthy | Bursty | FP_Backpressured | FP_Standing
datatype standing_queue_state = Transient | Standing
datatype flow_scheduler_state =
  FS_Idle | FS_Active | FS_Backpressured | FS_Penalized | FS_SheddingCandidate

record queued_frame =
  qf_conn_id :: nat
  qf_flags :: u32
  qf_data :: bytes
  qf_enqueued_at :: instant

definition queued_bytes :: "queued_frame \<Rightarrow> nat" where
  "queued_bytes fr = length (qf_data fr)"

record flow_fairness =
  fl_flow_id :: nat
  fl_worker_id :: nat
  fl_pending_bytes :: nat
  fl_deficit_bytes :: int
  fl_queue_started_at :: "instant option"
  fl_last_drain_at :: "instant option"
  fl_recent_drain_bytes :: nat
  fl_consecutive_stalls :: nat
  fl_consecutive_skips :: nat
  fl_penalty_score :: nat
  fl_pressure_class :: flow_pressure_class
  fl_standing_state :: standing_queue_state
  fl_scheduler_state :: flow_scheduler_state
  fl_bucket_id :: nat
  fl_weight_quanta :: nat
  fl_in_active_ring :: bool

definition flow_fairness_new :: "nat \<Rightarrow> nat \<Rightarrow> nat \<Rightarrow> nat \<Rightarrow> flow_fairness" where
  "flow_fairness_new flow_id worker_id bucket_id weight_quanta =
     \<lparr>fl_flow_id = flow_id, fl_worker_id = worker_id, fl_pending_bytes = 0,
      fl_deficit_bytes = 0, fl_queue_started_at = None, fl_last_drain_at = None,
      fl_recent_drain_bytes = 0, fl_consecutive_stalls = 0, fl_consecutive_skips = 0,
      fl_penalty_score = 0, fl_pressure_class = Healthy, fl_standing_state = Transient,
      fl_scheduler_state = FS_Idle, fl_bucket_id = bucket_id,
      fl_weight_quanta = max weight_quanta 1, fl_in_active_ring = False\<rparr>"

record flow_entry =
  fe_fairness :: flow_fairness
  fe_queue :: "queued_frame list"

definition flow_entry_new :: "nat \<Rightarrow> nat \<Rightarrow> nat \<Rightarrow> nat \<Rightarrow> flow_entry" where
  "flow_entry_new flow_id worker_id bucket_id weight_quanta =
     \<lparr>fe_fairness = flow_fairness_new flow_id worker_id bucket_id weight_quanta, fe_queue = []\<rparr>"

subsection \<open>Decisions and feedback\<close>

datatype admission_decision =
    Admit | RejectWorkerCap | RejectFlowCap | RejectBucketCap | RejectSaturated
  | RejectStandingFlow

record dispatch_candidate =
  dc_frame :: queued_frame
  dc_pressure_state :: pressure_state
  dc_flow_class :: flow_pressure_class

datatype scheduler_decision = SD_Idle | SD_Dispatch dispatch_candidate
datatype dispatch_feedback = Routed | QueueFull | ChannelClosed | NoConn
datatype dispatch_action = DA_Continue | DA_CloseFlow

subsection \<open>Configuration and worker state\<close>

record worker_config =
  wc_worker_id :: nat
  wc_backpressure_enabled :: bool
  wc_max_active_flows :: nat
  wc_max_total_queued_bytes :: nat
  wc_max_flow_queued_bytes :: nat
  wc_base_quantum_bytes :: nat
  wc_pressured_quantum_bytes :: nat
  wc_penalized_quantum_bytes :: nat
  wc_standing_queue_min_age :: duration
  wc_standing_queue_min_backlog_bytes :: nat
  wc_standing_stall_threshold :: nat
  wc_max_consecutive_stalls_before_shed :: nat
  wc_max_consecutive_stalls_before_close :: nat
  wc_soft_bucket_count :: nat
  wc_soft_bucket_share_pct :: nat
  wc_default_flow_weight :: nat
  wc_quickack_flow_weight :: nat
  wc_pressure :: pressure_config

definition worker_config_default :: worker_config where
  "worker_config_default =
     \<lparr>wc_worker_id = 0, wc_backpressure_enabled = True, wc_max_active_flows = 4096,
      wc_max_total_queued_bytes = 16 * 1024 * 1024,
      wc_max_flow_queued_bytes = 512 * 1024,
      wc_base_quantum_bytes = 32 * 1024,
      wc_pressured_quantum_bytes = 16 * 1024,
      wc_penalized_quantum_bytes = 8 * 1024,
      wc_standing_queue_min_age = duration_from_millis 250,
      wc_standing_queue_min_backlog_bytes = 64 * 1024,
      wc_standing_stall_threshold = 3,
      wc_max_consecutive_stalls_before_shed = 4,
      wc_max_consecutive_stalls_before_close = 16,
      wc_soft_bucket_count = 64,
      wc_soft_bucket_share_pct = 25,
      wc_default_flow_weight = 1,
      wc_quickack_flow_weight = 4,
      wc_pressure = pressure_config_default\<rparr>"

record worker =
  ws_config :: worker_config
  ws_pressure :: pressure_evaluator
  ws_flows :: "(nat \<times> flow_entry) list"
  ws_active_ring :: "nat list"
  ws_active_ring_members :: "nat set"
  ws_total_queued_bytes :: nat
  ws_bucket_queued_bytes :: "nat list"
  ws_bucket_active_flows :: "nat list"
  ws_standing_flow_count :: nat
  ws_backpressured_flow_count :: nat
  ws_scheduler_rounds :: nat
  ws_deficit_grants :: nat
  ws_deficit_skips :: nat
  ws_enqueue_rejects :: nat
  ws_shed_drops :: nat
  ws_fairness_penalties :: nat
  ws_downstream_stalls :: nat

definition worker_new :: "worker_config \<Rightarrow> instant \<Rightarrow> worker" where
  "worker_new config0 now =
     (let config = config0\<lparr>wc_pressure := (wc_pressure config0)
                    \<lparr>pc_backpressure_enabled := wc_backpressure_enabled config0\<rparr>\<rparr>;
          bucket_count = max (wc_soft_bucket_count config) 1
      in \<lparr>ws_config = config, ws_pressure = pressure_evaluator_new now, ws_flows = [],
          ws_active_ring = [], ws_active_ring_members = {}, ws_total_queued_bytes = 0,
          ws_bucket_queued_bytes = replicate bucket_count 0,
          ws_bucket_active_flows = replicate bucket_count 0,
          ws_standing_flow_count = 0, ws_backpressured_flow_count = 0,
          ws_scheduler_rounds = 0, ws_deficit_grants = 0, ws_deficit_skips = 0,
          ws_enqueue_rejects = 0, ws_shed_drops = 0, ws_fairness_penalties = 0,
          ws_downstream_stalls = 0\<rparr>)"

record worker_snapshot =
  sn_pressure_state :: pressure_state
  sn_active_flows :: nat
  sn_total_queued_bytes :: nat
  sn_standing_flows :: nat
  sn_backpressured_flows :: nat
  sn_scheduler_rounds :: nat
  sn_deficit_grants :: nat
  sn_deficit_skips :: nat
  sn_enqueue_rejects :: nat
  sn_shed_drops :: nat
  sn_fairness_penalties :: nat
  sn_downstream_stalls :: nat

definition worker_pressure_state :: "worker \<Rightarrow> pressure_state" where
  "worker_pressure_state s = pe_state (ws_pressure s)"

definition snapshot :: "worker \<Rightarrow> worker_snapshot" where
  "snapshot s =
     \<lparr>sn_pressure_state = pe_state (ws_pressure s), sn_active_flows = length (ws_flows s),
      sn_total_queued_bytes = ws_total_queued_bytes s,
      sn_standing_flows = ws_standing_flow_count s,
      sn_backpressured_flows = ws_backpressured_flow_count s,
      sn_scheduler_rounds = ws_scheduler_rounds s,
      sn_deficit_grants = ws_deficit_grants s, sn_deficit_skips = ws_deficit_skips s,
      sn_enqueue_rejects = ws_enqueue_rejects s, sn_shed_drops = ws_shed_drops s,
      sn_fairness_penalties = ws_fairness_penalties s,
      sn_downstream_stalls = ws_downstream_stalls s\<rparr>"

subsection \<open>Helpers of the worker\<close>

definition evaluate_pressure :: "instant \<Rightarrow> bool \<Rightarrow> worker \<Rightarrow> worker" where
  "evaluate_pressure now force s =
     s\<lparr>ws_pressure :=
         maybe_evaluate now (wc_pressure (ws_config s)) (wc_max_total_queued_bytes (ws_config s))
           \<lparr>sig_active_flows = length (ws_flows s),
            sig_total_queued_bytes = ws_total_queued_bytes s,
            sig_standing_flows = ws_standing_flow_count s,
            sig_backpressured_flows = ws_backpressured_flow_count s\<rparr>
           force (ws_pressure s)\<rparr>"

definition derive_flow_classification ::
    "worker_config \<Rightarrow> pressure_state \<Rightarrow> instant \<Rightarrow> flow_fairness \<Rightarrow>
     flow_pressure_class \<times> standing_queue_state \<times> flow_scheduler_state \<times> bool" where
  "derive_flow_classification config ps now fl =
     (if fl_pending_bytes fl = 0 then (Healthy, Transient, FS_Idle, False)
      else
        let queue_age = (case fl_queue_started_at fl of Some ts \<Rightarrow> now - ts | None \<Rightarrow> 0);
            drain_stalled = (case fl_last_drain_at fl of
                Some ts \<Rightarrow> now - ts \<ge> wc_standing_queue_min_age config | None \<Rightarrow> True);
            standing = (fl_pending_bytes fl \<ge> wc_standing_queue_min_backlog_bytes config
              \<and> queue_age \<ge> wc_standing_queue_min_age config
              \<and> (fl_consecutive_stalls fl \<ge> wc_standing_stall_threshold config \<or> drain_stalled))
        in if standing then
             (FP_Standing, Standing,
              if ps \<ge> Shedding then FS_SheddingCandidate else FS_Penalized, True)
           else if fl_consecutive_stalls fl > 0 then
             (FP_Backpressured, Transient, FS_Backpressured, False)
           else if fl_pending_bytes fl \<ge> wc_standing_queue_min_backlog_bytes config then
             (Bursty, Transient, FS_Active, False)
           else (Healthy, Transient, FS_Active, False))"

definition classify_flow ::
    "worker_config \<Rightarrow> pressure_state \<Rightarrow> instant \<Rightarrow> flow_fairness \<Rightarrow> flow_fairness" where
  "classify_flow config ps now fl =
     (let (pc, st, ss, standing) = derive_flow_classification config ps now fl;
          fl1 = fl\<lparr>fl_pressure_class := pc, fl_standing_state := st, fl_scheduler_state := ss\<rparr>;
          fl2 = (if ss = FS_Idle then fl1\<lparr>fl_deficit_bytes := 0\<rparr> else fl1)
      in if standing then fl2\<lparr>fl_penalty_score := sat_add U16_MAX (fl_penalty_score fl2) 1\<rparr>
         else fl2\<lparr>fl_penalty_score := fl_penalty_score fl2 - 1\<rparr>)"

fun scheduler_state_is_backpressured :: "flow_scheduler_state \<Rightarrow> bool" where
  "scheduler_state_is_backpressured FS_Backpressured = True"
| "scheduler_state_is_backpressured FS_Penalized = True"
| "scheduler_state_is_backpressured FS_SheddingCandidate = True"
| "scheduler_state_is_backpressured FS_Idle = False"
| "scheduler_state_is_backpressured FS_Active = False"

definition flow_membership :: "flow_fairness \<Rightarrow> bool \<times> bool" where
  "flow_membership fl =
     (fl_standing_state fl = Standing, scheduler_state_is_backpressured (fl_scheduler_state fl))"

text \<open>One counter of \<open>apply_flow_membership_delta\<close>.\<close>

definition membership_delta :: "bool \<Rightarrow> bool \<Rightarrow> nat \<Rightarrow> nat" where
  "membership_delta before after n =
     (if before \<noteq> after then (if after then sat_add U64_MAX n 1 else n - 1) else n)"

definition apply_flow_membership_delta :: "bool \<times> bool \<Rightarrow> bool \<times> bool \<Rightarrow> worker \<Rightarrow> worker" where
  "apply_flow_membership_delta before after s =
     s\<lparr>ws_standing_flow_count := membership_delta (fst before) (fst after) (ws_standing_flow_count s),
       ws_backpressured_flow_count :=
         membership_delta (snd before) (snd after) (ws_backpressured_flow_count s)\<rparr>"

definition sat_add_i64 :: "int \<Rightarrow> int \<Rightarrow> int" where
  "sat_add_i64 a b = max (- int I64_MAX - 1) (min (int I64_MAX) (a + b))"

definition sat_sub_i64 :: "int \<Rightarrow> int \<Rightarrow> int" where
  "sat_sub_i64 a b = max (- int I64_MAX - 1) (min (int I64_MAX) (a - b))"

text \<open>The cast \<open>as i64\<close> of a \<open>u64\<close> wraps.\<close>

definition as_i64 :: "nat \<Rightarrow> int" where
  "as_i64 n = (let m = n mod (U64_MAX + 1)
               in if m \<le> I64_MAX then int m else int m - int (U64_MAX + 1))"

definition clamp_deficit_bytes :: "worker_config \<Rightarrow> flow_fairness \<Rightarrow> flow_fairness" where
  "clamp_deficit_bytes config fl =
     (let max_deficit = int (min (wc_max_flow_queued_bytes config) I64_MAX)
      in fl\<lparr>fl_deficit_bytes := max 0 (min max_deficit (fl_deficit_bytes fl))\<rparr>)"

definition enqueue_active_conn :: "nat \<Rightarrow> worker \<Rightarrow> worker" where
  "enqueue_active_conn conn s =
     (if conn \<in> ws_active_ring_members s then s
      else s\<lparr>ws_active_ring_members := insert conn (ws_active_ring_members s),
             ws_active_ring := ws_active_ring s @ [conn]\<rparr>)"

definition weight_for_flags :: "worker_config \<Rightarrow> u32 \<Rightarrow> nat" where
  "weight_for_flags config flags =
     (if flags AND RPC_FLAG_QUICKACK \<noteq> 0 then max (wc_quickack_flow_weight config) 1
      else max (wc_default_flow_weight config) 1)"

definition effective_quantum_bytes ::
    "worker_config \<Rightarrow> pressure_state \<Rightarrow> flow_fairness \<Rightarrow> nat" where
  "effective_quantum_bytes config ps fl =
     (if fl_scheduler_state fl = FS_Penalized \<or> fl_scheduler_state fl = FS_SheddingCandidate
      then max (wc_penalized_quantum_bytes config) 1
      else
        let base = (case ps of
              Normal \<Rightarrow> max (wc_base_quantum_bytes config) 1
            | Pressured \<Rightarrow> max (wc_pressured_quantum_bytes config) 1
            | Shedding \<Rightarrow> max (wc_pressured_quantum_bytes config) 1
            | Saturated \<Rightarrow> max (wc_penalized_quantum_bytes config) 1)
        in max (sat_mul U32_MAX base (max (fl_weight_quanta fl) 1)) 1)"

definition bucket_for :: "nat \<Rightarrow> worker \<Rightarrow> nat" where
  "bucket_for conn s = conn mod max (length (ws_bucket_queued_bytes s)) 1"

definition put_flow :: "nat \<Rightarrow> flow_entry \<Rightarrow> worker \<Rightarrow> worker" where
  "put_flow conn e s = s\<lparr>ws_flows := AList.update conn e (ws_flows s)\<rparr>"

text \<open>The bytes of a bucket and of the worker change together.\<close>

definition add_queued :: "nat \<Rightarrow> nat \<Rightarrow> worker \<Rightarrow> worker" where
  "add_queued b n s =
     s\<lparr>ws_total_queued_bytes := sat_add U64_MAX (ws_total_queued_bytes s) n,
       ws_bucket_queued_bytes :=
         (ws_bucket_queued_bytes s)[b := sat_add U64_MAX (ws_bucket_queued_bytes s ! b) n]\<rparr>"

definition sub_queued :: "nat \<Rightarrow> nat \<Rightarrow> worker \<Rightarrow> worker" where
  "sub_queued b n s =
     s\<lparr>ws_total_queued_bytes := ws_total_queued_bytes s - n,
       ws_bucket_queued_bytes :=
         (ws_bucket_queued_bytes s)[b := ws_bucket_queued_bytes s ! b - n]\<rparr>"

subsection \<open>Operations of the worker\<close>

definition remove_flow :: "nat \<Rightarrow> worker \<Rightarrow> worker" where
  "remove_flow conn s =
     (case map_of (ws_flows s) conn of
        None \<Rightarrow> s
      | Some e \<Rightarrow>
          let (was_standing, was_backpressured) = flow_membership (fe_fairness e);
              b = fl_bucket_id (fe_fairness e);
              reclaimed = fold (\<lambda>fr acc. sat_add U64_MAX acc (queued_bytes fr)) (fe_queue e) 0;
              s1 = s\<lparr>ws_flows := AList.delete conn (ws_flows s),
                     ws_active_ring_members := ws_active_ring_members s - {conn},
                     ws_active_ring := filter (\<lambda>c. c \<noteq> conn) (ws_active_ring s),
                     ws_standing_flow_count :=
                       (if was_standing then ws_standing_flow_count s - 1
                        else ws_standing_flow_count s),
                     ws_backpressured_flow_count :=
                       (if was_backpressured then ws_backpressured_flow_count s - 1
                        else ws_backpressured_flow_count s),
                     ws_bucket_active_flows :=
                       (ws_bucket_active_flows s)[b := ws_bucket_active_flows s ! b - 1]\<rparr>
          in sub_queued b reclaimed s1)"

definition set_backpressure_enabled :: "instant \<Rightarrow> bool \<Rightarrow> worker \<Rightarrow> worker" where
  "set_backpressure_enabled now enabled s =
     (if wc_backpressure_enabled (ws_config s) = enabled then s
      else evaluate_pressure now True
             (s\<lparr>ws_config := (ws_config s)
                  \<lparr>wc_backpressure_enabled := enabled,
                   wc_pressure := (wc_pressure (ws_config s))\<lparr>pc_backpressure_enabled := enabled\<rparr>\<rparr>\<rparr>))"

text \<open>The two lines every refusal runs before it returns.\<close>

definition note_reject :: "instant \<Rightarrow> worker \<Rightarrow> worker" where
  "note_reject now s =
     s\<lparr>ws_pressure := note_admission_reject now (wc_pressure (ws_config s)) (ws_pressure s),
       ws_enqueue_rejects := sat_add U64_MAX (ws_enqueue_rejects s) 1\<rparr>"

definition bucket_cap :: "worker_config \<Rightarrow> nat" where
  "bucket_cap config =
     max (sat_mul U64_MAX (wc_max_total_queued_bytes config)
            (max (wc_soft_bucket_share_pct config) 1) div 100)
         (wc_max_flow_queued_bytes config)"

text \<open>The entry of a connection, created on its first frame, with the weight raised.\<close>

definition get_or_insert_flow :: "nat \<Rightarrow> nat \<Rightarrow> nat \<Rightarrow> worker \<Rightarrow> flow_entry \<times> worker" where
  "get_or_insert_flow conn b weight s =
     (let (e, s1) =
        (case map_of (ws_flows s) conn of
           Some e \<Rightarrow> (e, s)
         | None \<Rightarrow> (flow_entry_new conn (wc_worker_id (ws_config s)) b weight,
                   s\<lparr>ws_bucket_active_flows :=
                      (ws_bucket_active_flows s)
                        [b := sat_add U64_MAX (ws_bucket_active_flows s ! b) 1]\<rparr>));
        e1 = e\<lparr>fe_fairness := (fe_fairness e)
               \<lparr>fl_weight_quanta := max (fl_weight_quanta (fe_fairness e)) weight\<rparr>\<rparr>
      in (e1, put_flow conn e1 s1))"

text \<open>The admitted frame: lines 257 to 286 of \<open>enqueue_data\<close>.\<close>

definition push_frame :: "nat \<Rightarrow> queued_frame \<Rightarrow> nat \<Rightarrow> instant \<Rightarrow> flow_entry \<Rightarrow> worker \<Rightarrow> worker" where
  "push_frame conn fr b now e s =
     (let n = queued_bytes fr;
          fl = fe_fairness e;
          fl1 = fl\<lparr>fl_pending_bytes := sat_add U64_MAX (fl_pending_bytes fl) n,
                   fl_queue_started_at := (case fl_queue_started_at fl of
                      None \<Rightarrow> Some now | Some ts \<Rightarrow> Some ts),
                   fl_in_active_ring := True\<rparr>;
          enqueue_active = (\<not> fl_in_active_ring fl);
          fl2 = classify_flow (ws_config s) (pe_state (ws_pressure s)) now fl1;
          s1 = add_queued b n (put_flow conn \<lparr>fe_fairness = fl2, fe_queue = fe_queue e @ [fr]\<rparr> s);
          s2 = (if enqueue_active then enqueue_active_conn conn s1 else s1);
          s3 = apply_flow_membership_delta (flow_membership fl1) (flow_membership fl2) s2
      in evaluate_pressure now True s3)"

definition enqueue_data ::
    "nat \<Rightarrow> u32 \<Rightarrow> bytes \<Rightarrow> instant \<Rightarrow> worker \<Rightarrow> worker \<times> admission_decision" where
  "enqueue_data conn flags data now s =
     (let fr = \<lparr>qf_conn_id = conn, qf_flags = flags, qf_data = data, qf_enqueued_at = now\<rparr>;
          n = queued_bytes fr;
          config = ws_config s;
          reject = (\<lambda>d s. (evaluate_pressure now True (note_reject now s), d))
      in if wc_backpressure_enabled config \<and> pe_state (ws_pressure s) = Saturated
         then (note_reject now s, RejectSaturated)
         else if sat_add U64_MAX (ws_total_queued_bytes s) n > wc_max_total_queued_bytes config
         then reject RejectWorkerCap s
         else if map_of (ws_flows s) conn = None \<and> length (ws_flows s) \<ge> wc_max_active_flows config
         then reject RejectWorkerCap s
         else
           let b = bucket_for conn s;
               weight = weight_for_flags config flags
           in if sat_add U64_MAX (ws_bucket_queued_bytes s ! b) n > bucket_cap config
              then reject RejectBucketCap s
              else
                let (e, s1) = get_or_insert_flow conn b weight s
                in if sat_add U64_MAX (fl_pending_bytes (fe_fairness e)) n
                        > wc_max_flow_queued_bytes config
                   then reject RejectFlowCap s1
                   else if wc_backpressure_enabled config
                     \<and> pe_state (ws_pressure s1) \<ge> Shedding
                     \<and> fl_standing_state (fe_fairness e) = Standing
                   then reject RejectStandingFlow s1
                   else (push_frame conn fr b now e s1, Admit))"

subsection \<open>Serving the ring\<close>

datatype flow_visit =
    Visit_Empty flow_entry
  | Visit_Skip flow_entry
  | Visit_Drain flow_entry dispatch_candidate

definition visit_flow ::
    "worker_config \<Rightarrow> pressure_state \<Rightarrow> instant \<Rightarrow> flow_entry \<Rightarrow> flow_visit" where
  "visit_flow config ps now e =
     (let fl0 = (fe_fairness e)\<lparr>fl_in_active_ring := False\<rparr> in
      case fe_queue e of
        [] \<Rightarrow> Visit_Empty (e\<lparr>fe_fairness := fl0\<lparr>fl_scheduler_state := FS_Idle,
                 fl_pending_bytes := 0, fl_deficit_bytes := 0, fl_queue_started_at := None\<rparr>\<rparr>)
      | fr # rest \<Rightarrow>
          let fl1 = classify_flow config ps now fl0;
              quantum = effective_quantum_bytes config ps fl1;
              fl2 = clamp_deficit_bytes config
                      (fl1\<lparr>fl_deficit_bytes := sat_add_i64 (fl_deficit_bytes fl1) (int quantum)\<rparr>)
          in if fl_deficit_bytes fl2 < as_i64 (queued_bytes fr)
             then Visit_Skip (e\<lparr>fe_fairness :=
                    fl2\<lparr>fl_consecutive_skips := sat_add U8_MAX (fl_consecutive_skips fl2) 1,
                        fl_in_active_ring := True\<rparr>\<rparr>)
             else
               let drained = queued_bytes fr;
                   fl3 = clamp_deficit_bytes config
                     (fl2\<lparr>fl_pending_bytes := fl_pending_bytes fl2 - drained,
                          fl_deficit_bytes := sat_sub_i64 (fl_deficit_bytes fl2) (as_i64 drained)\<rparr>);
                   fl4 = fl3\<lparr>fl_consecutive_skips := 0,
                             fl_queue_started_at := (case rest of
                                [] \<Rightarrow> None | front # _ \<Rightarrow> Some (qf_enqueued_at front))\<rparr>;
                   fl5 = (if rest = []
                          then fl4\<lparr>fl_scheduler_state := FS_Idle, fl_in_active_ring := False,
                                   fl_deficit_bytes := 0\<rparr>
                          else fl4\<lparr>fl_in_active_ring := True\<rparr>)
               in Visit_Drain \<lparr>fe_fairness = fl5, fe_queue = rest\<rparr>
                    \<lparr>dc_frame = fr, dc_pressure_state = ps, dc_flow_class = fl_pressure_class fl5\<rparr>)"

text \<open>
  The body of the loop of \<open>next_decision\<close>, for a connection just taken off the ring:
  the frame handed out, if any, and the worker.
\<close>

definition visit_conn :: "instant \<Rightarrow> nat \<Rightarrow> worker \<Rightarrow> worker \<times> dispatch_candidate option" where
  "visit_conn now conn s =
     (case map_of (ws_flows s) conn of
        None \<Rightarrow> (s, None)
      | Some e \<Rightarrow>
          let before = flow_membership (fe_fairness e) in
          case visit_flow (ws_config s) (pe_state (ws_pressure s)) now e of
            Visit_Empty e' \<Rightarrow>
              (apply_flow_membership_delta before (flow_membership (fe_fairness e'))
                 (put_flow conn e' s), None)
          | Visit_Skip e' \<Rightarrow>
              let s1 = (put_flow conn e' s)
                    \<lparr>ws_deficit_grants := sat_add U64_MAX (ws_deficit_grants s) 1,
                     ws_deficit_skips := sat_add U64_MAX (ws_deficit_skips s) 1\<rparr>;
                  s2 = apply_flow_membership_delta before (flow_membership (fe_fairness e')) s1
              in (enqueue_active_conn conn s2, None)
          | Visit_Drain e' cand \<Rightarrow>
              let s1 = (put_flow conn e' s)
                    \<lparr>ws_deficit_grants := sat_add U64_MAX (ws_deficit_grants s) 1\<rparr>;
                  s2 = apply_flow_membership_delta before (flow_membership (fe_fairness e')) s1;
                  drained = queued_bytes (dc_frame cand);
                  s3 = (if drained > 0 then sub_queued (fl_bucket_id (fe_fairness e)) drained s2
                        else s2);
                  s4 = (if fe_queue e' \<noteq> [] then enqueue_active_conn conn s3 else s3)
              in (s4, Some cand))"

text \<open>The first argument counts the visits left of \<open>for _ in 0..active_len\<close>.\<close>

primrec serve_ring :: "nat \<Rightarrow> instant \<Rightarrow> worker \<Rightarrow> worker \<times> scheduler_decision" where
  "serve_ring 0 now s = (s, SD_Idle)"
| "serve_ring (Suc k) now s =
     (case ws_active_ring s of
        [] \<Rightarrow> (s, SD_Idle)
      | conn # ring \<Rightarrow>
          let s1 = s\<lparr>ws_active_ring := ring\<rparr> in
          if conn \<notin> ws_active_ring_members s1 then serve_ring k now s1
          else
            case visit_conn now conn
                   (s1\<lparr>ws_active_ring_members := ws_active_ring_members s1 - {conn}\<rparr>) of
              (s2, None) \<Rightarrow> serve_ring k now s2
            | (s2, Some cand) \<Rightarrow> (s2, SD_Dispatch cand))"

definition next_decision :: "instant \<Rightarrow> worker \<Rightarrow> worker \<times> scheduler_decision" where
  "next_decision now s =
     (let s1 = evaluate_pressure now False
                 (s\<lparr>ws_scheduler_rounds := sat_add U64_MAX (ws_scheduler_rounds s) 1\<rparr>)
      in serve_ring (length (ws_active_ring s1)) now s1)"

subsection \<open>Feedback\<close>

definition feedback_routed :: "nat \<Rightarrow> dispatch_candidate \<Rightarrow> instant \<Rightarrow> worker \<Rightarrow> worker" where
  "feedback_routed conn cand now s =
     evaluate_pressure now False
       (case map_of (ws_flows s) conn of
          None \<Rightarrow> s
        | Some e \<Rightarrow>
            let fl = fe_fairness e;
                fl1 = fl\<lparr>fl_last_drain_at := Some now,
                         fl_recent_drain_bytes :=
                           sat_add U64_MAX (fl_recent_drain_bytes fl) (queued_bytes (dc_frame cand)),
                         fl_consecutive_stalls := 0,
                         fl_scheduler_state := (if fl_scheduler_state fl \<noteq> FS_Idle then FS_Active
                                                else FS_Idle)\<rparr>;
                fl2 = classify_flow (ws_config s) (pe_state (ws_pressure s)) now fl1
            in apply_flow_membership_delta (flow_membership fl) (flow_membership fl2)
                 (put_flow conn (e\<lparr>fe_fairness := fl2\<rparr>) s))"

definition should_shed_frame :: "worker_config \<Rightarrow> pressure_state \<Rightarrow> flow_fairness \<Rightarrow> bool" where
  "should_shed_frame config ps fl \<longleftrightarrow>
     wc_backpressure_enabled config \<and>
     (ps = Saturated \<or>
      ps = Shedding \<and> fl_standing_state fl = Standing \<and>
      fl_consecutive_stalls fl \<ge> wc_max_consecutive_stalls_before_shed config)"

definition should_close_flow :: "worker_config \<Rightarrow> pressure_state \<Rightarrow> flow_fairness \<Rightarrow> bool" where
  "should_close_flow config ps fl \<longleftrightarrow>
     wc_backpressure_enabled config \<and>
     fl_consecutive_stalls fl \<ge> wc_max_consecutive_stalls_before_close config \<and>
     ps = Saturated"

text \<open>The marks a full downstream queue leaves on the flow while backpressure is enabled.\<close>

definition note_flow_stall :: "bool \<Rightarrow> flow_fairness \<Rightarrow> flow_fairness" where
  "note_flow_stall bp fl =
     (if bp then fl\<lparr>fl_consecutive_stalls := sat_add U8_MAX (fl_consecutive_stalls fl) 1,
                    fl_scheduler_state := FS_Backpressured,
                    fl_pressure_class := FP_Backpressured\<rparr>
      else fl)"

definition feedback_queue_full ::
    "nat \<Rightarrow> dispatch_candidate \<Rightarrow> instant \<Rightarrow> worker \<Rightarrow> worker \<times> dispatch_action" where
  "feedback_queue_full conn cand now s0 =
     (let bp = wc_backpressure_enabled (ws_config s0);
          s = (if bp then s0\<lparr>ws_pressure := note_route_stall now (wc_pressure (ws_config s0))
                                (ws_pressure s0),
                             ws_downstream_stalls := sat_add U64_MAX (ws_downstream_stalls s0) 1\<rparr>
               else s0);
          state = pe_state (ws_pressure s)
      in case map_of (ws_flows s) conn of
           None \<Rightarrow> (evaluate_pressure now True s, DA_Continue)
         | Some e \<Rightarrow>
             let fl = fe_fairness e;
                 fl1 = note_flow_stall bp fl;
                 n = queued_bytes (dc_frame cand);
                 shed = should_shed_frame (ws_config s) state fl1;
                 fl2 = (if shed then fl1
                        else fl1\<lparr>fl_pending_bytes := sat_add U64_MAX (fl_pending_bytes fl1) n,
                                 fl_queue_started_at := Some (qf_enqueued_at (dc_frame cand)),
                                 fl_in_active_ring := True\<rparr>);
                 q2 = (if shed then fe_queue e else dc_frame cand # fe_queue e);
                 fl3 = classify_flow (ws_config s) state now fl2;
                 s1 = put_flow conn \<lparr>fe_fairness = fl3, fe_queue = q2\<rparr> s;
                 s2 = (if shed
                       then s1\<lparr>ws_shed_drops := sat_add U64_MAX (ws_shed_drops s1) 1,
                               ws_fairness_penalties := sat_add U64_MAX (ws_fairness_penalties s1) 1\<rparr>
                       else add_queued (fl_bucket_id fl) n s1);
                 s3 = (if \<not> shed \<and> \<not> fl_in_active_ring fl then enqueue_active_conn conn s2 else s2);
                 s4 = apply_flow_membership_delta (flow_membership fl) (flow_membership fl3) s3
             in if should_close_flow (ws_config s) state fl3
                then (evaluate_pressure now True (remove_flow conn s4), DA_CloseFlow)
                else (evaluate_pressure now True s4, DA_Continue))"

fun apply_dispatch_feedback ::
    "nat \<Rightarrow> dispatch_candidate \<Rightarrow> dispatch_feedback \<Rightarrow> instant \<Rightarrow> worker \<Rightarrow> worker \<times> dispatch_action"
where
  "apply_dispatch_feedback conn cand Routed now s = (feedback_routed conn cand now s, DA_Continue)"
| "apply_dispatch_feedback conn cand QueueFull now s = feedback_queue_full conn cand now s"
| "apply_dispatch_feedback conn cand ChannelClosed now s =
     (evaluate_pressure now True (remove_flow conn s), DA_CloseFlow)"
| "apply_dispatch_feedback conn cand NoConn now s =
     (evaluate_pressure now True (remove_flow conn s), DA_CloseFlow)"

subsection \<open>Consistency checks of the source\<close>

text \<open>The checks that the test build of the worker exposes.\<close>

definition debug_recompute_flow_counters :: "instant \<Rightarrow> worker \<Rightarrow> nat \<times> nat" where
  "debug_recompute_flow_counters now s =
     fold (\<lambda>(_, e) (standing, backpressured).
             let (_, st, ss, _) = derive_flow_classification (ws_config s)
                                    (pe_state (ws_pressure s)) now (fe_fairness e)
             in (if st = Standing then sat_add U64_MAX standing 1 else standing,
                 if scheduler_state_is_backpressured ss then sat_add U64_MAX backpressured 1
                 else backpressured))
       (ws_flows s) (0, 0)"

primrec debug_check_ring :: "worker \<Rightarrow> nat list \<Rightarrow> nat set \<Rightarrow> bool" where
  "debug_check_ring s [] seen = True"
| "debug_check_ring s (c # cs) seen =
     (if c \<in> seen then False
      else if c \<notin> ws_active_ring_members s then False
      else case map_of (ws_flows s) c of
             None \<Rightarrow> False
           | Some e \<Rightarrow>
               if \<not> fl_in_active_ring (fe_fairness e) \<or> fe_queue e = [] then False
               else debug_check_ring s cs (insert c seen))"

definition debug_check_active_ring_consistency :: "worker \<Rightarrow> bool" where
  "debug_check_active_ring_consistency s =
     (if length (ws_active_ring s) \<noteq> card (ws_active_ring_members s) then False
      else if \<not> debug_check_ring s (ws_active_ring s) {} then False
      else list_all (\<lambda>(c, e).
             let in_ring = (c \<in> ws_active_ring_members s)
             in if fl_in_active_ring (fe_fairness e) \<noteq> in_ring then False
                else \<not> (in_ring \<and> fe_queue e = [])) (ws_flows s))"

definition debug_max_deficit_bytes :: "worker \<Rightarrow> int" where
  "debug_max_deficit_bytes s =
     (case ws_flows s of
        [] \<Rightarrow> 0
      | (_, e) # m \<Rightarrow> fold (\<lambda>(_, e) acc. max acc (fl_deficit_bytes (fe_fairness e))) m
                      (fl_deficit_bytes (fe_fairness e)))"

end
