(* ===== verification/Fair_Invariant.thy ===== *)
theory Fair_Invariant
  imports Fair_Scheduler
begin

section \<open>The invariant of the fairness scheduler\<close>

text \<open>
  What holds of a worker between two calls: the counters agree with the queues, no cap is
  exceeded, the ring holds each connection with queued frames exactly once, and the
  deficits stay within their bounds; every operation of
  \<^verbatim>\<open>fairness/scheduler.rs\<close> keeps it. A frame that was handed out and not yet
  answered leaves the room to put it back.
\<close>

subsection \<open>The invariant\<close>

abbreviation pending :: "flow_entry \<Rightarrow> nat" where
  "pending e \<equiv> fl_pending_bytes (fe_fairness e)"

abbreviation bucket_of :: "flow_entry \<Rightarrow> nat" where
  "bucket_of e \<equiv> fl_bucket_id (fe_fairness e)"

abbreviation is_standing :: "flow_entry \<Rightarrow> bool" where
  "is_standing e \<equiv> fst (flow_membership (fe_fairness e))"

abbreviation is_backpressured :: "flow_entry \<Rightarrow> bool" where
  "is_backpressured e \<equiv> snd (flow_membership (fe_fairness e))"

definition frames_bytes :: "queued_frame list \<Rightarrow> nat" where
  "frames_bytes q = sum_list (map queued_bytes q)"

definition flow_ok :: "worker_config \<Rightarrow> nat \<Rightarrow> nat \<Rightarrow> flow_entry \<Rightarrow> bool" where
  "flow_ok config nb c e \<longleftrightarrow>
     pending e = frames_bytes (fe_queue e) \<and>
     bucket_of e = c mod nb \<and>
     (fl_in_active_ring (fe_fairness e) \<longleftrightarrow> fe_queue e \<noteq> []) \<and>
     pending e \<le> wc_max_flow_queued_bytes config \<and>
     0 \<le> fl_deficit_bytes (fe_fairness e) \<and>
     fl_deficit_bytes (fe_fairness e) \<le> int (min (wc_max_flow_queued_bytes config) I64_MAX) \<and>
     list_all (\<lambda>fr. qf_conn_id fr = c) (fe_queue e)"

text \<open>
  The counters agree with the flows: queued bytes in total and per bucket, flows per
  bucket, standing flows, backpressured flows.
\<close>

definition counters_ok ::
    "(nat \<times> flow_entry) list \<Rightarrow> nat \<Rightarrow> nat list \<Rightarrow> nat list \<Rightarrow> nat \<Rightarrow> nat \<Rightarrow> bool" where
  "counters_ok m tot bk bf st bp \<longleftrightarrow>
     tot = map_weight (\<lambda>_ e. pending e) m \<and>
     length bf = length bk \<and>
     (\<forall>b<length bk. bk ! b = map_weight (\<lambda>_ e. if bucket_of e = b then pending e else 0) m) \<and>
     (\<forall>b<length bk. bf ! b = map_weight (\<lambda>_ e. if bucket_of e = b then 1 else 0) m) \<and>
     st = map_weight (\<lambda>_ e. of_bool (is_standing e)) m \<and>
     bp = map_weight (\<lambda>_ e. of_bool (is_backpressured e)) m"

text \<open>The ring holds every connection with queued frames exactly once.\<close>

definition ring_ok :: "(nat \<times> flow_entry) list \<Rightarrow> nat list \<Rightarrow> nat set \<Rightarrow> bool" where
  "ring_ok m ring members \<longleftrightarrow>
     distinct ring \<and> set ring = members \<and>
     (\<forall>c. c \<in> members \<longleftrightarrow> (\<exists>e. map_of m c = Some e \<and> fe_queue e \<noteq> []))"

definition config_ok :: "worker_config \<Rightarrow> bool" where
  "config_ok config \<longleftrightarrow>
     wc_max_total_queued_bytes config < U64_MAX \<and> wc_max_active_flows config \<le> U64_MAX"

definition flows_ok :: "worker_config \<Rightarrow> nat \<Rightarrow> (nat \<times> flow_entry) list \<Rightarrow> bool" where
  "flows_ok config nb m \<longleftrightarrow>
     map_wf m \<and> length m \<le> wc_max_active_flows config \<and>
     (\<forall>c e. map_of m c = Some e \<longrightarrow> flow_ok config nb c e)"

definition caps_ok :: "worker_config \<Rightarrow> nat \<Rightarrow> nat list \<Rightarrow> bool" where
  "caps_ok config tot bk \<longleftrightarrow>
     tot \<le> wc_max_total_queued_bytes config \<and>
     (\<forall>b<length bk. bk ! b \<le> bucket_cap config) \<and> bk \<noteq> []"

definition core_ok :: "worker_config \<Rightarrow> (nat \<times> flow_entry) list \<Rightarrow> nat \<Rightarrow> nat list \<Rightarrow> nat list \<Rightarrow>
    nat \<Rightarrow> nat \<Rightarrow> bool" where
  "core_ok config m tot bk bf st bp \<longleftrightarrow>
     config_ok config \<and> flows_ok config (length bk) m \<and>
     counters_ok m tot bk bf st bp \<and> caps_ok config tot bk"

definition worker_core :: "worker \<Rightarrow> bool" where
  "worker_core s \<longleftrightarrow>
     core_ok (ws_config s) (ws_flows s) (ws_total_queued_bytes s) (ws_bucket_queued_bytes s)
       (ws_bucket_active_flows s) (ws_standing_flow_count s) (ws_backpressured_flow_count s)"

definition worker_inv :: "worker \<Rightarrow> bool" where
  "worker_inv s \<longleftrightarrow>
     worker_core s \<and> ring_ok (ws_flows s) (ws_active_ring s) (ws_active_ring_members s)"

subsection \<open>Lemmas on counters\<close>

lemma counters_put:
  assumes ok: "counters_ok m tot bk bf st bp" and wf: "map_wf m" and e: "map_of m c = Some e"
    and b: "bucket_of e' = bucket_of e"
  shows "counters_ok (AList.update c e' m) (tot - pending e + pending e')
    (bk[bucket_of e := bk ! bucket_of e - pending e + pending e']) bf
    (st - of_bool (is_standing e) + of_bool (is_standing e'))
    (bp - of_bool (is_backpressured e) + of_bool (is_backpressured e'))"
  using ok hm.weight_ge [OF wf e, of "\<lambda>_ e'. if bucket_of e' = bucket_of e then 1 else 0"]
  unfolding counters_ok_def
  by (auto simp: hm.weight_update [OF wf e] b nth_list_update)

lemma counters_insert_fresh:
  assumes ok: "counters_ok m tot bk bf st bp" and e: "map_of m c = None"
    and "pending e' = 0" "\<not> is_standing e'" "\<not> is_backpressured e'"
  shows "counters_ok (AList.update c e' m) tot bk
    (bf[bucket_of e' := bf ! bucket_of e' + 1]) st bp"
  using assms unfolding counters_ok_def
  by (auto simp: hm.weight_insert_fresh [OF e] nth_list_update)

lemma counters_delete:
  assumes ok: "counters_ok m tot bk bf st bp" and wf: "map_wf m" and e: "map_of m c = Some e"
  shows "counters_ok (AList.delete c m) (tot - pending e)
    (bk[bucket_of e := bk ! bucket_of e - pending e])
    (bf[bucket_of e := bf ! bucket_of e - 1])
    (st - of_bool (is_standing e)) (bp - of_bool (is_backpressured e))"
  using ok unfolding counters_ok_def
  by (auto simp: hm.weight_delete [OF wf e] nth_list_update)

lemma counters_bounds:
  assumes ok: "counters_ok m tot bk bf st bp" and wf: "map_wf m" and e: "map_of m c = Some e"
  shows "pending e \<le> tot"
    and "bucket_of e < length bk \<Longrightarrow> pending e \<le> bk ! bucket_of e"
    and "of_bool (is_standing e) \<le> st" and "of_bool (is_backpressured e) \<le> bp"
  using ok hm.weight_ge [OF wf e, of "\<lambda>_ e. pending e"]
    hm.weight_ge [OF wf e, of "\<lambda>_ e'. if bucket_of e' = bucket_of e then pending e' else 0"]
    hm.weight_ge [OF wf e, of "\<lambda>_ e. of_bool (is_standing e)"]
    hm.weight_ge [OF wf e, of "\<lambda>_ e. of_bool (is_backpressured e)"]
  unfolding counters_ok_def by simp_all

lemma counters_le:
  assumes ok: "counters_ok m tot bk bf st bp"
  shows "st \<le> length m" and "bp \<le> length m"
    and "b < length bk \<Longrightarrow> bk ! b \<le> tot" and "b < length bk \<Longrightarrow> bf ! b \<le> length m"
  using ok unfolding counters_ok_def
  by (auto intro!: hm.weight_le_size hm.weight_mono)

lemma counters_room:
  assumes ok: "counters_ok m tot bk bf st bp" and wf: "map_wf m" and e: "map_of m c = Some e"
  shows "\<not> is_standing e \<Longrightarrow> st < length m" and "\<not> is_backpressured e \<Longrightarrow> bp < length m"
proof -
  have "map_weight f m < length m" if "\<And>k v. f k v \<le> (1 :: nat)" "f c e = 0" for f
  proof -
    have "map_weight f (AList.delete c m) \<le> length (AList.delete c m)"
      using that(1) by (rule hm.weight_le_size)
    then show ?thesis
      using hm.weight_remove [OF wf e, of f] hm.size_remove [OF wf e] that(2) by simp
  qed
  then show "\<not> is_standing e \<Longrightarrow> st < length m" and "\<not> is_backpressured e \<Longrightarrow> bp < length m"
    using ok unfolding counters_ok_def by simp_all
qed

lemma membership_delta_exact:
  "of_bool before \<le> n \<Longrightarrow> (\<not> before \<Longrightarrow> n < U64_MAX) \<Longrightarrow>
   membership_delta before after n = n - of_bool before + of_bool after"
  by (auto simp: membership_delta_def sat_add_def)

subsection \<open>Updating one flow keeps the core invariant\<close>

lemma core_ok_flow:
  "core_ok config m tot bk bf st bp \<Longrightarrow> map_of m c = Some e \<Longrightarrow> flow_ok config (length bk) c e"
  by (simp add: core_ok_def flows_ok_def)

lemma core_ok_bucket:
  "core_ok config m tot bk bf st bp \<Longrightarrow> map_of m c = Some e \<Longrightarrow> bucket_of e < length bk"
  by (auto simp: core_ok_def flows_ok_def flow_ok_def caps_ok_def)

lemma nth_update_le:
  "\<forall>b<length bk. bk ! b \<le> C \<Longrightarrow> v \<le> C \<Longrightarrow> b < length bk \<Longrightarrow> bk[i := v] ! b \<le> (C :: nat)"
  by (cases "i < length bk") (auto simp: nth_list_update list_update_beyond)

lemma core_put:
  assumes ok: "core_ok config m tot bk bf st bp" and e: "map_of m c = Some e"
    and e': "flow_ok config (length bk) c e'"
    and tot: "tot - pending e + pending e' \<le> wc_max_total_queued_bytes config"
    and bk: "bk ! bucket_of e - pending e + pending e' \<le> bucket_cap config"
  shows "core_ok config (AList.update c e' m) (tot - pending e + pending e')
    (bk[bucket_of e := bk ! bucket_of e - pending e + pending e']) bf
    (membership_delta (is_standing e) (is_standing e') st)
    (membership_delta (is_backpressured e) (is_backpressured e') bp)"
proof -
  from ok have wf: "map_wf m" and co: "counters_ok m tot bk bf st bp"
    and len: "length m \<le> U64_MAX" and cap: "caps_ok config tot bk" and fo: "flows_ok config (length bk) m"
    by (auto simp: core_ok_def flows_ok_def config_ok_def)
  have b: "bucket_of e' = bucket_of e"
    using e' core_ok_flow [OF ok e] by (simp add: flow_ok_def)
  have "membership_delta (is_standing e) (is_standing e') st =
      st - of_bool (is_standing e) + of_bool (is_standing e')"
    using counters_bounds(3) [OF co wf e] counters_room(1) [OF co wf e] len
    by (intro membership_delta_exact) auto
  moreover have "membership_delta (is_backpressured e) (is_backpressured e') bp =
      bp - of_bool (is_backpressured e) + of_bool (is_backpressured e')"
    using counters_bounds(4) [OF co wf e] counters_room(2) [OF co wf e] len
    by (intro membership_delta_exact) auto
  moreover have "flows_ok config (length bk) (AList.update c e' m)"
    using fo e e' by (auto simp: flows_ok_def hm.lookup_insert hm.wf_insert hm.size_insert)
  moreover have "caps_ok config (tot - pending e + pending e')
      (bk[bucket_of e := bk ! bucket_of e - pending e + pending e'])"
    using cap tot bk by (auto simp: caps_ok_def intro: nth_update_le)
  ultimately show ?thesis
    using ok counters_put [OF co wf e b] by (simp add: core_ok_def)
qed

lemma core_keep:
  assumes ok: "core_ok config m tot bk bf st bp" and e: "map_of m c = Some e"
    and e': "flow_ok config (length bk) c e'" and p: "pending e' = pending e"
  shows "core_ok config (AList.update c e' m) tot bk bf
    (membership_delta (is_standing e) (is_standing e') st)
    (membership_delta (is_backpressured e) (is_backpressured e') bp)"
proof -
  have co: "counters_ok m tot bk bf st bp" and wf: "map_wf m" and cap: "caps_ok config tot bk"
    using ok by (auto simp: core_ok_def flows_ok_def)
  note b = core_ok_bucket [OF ok e]
  have "pending e \<le> tot" "pending e \<le> bk ! bucket_of e"
    using counters_bounds [OF co wf e] b by auto
  then show ?thesis
    using core_put [OF ok e e'] p cap b by (simp add: caps_ok_def)
qed

lemma core_add:
  assumes ok: "core_ok config m tot bk bf st bp" and e: "map_of m c = Some e"
    and e': "flow_ok config (length bk) c e'" and p: "pending e' = pending e + n"
    and tot: "tot + n \<le> wc_max_total_queued_bytes config"
    and bk: "bk ! bucket_of e + n \<le> bucket_cap config"
  shows "core_ok config (AList.update c e' m) (sat_add U64_MAX tot n)
    (bk[bucket_of e := sat_add U64_MAX (bk ! bucket_of e) n]) bf
    (membership_delta (is_standing e) (is_standing e') st)
    (membership_delta (is_backpressured e) (is_backpressured e') bp)"
proof -
  have co: "counters_ok m tot bk bf st bp" and wf: "map_wf m" and "config_ok config"
    using ok by (auto simp: core_ok_def flows_ok_def)
  note b = core_ok_bucket [OF ok e]
  have le: "pending e \<le> tot" "pending e \<le> bk ! bucket_of e" "bk ! bucket_of e \<le> tot"
    using counters_bounds [OF co wf e] counters_le [OF co] b by auto
  moreover have "tot + n \<le> U64_MAX"
    using tot \<open>config_ok config\<close> by (simp add: config_ok_def)
  ultimately have "sat_add U64_MAX tot n = tot - pending e + pending e'"
    and "sat_add U64_MAX (bk ! bucket_of e) n = bk ! bucket_of e - pending e + pending e'"
    using p by (simp_all add: sat_add_def)
  then show ?thesis
    using core_put [OF ok e e'] p tot bk le by simp
qed

lemma core_sub:
  assumes ok: "core_ok config m tot bk bf st bp" and e: "map_of m c = Some e"
    and e': "flow_ok config (length bk) c e'" and p: "pending e = pending e' + n"
  shows "core_ok config (AList.update c e' m) (tot - n)
    (bk[bucket_of e := bk ! bucket_of e - n]) bf
    (membership_delta (is_standing e) (is_standing e') st)
    (membership_delta (is_backpressured e) (is_backpressured e') bp)"
    and "tot - n + n \<le> wc_max_total_queued_bytes config"
    and "bk ! bucket_of e - n + n \<le> bucket_cap config"
proof -
  have co: "counters_ok m tot bk bf st bp" and wf: "map_wf m" and cap: "caps_ok config tot bk"
    using ok by (auto simp: core_ok_def flows_ok_def)
  note b = core_ok_bucket [OF ok e]
  have le: "pending e \<le> tot" "pending e \<le> bk ! bucket_of e"
    using counters_bounds [OF co wf e] b by auto
  have caps: "tot \<le> wc_max_total_queued_bytes config" "bk ! bucket_of e \<le> bucket_cap config"
    using cap b by (auto simp: caps_ok_def)
  have "tot - n = tot - pending e + pending e'"
    and "bk ! bucket_of e - n = bk ! bucket_of e - pending e + pending e'"
    using p le by simp_all
  then show "core_ok config (AList.update c e' m) (tot - n)
      (bk[bucket_of e := bk ! bucket_of e - n]) bf
      (membership_delta (is_standing e) (is_standing e') st)
      (membership_delta (is_backpressured e) (is_backpressured e') bp)"
    using core_put [OF ok e e'] caps by simp
  show "tot - n + n \<le> wc_max_total_queued_bytes config" "bk ! bucket_of e - n + n \<le> bucket_cap config"
    using p le caps by simp_all
qed

lemma core_delete:
  assumes ok: "core_ok config m tot bk bf st bp" and e: "map_of m c = Some e"
  shows "core_ok config (AList.delete c m) (tot - pending e)
    (bk[bucket_of e := bk ! bucket_of e - pending e])
    (bf[bucket_of e := bf ! bucket_of e - 1])
    (st - of_bool (is_standing e)) (bp - of_bool (is_backpressured e))"
proof -
  have co: "counters_ok m tot bk bf st bp" and wf: "map_wf m" and cap: "caps_ok config tot bk"
    and fo: "flows_ok config (length bk) m"
    using ok by (auto simp: core_ok_def flows_ok_def)
  have "flows_ok config (length bk) (AList.delete c m)"
    using fo hm.size_remove [OF wf e]
    by (auto simp: flows_ok_def hm.lookup_remove hm.wf_remove)
  moreover have "caps_ok config (tot - pending e) (bk[bucket_of e := bk ! bucket_of e - pending e])"
    using cap core_ok_bucket [OF ok e]
    by (auto simp: caps_ok_def intro!: nth_update_le le_trans [OF diff_le_self])
  ultimately show ?thesis
    using ok counters_delete [OF co wf e] by (simp add: core_ok_def)
qed

lemma core_insert_fresh:
  assumes ok: "core_ok config m tot bk bf st bp" and e: "map_of m c = None"
    and e': "flow_ok config (length bk) c e'"
    and new: "pending e' = 0" "\<not> is_standing e'" "\<not> is_backpressured e'"
    and len: "length m < wc_max_active_flows config"
  shows "core_ok config (AList.update c e' m) tot bk
    (bf[bucket_of e' := sat_add U64_MAX (bf ! bucket_of e') 1]) st bp"
proof -
  have co: "counters_ok m tot bk bf st bp" and wf: "map_wf m" and "config_ok config"
    and fo: "flows_ok config (length bk) m" and "bk \<noteq> []"
    using ok by (auto simp: core_ok_def flows_ok_def caps_ok_def)
  have "bucket_of e' < length bk" using e' \<open>bk \<noteq> []\<close> by (simp add: flow_ok_def)
  then have "bf ! bucket_of e' \<le> length m" using counters_le [OF co] by simp
  then have "sat_add U64_MAX (bf ! bucket_of e') 1 = bf ! bucket_of e' + 1"
    using len \<open>config_ok config\<close> by (simp add: sat_add_def config_ok_def)
  moreover have "flows_ok config (length bk) (AList.update c e' m)"
    using fo e e' len
    by (auto simp: flows_ok_def hm.lookup_insert hm.wf_insert hm.size_insert)
  ultimately show ?thesis
    using ok counters_insert_fresh [OF co e new] by (simp add: core_ok_def)
qed

subsection \<open>What the helpers leave alone\<close>

lemma evaluate_pressure_keeps [simp]:
  "ws_config (evaluate_pressure now force s) = ws_config s"
  "ws_flows (evaluate_pressure now force s) = ws_flows s"
  "ws_active_ring (evaluate_pressure now force s) = ws_active_ring s"
  "ws_active_ring_members (evaluate_pressure now force s) = ws_active_ring_members s"
  "ws_total_queued_bytes (evaluate_pressure now force s) = ws_total_queued_bytes s"
  "ws_bucket_queued_bytes (evaluate_pressure now force s) = ws_bucket_queued_bytes s"
  "ws_bucket_active_flows (evaluate_pressure now force s) = ws_bucket_active_flows s"
  "ws_standing_flow_count (evaluate_pressure now force s) = ws_standing_flow_count s"
  "ws_backpressured_flow_count (evaluate_pressure now force s) = ws_backpressured_flow_count s"
  by (simp_all add: evaluate_pressure_def)

lemma note_reject_worker_keeps [simp]:
  "ws_config (note_reject now s) = ws_config s"
  "ws_flows (note_reject now s) = ws_flows s"
  "ws_active_ring (note_reject now s) = ws_active_ring s"
  "ws_active_ring_members (note_reject now s) = ws_active_ring_members s"
  "ws_total_queued_bytes (note_reject now s) = ws_total_queued_bytes s"
  "ws_bucket_queued_bytes (note_reject now s) = ws_bucket_queued_bytes s"
  "ws_bucket_active_flows (note_reject now s) = ws_bucket_active_flows s"
  "ws_standing_flow_count (note_reject now s) = ws_standing_flow_count s"
  "ws_backpressured_flow_count (note_reject now s) = ws_backpressured_flow_count s"
  by (simp_all add: note_reject_def)

lemma worker_inv_keeps [simp]:
  "worker_core (evaluate_pressure now force s) = worker_core s"
  "worker_core (note_reject now s) = worker_core s"
  "worker_inv (evaluate_pressure now force s) = worker_inv s"
  "worker_inv (note_reject now s) = worker_inv s"
  by (simp_all add: worker_inv_def worker_core_def)

lemma classify_flow_keeps [simp]:
  "fl_pending_bytes (classify_flow config ps now fl) = fl_pending_bytes fl"
  "fl_bucket_id (classify_flow config ps now fl) = fl_bucket_id fl"
  "fl_in_active_ring (classify_flow config ps now fl) = fl_in_active_ring fl"
  "fl_consecutive_stalls (classify_flow config ps now fl) = fl_consecutive_stalls fl"
  by (simp_all add: classify_flow_def case_prod_unfold Let_def)

lemma derive_idle_iff:
  "fst (snd (snd (derive_flow_classification config ps now fl))) = FS_Idle \<longleftrightarrow> fl_pending_bytes fl = 0"
  by (simp add: derive_flow_classification_def Let_def)

lemma classify_flow_deficit:
  "fl_deficit_bytes (classify_flow config ps now fl) =
     (if fl_pending_bytes fl = 0 then 0 else fl_deficit_bytes fl)"
  by (simp add: classify_flow_def case_prod_unfold Let_def derive_idle_iff)

lemma flow_membership_in_ring [simp]:
  "flow_membership (fl\<lparr>fl_in_active_ring := x\<rparr>) = flow_membership fl"
  "flow_membership (fl\<lparr>fl_pending_bytes := p\<rparr>) = flow_membership fl"
  "flow_membership (fl\<lparr>fl_queue_started_at := ts\<rparr>) = flow_membership fl"
  "flow_membership (fl\<lparr>fl_weight_quanta := w\<rparr>) = flow_membership fl"
  by (simp_all add: flow_membership_def)

lemma frames_bytes_simps [simp]:
  "frames_bytes [] = 0" "frames_bytes (fr # q) = queued_bytes fr + frames_bytes q"
  "frames_bytes (q @ q') = frames_bytes q + frames_bytes q'"
  by (simp_all add: frames_bytes_def)

lemma reclaimed_bytes:
  "a \<le> U64_MAX \<Longrightarrow>
   fold (\<lambda>fr acc. sat_add U64_MAX acc (queued_bytes fr)) q a = min (a + frames_bytes q) U64_MAX"
  by (induction q arbitrary: a) (auto simp: sat_add_def min_def)

subsection \<open>The ring\<close>

lemma ring_ok_keep:
  "ring_ok m ring members \<Longrightarrow> map_of m c = Some e \<Longrightarrow> (fe_queue e' = [] \<longleftrightarrow> fe_queue e = []) \<Longrightarrow>
   ring_ok (AList.update c e' m) ring members"
  by (auto simp: ring_ok_def hm.lookup_insert)

lemma ring_ok_push:
  "ring_ok m ring members \<Longrightarrow> c \<notin> members \<Longrightarrow> fe_queue e' \<noteq> [] \<Longrightarrow>
   ring_ok (AList.update c e' m) (ring @ [c]) (insert c members)"
  by (auto simp: ring_ok_def hm.lookup_insert)

lemma ring_ok_remove:
  "ring_ok m ring members \<Longrightarrow>
   ring_ok (AList.delete c m) (filter (\<lambda>x. x \<noteq> c) ring) (members - {c})"
  by (auto simp: ring_ok_def hm.lookup_remove)

lemma ring_ok_pop_empty:
  "ring_ok m (c # ring) members \<Longrightarrow> fe_queue e' = [] \<Longrightarrow>
   ring_ok (AList.update c e' m) ring (members - {c})"
  by (auto simp: ring_ok_def hm.lookup_insert)

lemma ring_ok_rotate:
  "ring_ok m (c # ring) members \<Longrightarrow> fe_queue e' \<noteq> [] \<Longrightarrow>
   ring_ok (AList.update c e' m) (ring @ [c]) (insert c (members - {c}))"
  by (auto simp: ring_ok_def hm.lookup_insert)

lemma ring_ok_insert_fresh:
  "ring_ok m ring members \<Longrightarrow> map_of m c = None \<Longrightarrow> fe_queue e' = [] \<Longrightarrow>
   ring_ok (AList.update c e' m) ring members"
  by (auto simp: ring_ok_def hm.lookup_insert)

subsection \<open>Every operation keeps the invariant\<close>

lemma worker_new_inv: "config_ok config \<Longrightarrow> worker_inv (worker_new config now)"
  by (simp add: worker_inv_def worker_core_def core_ok_def worker_new_def Let_def config_ok_def
      flows_ok_def counters_ok_def caps_ok_def ring_ok_def)

lemma worker_core_flow:
  "worker_core s \<Longrightarrow> map_of (ws_flows s) c = Some e \<Longrightarrow>
   flow_ok (ws_config s) (length (ws_bucket_queued_bytes s)) c e"
  unfolding worker_core_def by (rule core_ok_flow)

lemma worker_core_pending:
  "worker_core s \<Longrightarrow> map_of (ws_flows s) c = Some e \<Longrightarrow> pending e < U64_MAX"
  unfolding worker_core_def core_ok_def flows_ok_def config_ok_def caps_ok_def
  using counters_bounds(1) by fastforce

lemma remove_flow_inv:
  assumes "worker_inv s"
  shows "worker_inv (remove_flow conn s)"
proof (cases "map_of (ws_flows s) conn")
  case (Some e)
  have core: "worker_core s" using assms by (simp add: worker_inv_def)
  have "fold (\<lambda>fr acc. sat_add U64_MAX acc (queued_bytes fr)) (fe_queue e) 0 = pending e"
    using worker_core_flow [OF core Some] worker_core_pending [OF core Some]
    by (simp add: reclaimed_bytes flow_ok_def)
  then show ?thesis
    using assms Some core_delete [OF core [unfolded worker_core_def] Some]
    by (cases "is_standing e"; cases "is_backpressured e")
      (simp_all add: worker_inv_def worker_core_def remove_flow_def case_prod_unfold Let_def
        sub_queued_def ring_ok_remove)
qed (use assms in \<open>simp add: remove_flow_def\<close>)

lemma core_ok_switch [simp]:
  "core_ok (config\<lparr>wc_backpressure_enabled := x, wc_pressure := y\<rparr>) m tot bk bf st bp =
   core_ok config m tot bk bf st bp"
  by (simp add: core_ok_def config_ok_def flows_ok_def caps_ok_def bucket_cap_def flow_ok_def)

lemma set_backpressure_inv:
  "worker_inv s \<Longrightarrow> worker_inv (set_backpressure_enabled now enabled s)"
  by (simp add: set_backpressure_enabled_def worker_inv_def worker_core_def)

lemma flow_ok_new:
  "flow_ok config nb c (flow_entry_new c w (c mod nb) q)"
  by (simp add: flow_ok_def flow_entry_new_def flow_fairness_new_def)

lemma flow_ok_weight [simp]:
  "flow_ok config nb c (e\<lparr>fe_fairness := (fe_fairness e)\<lparr>fl_weight_quanta := w\<rparr>\<rparr>) = flow_ok config nb c e"
  by (simp add: flow_ok_def)

lemma get_or_insert_inv:
  assumes inv: "worker_inv s"
    and room: "map_of (ws_flows s) conn = None \<Longrightarrow> length (ws_flows s) < wc_max_active_flows (ws_config s)"
    and g: "get_or_insert_flow conn (bucket_for conn s) w s = (e, s1)"
  shows "worker_inv s1" and "map_of (ws_flows s1) conn = Some e"
    and "ws_config s1 = ws_config s" and "ws_total_queued_bytes s1 = ws_total_queued_bytes s"
    and "ws_bucket_queued_bytes s1 = ws_bucket_queued_bytes s"
    and "bucket_of e = bucket_for conn s"
proof -
  have core: "worker_core s" and ring: "ring_ok (ws_flows s) (ws_active_ring s) (ws_active_ring_members s)"
    using inv by (auto simp: worker_inv_def)
  then have "ws_bucket_queued_bytes s \<noteq> []" by (auto simp: worker_core_def core_ok_def caps_ok_def)
  then have b: "bucket_for conn s = conn mod length (ws_bucket_queued_bytes s)"
    by (simp add: bucket_for_def max_absorb1 Suc_le_eq)
  show "map_of (ws_flows s1) conn = Some e" "ws_config s1 = ws_config s"
    "ws_total_queued_bytes s1 = ws_total_queued_bytes s"
    "ws_bucket_queued_bytes s1 = ws_bucket_queued_bytes s"
    using g by (auto simp: get_or_insert_flow_def put_flow_def Let_def hm.lookup_insert
        split: option.splits)
  show "bucket_of e = bucket_for conn s"
    using g worker_core_flow [OF core]
    by (auto simp: get_or_insert_flow_def Let_def flow_entry_new_def flow_fairness_new_def b
        flow_ok_def split: option.splits)
  show "worker_inv s1"
  proof (cases "map_of (ws_flows s) conn")
    case None
    let ?e = "flow_entry_new conn (wc_worker_id (ws_config s)) (bucket_for conn s) w"
    have e: "e = ?e\<lparr>fe_fairness := (fe_fairness ?e)
               \<lparr>fl_weight_quanta := max (fl_weight_quanta (fe_fairness ?e)) w\<rparr>\<rparr>"
      using g None by (simp add: get_or_insert_flow_def Let_def)
    then have "flow_ok (ws_config s) (length (ws_bucket_queued_bytes s)) conn e"
      by (simp add: flow_ok_new b)
    then show ?thesis
      using g None e core_insert_fresh [OF core [unfolded worker_core_def] None _ _ _ _ room [OF None], of e]
        ring_ok_insert_fresh [OF ring None, of e]
      by (auto simp: worker_inv_def worker_core_def get_or_insert_flow_def put_flow_def Let_def
          flow_entry_new_def flow_fairness_new_def flow_membership_def)
  next
    case (Some e0)
    then have e: "e = e0\<lparr>fe_fairness := (fe_fairness e0)
               \<lparr>fl_weight_quanta := max (fl_weight_quanta (fe_fairness e0)) w\<rparr>\<rparr>"
      using g by (simp add: get_or_insert_flow_def Let_def)
    have "membership_delta x x n = n" for x n by (simp add: membership_delta_def)
    then show ?thesis
      using g Some e core_keep [OF core [unfolded worker_core_def] Some, of e]
        worker_core_flow [OF core Some] ring_ok_keep [OF ring Some, of e]
      by (auto simp: worker_inv_def worker_core_def get_or_insert_flow_def put_flow_def Let_def)
  qed
qed

subsection \<open>Admission\<close>

lemma classify_flow_ok:
  assumes "flow_ok config nb c \<lparr>fe_fairness = fl, fe_queue = q\<rparr>"
  shows "flow_ok config nb c \<lparr>fe_fairness = classify_flow config' ps now fl, fe_queue = q\<rparr>"
  using assms by (simp add: flow_ok_def classify_flow_deficit)

lemma push_frame_inv:
  assumes inv: "worker_inv s" and e: "map_of (ws_flows s) conn = Some e"
    and b: "b = bucket_of e" and fr: "qf_conn_id fr = conn"
    and tot: "ws_total_queued_bytes s + queued_bytes fr \<le> wc_max_total_queued_bytes (ws_config s)"
    and bk: "ws_bucket_queued_bytes s ! b + queued_bytes fr \<le> bucket_cap (ws_config s)"
    and fl: "pending e + queued_bytes fr \<le> wc_max_flow_queued_bytes (ws_config s)"
  shows "worker_inv (push_frame conn fr b now e s)"
proof -
  have core: "worker_core s" and ring: "ring_ok (ws_flows s) (ws_active_ring s) (ws_active_ring_members s)"
    using inv by (auto simp: worker_inv_def)
  note ok = worker_core_flow [OF core e]
  let ?n = "queued_bytes fr"
  let ?fl1 = "(fe_fairness e)\<lparr>fl_pending_bytes := sat_add U64_MAX (pending e) ?n,
       fl_queue_started_at := (case fl_queue_started_at (fe_fairness e) of
          None \<Rightarrow> Some now | Some ts \<Rightarrow> Some ts),
       fl_in_active_ring := True\<rparr>"
  let ?e = "\<lparr>fe_fairness = classify_flow (ws_config s) (pe_state (ws_pressure s)) now ?fl1,
             fe_queue = fe_queue e @ [fr]\<rparr>"
  have "pending e \<le> ws_total_queued_bytes s"
    using core counters_bounds(1) e by (fastforce simp: worker_core_def core_ok_def flows_ok_def)
  then have p: "sat_add U64_MAX (pending e) ?n = pending e + ?n"
    using tot core by (simp add: sat_add_def worker_core_def core_ok_def config_ok_def)
  have "flow_ok (ws_config s) (length (ws_bucket_queued_bytes s)) conn
      \<lparr>fe_fairness = ?fl1, fe_queue = fe_queue e @ [fr]\<rparr>"
    unfolding p using ok fl fr by (simp add: flow_ok_def)
  then have ok': "flow_ok (ws_config s) (length (ws_bucket_queued_bytes s)) conn ?e"
    by (rule classify_flow_ok)
  have "core_ok (ws_config s) (AList.update conn ?e (ws_flows s))
      (sat_add U64_MAX (ws_total_queued_bytes s) ?n)
      ((ws_bucket_queued_bytes s)[b := sat_add U64_MAX (ws_bucket_queued_bytes s ! b) ?n])
      (ws_bucket_active_flows s)
      (membership_delta (is_standing e) (is_standing ?e) (ws_standing_flow_count s))
      (membership_delta (is_backpressured e) (is_backpressured ?e) (ws_backpressured_flow_count s))"
    unfolding b
    by (rule core_add [OF core [unfolded worker_core_def] e ok' _ tot bk [unfolded b]]) (simp add: p)
  moreover have "flow_membership ?fl1 = flow_membership (fe_fairness e)"
    by simp
  moreover have "ring_ok (AList.update conn ?e (ws_flows s))
      (if fl_in_active_ring (fe_fairness e) then ws_active_ring s else ws_active_ring s @ [conn])
      (if fl_in_active_ring (fe_fairness e) then ws_active_ring_members s
       else insert conn (ws_active_ring_members s))"
    using ring ok ring_ok_keep [OF ring e, of ?e] ring_ok_push [OF ring, of conn ?e] e
    by (auto simp: flow_ok_def ring_ok_def)
  moreover have "conn \<in> ws_active_ring_members s \<longleftrightarrow> fl_in_active_ring (fe_fairness e)"
    using ring ok e by (auto simp: ring_ok_def flow_ok_def)
  ultimately show ?thesis
    by (cases "fl_in_active_ring (fe_fairness e)")
      (simp_all add: push_frame_def Let_def worker_inv_def worker_core_def add_queued_def put_flow_def
        enqueue_active_conn_def apply_flow_membership_delta_def)
qed

lemma bucket_for_less: "ws_bucket_queued_bytes s \<noteq> [] \<Longrightarrow> bucket_for conn s < length (ws_bucket_queued_bytes s)"
  by (simp add: bucket_for_def max_absorb1 Suc_le_eq)

lemma enqueue_data_inv:
  assumes inv: "worker_inv s"
  shows "worker_inv (fst (enqueue_data conn flags data now s))"
proof -
  let ?fr = "\<lparr>qf_conn_id = conn, qf_flags = flags, qf_data = data, qf_enqueued_at = now\<rparr>"
  let ?b = "bucket_for conn s" and ?w = "weight_for_flags (ws_config s) flags"
  obtain e s1 where g: "get_or_insert_flow conn ?b ?w s = (e, s1)" by fastforce
  show ?thesis
  proof (cases "sat_add U64_MAX (ws_total_queued_bytes s) (queued_bytes ?fr) >
        wc_max_total_queued_bytes (ws_config s) \<or>
      map_of (ws_flows s) conn = None \<and> length (ws_flows s) \<ge> wc_max_active_flows (ws_config s)")
    case True
    then show ?thesis using inv by (auto simp: enqueue_data_def Let_def)
  next
    case False
    note G = get_or_insert_inv [OF inv _ g]
    have room: "map_of (ws_flows s) conn = None \<Longrightarrow> length (ws_flows s) < wc_max_active_flows (ws_config s)"
      using False by auto
    have cap: "wc_max_total_queued_bytes (ws_config s) < U64_MAX" and ne: "ws_bucket_queued_bytes s \<noteq> []"
      and core: "worker_core s1"
      using inv G(1) room by (auto simp: worker_inv_def worker_core_def core_ok_def config_ok_def caps_ok_def)
    have tot: "ws_total_queued_bytes s + queued_bytes ?fr \<le> wc_max_total_queued_bytes (ws_config s)"
      using False cap by (auto simp: sat_add_def split: if_splits)
    have "ws_bucket_queued_bytes s ! ?b \<le> ws_total_queued_bytes s"
      using inv bucket_for_less [OF ne, of conn] counters_le(3)
      by (fastforce simp: worker_inv_def worker_core_def core_ok_def)
    moreover have "pending e \<le> ws_total_queued_bytes s"
      using core counters_bounds(1) G [OF room]
      by (fastforce simp: worker_core_def core_ok_def flows_ok_def)
    ultimately have
      "sat_add U64_MAX (ws_bucket_queued_bytes s ! ?b) (queued_bytes ?fr) =
         ws_bucket_queued_bytes s ! ?b + queued_bytes ?fr"
      "sat_add U64_MAX (pending e) (queued_bytes ?fr) = pending e + queued_bytes ?fr"
      using tot cap by (simp_all add: sat_add_def)
    then show ?thesis
      using inv G [OF room] False g tot
      by (auto simp: enqueue_data_def Let_def intro!: push_frame_inv)
  qed
qed

subsection \<open>Dispatch\<close>

lemma effective_quantum_pos: "1 \<le> effective_quantum_bytes config ps fl"
  by (simp add: effective_quantum_bytes_def Let_def)

lemma clamp_deficit_keeps [simp]:
  "fl_pending_bytes (clamp_deficit_bytes config fl) = fl_pending_bytes fl"
  "fl_bucket_id (clamp_deficit_bytes config fl) = fl_bucket_id fl"
  "fl_in_active_ring (clamp_deficit_bytes config fl) = fl_in_active_ring fl"
  "fl_pressure_class (clamp_deficit_bytes config fl) = fl_pressure_class fl"
  "fl_standing_state (clamp_deficit_bytes config fl) = fl_standing_state fl"
  "fl_scheduler_state (clamp_deficit_bytes config fl) = fl_scheduler_state fl"
  by (simp_all add: clamp_deficit_bytes_def Let_def)

lemma clamp_deficit_bounds [simp]:
  "0 \<le> fl_deficit_bytes (clamp_deficit_bytes config fl)"
  "fl_deficit_bytes (clamp_deficit_bytes config fl) \<le> int (min (wc_max_flow_queued_bytes config) I64_MAX)"
  unfolding clamp_deficit_bytes_def Let_def by simp_all

text \<open>The deficit of a flow after the grant of a visit.\<close>

definition granted_deficit :: "worker_config \<Rightarrow> pressure_state \<Rightarrow> instant \<Rightarrow> flow_fairness \<Rightarrow> int" where
  "granted_deficit config ps now fl =
     (let fl1 = classify_flow config ps now (fl\<lparr>fl_in_active_ring := False\<rparr>)
      in fl_deficit_bytes (clamp_deficit_bytes config
           (fl1\<lparr>fl_deficit_bytes := sat_add_i64 (fl_deficit_bytes fl1)
                   (int (effective_quantum_bytes config ps fl1))\<rparr>)))"

lemma visit_flow_skip:
  assumes ok: "flow_ok config nb c e" and q: "fe_queue e = fr # rest"
    and v: "granted_deficit config ps now (fe_fairness e) < as_i64 (queued_bytes fr)"
  obtains e' where "visit_flow config ps now e = Visit_Skip e'" "flow_ok config nb c e'"
    "pending e' = pending e" "fe_queue e' = fe_queue e"
    "fl_deficit_bytes (fe_fairness e') = granted_deficit config ps now (fe_fairness e)"
  using assms
  by (simp add: visit_flow_def granted_deficit_def Let_def flow_ok_def del: min_less_iff_conj)

lemma visit_flow_drain:
  assumes ok: "flow_ok config nb c e" and q: "fe_queue e = fr # rest"
    and v: "\<not> granted_deficit config ps now (fe_fairness e) < as_i64 (queued_bytes fr)"
  obtains e' cand where "visit_flow config ps now e = Visit_Drain e' cand" "flow_ok config nb c e'"
    "pending e = pending e' + queued_bytes fr" "fe_queue e' = rest"
    "dc_frame cand = fr" "qf_conn_id fr = c"
  using assms
  by (cases "rest = []") (simp_all add: visit_flow_def granted_deficit_def Let_def flow_ok_def)

text \<open>A worker whose ring has lost its head, as the loop body sees it.\<close>

definition popped :: "nat \<Rightarrow> nat list \<Rightarrow> worker \<Rightarrow> worker" where
  "popped c ring s = s\<lparr>ws_active_ring := ring,
     ws_active_ring_members := ws_active_ring_members s - {c}\<rparr>"

definition queue_of :: "worker \<Rightarrow> nat \<Rightarrow> queued_frame list" where
  "queue_of s c = (case map_of (ws_flows s) c of None \<Rightarrow> [] | Some e \<Rightarrow> fe_queue e)"

definition deficit_of :: "worker \<Rightarrow> nat \<Rightarrow> int" where
  "deficit_of s c = (case map_of (ws_flows s) c of None \<Rightarrow> 0 | Some e \<Rightarrow> fl_deficit_bytes (fe_fairness e))"

text \<open>The room to take a frame of \<open>n\<close> bytes back.\<close>

definition has_room :: "nat \<Rightarrow> nat \<Rightarrow> worker \<Rightarrow> bool" where
  "has_room c n s \<longleftrightarrow>
     (\<exists>e. map_of (ws_flows s) c = Some e \<and>
        pending e + n \<le> wc_max_flow_queued_bytes (ws_config s) \<and>
        ws_total_queued_bytes s + n \<le> wc_max_total_queued_bytes (ws_config s) \<and>
        ws_bucket_queued_bytes s ! bucket_of e + n \<le> bucket_cap (ws_config s))"

lemma ring_head:
  assumes "worker_inv s" and "ws_active_ring s = c # ring"
  obtains e fr rest where "map_of (ws_flows s) c = Some e" "fe_queue e = fr # rest"
    "c \<in> ws_active_ring_members s" "c \<notin> set ring"
proof -
  have r: "ring_ok (ws_flows s) (c # ring) (ws_active_ring_members s)"
    using assms by (simp add: worker_inv_def)
  then have "c \<in> ws_active_ring_members s" "c \<notin> set ring" by (auto simp: ring_ok_def)
  with r that show ?thesis by (auto simp: ring_ok_def neq_Nil_conv)
qed

lemma visit_conn_skip:
  assumes inv: "worker_inv s" and ring: "ws_active_ring s = c # ring"
    and e: "map_of (ws_flows s) c = Some e" and q: "fe_queue e = fr # rest"
    and v: "granted_deficit (ws_config s) (pe_state (ws_pressure s)) now (fe_fairness e)
              < as_i64 (queued_bytes fr)"
  obtains t where "visit_conn now c (popped c ring s) = (t, None)" "worker_inv t"
    "ws_active_ring t = ring @ [c]" "ws_config t = ws_config s" "ws_pressure t = ws_pressure s"
    "queue_of t = queue_of s"
    "deficit_of t = (deficit_of s)
       (c := granted_deficit (ws_config s) (pe_state (ws_pressure s)) now (fe_fairness e))"
proof -
  have core: "worker_core s" and r: "ring_ok (ws_flows s) (c # ring) (ws_active_ring_members s)"
    using inv ring by (auto simp: worker_inv_def)
  obtain e' where e': "visit_flow (ws_config s) (pe_state (ws_pressure s)) now e = Visit_Skip e'"
    "flow_ok (ws_config s) (length (ws_bucket_queued_bytes s)) c e'"
    "pending e' = pending e" "fe_queue e' = fe_queue e"
    "fl_deficit_bytes (fe_fairness e') =
       granted_deficit (ws_config s) (pe_state (ws_pressure s)) now (fe_fairness e)"
    using visit_flow_skip [OF worker_core_flow [OF core e] q v] .
  let ?t = "fst (visit_conn now c (popped c ring s))"
  have "worker_inv ?t"
    using e e' core_keep [OF core [unfolded worker_core_def] e e'(2,3)] ring_ok_rotate [OF r, of e'] q
    by (simp add: visit_conn_def popped_def Let_def worker_inv_def worker_core_def put_flow_def
        apply_flow_membership_delta_def enqueue_active_conn_def)
  moreover have "visit_conn now c (popped c ring s) = (?t, None)"
    using e e' by (simp add: visit_conn_def popped_def Let_def)
  moreover have "ws_active_ring ?t = ring @ [c]" "ws_config ?t = ws_config s"
    "ws_pressure ?t = ws_pressure s" and flows: "ws_flows ?t = AList.update c e' (ws_flows s)"
    using e e' by (simp_all add: visit_conn_def popped_def Let_def put_flow_def
        apply_flow_membership_delta_def enqueue_active_conn_def)
  moreover have "queue_of ?t = queue_of s"
    using e e'(4) by (auto simp: queue_of_def flows hm.lookup_insert)
  moreover have "deficit_of ?t = (deficit_of s)
       (c := granted_deficit (ws_config s) (pe_state (ws_pressure s)) now (fe_fairness e))"
    using e'(5) by (auto simp: deficit_of_def flows hm.lookup_insert)
  ultimately show ?thesis using that by blast
qed

lemma visit_conn_drain:
  assumes inv: "worker_inv s" and ring: "ws_active_ring s = c # ring"
    and e: "map_of (ws_flows s) c = Some e" and q: "fe_queue e = fr # rest"
    and v: "\<not> granted_deficit (ws_config s) (pe_state (ws_pressure s)) now (fe_fairness e)
              < as_i64 (queued_bytes fr)"
  obtains t cand where "visit_conn now c (popped c ring s) = (t, Some cand)" "worker_inv t"
    "ws_active_ring t = (if rest = [] then ring else ring @ [c])"
    "ws_config t = ws_config s" "dc_frame cand = fr" "qf_conn_id fr = c"
    "queue_of t = (queue_of s)(c := rest)" "has_room c (queued_bytes fr) t"
    "\<forall>d. d \<noteq> c \<longrightarrow> deficit_of t d = deficit_of s d"
proof -
  have core: "worker_core s" and r: "ring_ok (ws_flows s) (c # ring) (ws_active_ring_members s)"
    using inv ring by (auto simp: worker_inv_def)
  obtain e' cand where e': "visit_flow (ws_config s) (pe_state (ws_pressure s)) now e = Visit_Drain e' cand"
    "flow_ok (ws_config s) (length (ws_bucket_queued_bytes s)) c e'"
    "pending e = pending e' + queued_bytes fr" "fe_queue e' = rest" "dc_frame cand = fr" "qf_conn_id fr = c"
    using visit_flow_drain [OF worker_core_flow [OF core e] q v] .
  let ?t = "fst (visit_conn now c (popped c ring s))"
  note sub = core_sub [OF core [unfolded worker_core_def] e e'(2,3)]
  note defs = visit_conn_def popped_def Let_def put_flow_def apply_flow_membership_delta_def
    enqueue_active_conn_def sub_queued_def
  have "worker_inv ?t"
    using e e' sub ring_ok_rotate [OF r, of e'] ring_ok_pop_empty [OF r, of e']
    by (cases "queued_bytes fr = 0") (simp_all add: defs worker_inv_def worker_core_def)
  moreover have "visit_conn now c (popped c ring s) = (?t, Some cand)"
    using e e' by (simp add: visit_conn_def popped_def Let_def)
  moreover have "ws_active_ring ?t = (if rest = [] then ring else ring @ [c])"
    "ws_config ?t = ws_config s" and flows: "ws_flows ?t = AList.update c e' (ws_flows s)"
    using e e' by (simp_all add: defs)
  moreover have "has_room c (queued_bytes fr) ?t"
    using sub(2,3) e e' worker_core_flow [OF core e] core_ok_bucket [OF core [unfolded worker_core_def] e]
    by (cases "queued_bytes fr = 0")
      (simp_all add: has_room_def defs hm.lookup_insert flow_ok_def)
  moreover have "queue_of ?t = (queue_of s)(c := rest)"
    using e'(4) by (auto simp: queue_of_def flows hm.lookup_insert)
  moreover have "\<forall>d. d \<noteq> c \<longrightarrow> deficit_of ?t d = deficit_of s d"
    by (auto simp: deficit_of_def flows hm.lookup_insert)
  ultimately show ?thesis using that e'(5,6) by blast
qed

lemma serve_ring_step:
  assumes "worker_inv s" and "ws_active_ring s = c # ring"
  shows "serve_ring (Suc k) now s =
    (case visit_conn now c (popped c ring s) of
       (t, None) \<Rightarrow> serve_ring k now t
     | (t, Some cand) \<Rightarrow> (t, SD_Dispatch cand))"
  using ring_head [OF assms] assms(2) by (auto simp: popped_def Let_def split: prod.splits)

text \<open>What a decision does to the queues.\<close>

fun decision_effect :: "worker \<Rightarrow> worker \<Rightarrow> scheduler_decision \<Rightarrow> bool" where
  "decision_effect s t SD_Idle \<longleftrightarrow> queue_of t = queue_of s"
| "decision_effect s t (SD_Dispatch cand) \<longleftrightarrow>
     (let fr = dc_frame cand; c = qf_conn_id fr in
      queue_of s c = fr # tl (queue_of s c) \<and>
      queue_of t = (queue_of s)(c := tl (queue_of s c)) \<and>
      has_room c (queued_bytes fr) t)"

lemma serve_ring_inv:
  assumes "worker_inv s" and "serve_ring k now s = (t, d)"
  shows "worker_inv t \<and> ws_config t = ws_config s \<and> decision_effect s t d"
  using assms
proof (induction k arbitrary: s)
  case (Suc k)
  show ?case
  proof (cases "ws_active_ring s")
    case (Cons c ring)
    obtain e fr rest where e: "map_of (ws_flows s) c = Some e" "fe_queue e = fr # rest"
      using ring_head [OF Suc.prems(1) Cons] .
    show ?thesis
    proof (cases "granted_deficit (ws_config s) (pe_state (ws_pressure s)) now (fe_fairness e)
        < as_i64 (queued_bytes fr)")
      case True
      obtain u where u: "visit_conn now c (popped c ring s) = (u, None)" "worker_inv u"
        "ws_config u = ws_config s" "queue_of u = queue_of s"
        using visit_conn_skip [OF Suc.prems(1) Cons e True] .
      then have "serve_ring k now u = (t, d)"
        using Suc.prems serve_ring_step [OF Suc.prems(1) Cons] by simp
      from Suc.IH [OF u(2) this] u(3,4) show ?thesis
        by (cases d) (simp_all add: Let_def)
    next
      case False
      obtain u cand where u: "visit_conn now c (popped c ring s) = (u, Some cand)" "worker_inv u"
        "ws_config u = ws_config s" "dc_frame cand = fr" "qf_conn_id fr = c"
        "queue_of u = (queue_of s)(c := rest)" "has_room c (queued_bytes fr) u"
        using visit_conn_drain [OF Suc.prems(1) Cons e False] .
      then show ?thesis
        using Suc.prems(2) serve_ring_step [OF Suc.prems(1) Cons, of k now] e
        by (auto simp: Let_def queue_of_def)
    qed
  qed (use Suc.prems in auto)
qed simp

lemma queue_of_cong: "ws_flows s = ws_flows t \<Longrightarrow> queue_of s = queue_of t"
  by (simp add: queue_of_def fun_eq_iff)

lemma next_decision_inv:
  assumes "worker_inv s" and "next_decision now s = (t, d)"
  shows "worker_inv t" and "ws_config t = ws_config s" and "decision_effect s t d"
proof -
  let ?s = "evaluate_pressure now False
     (s\<lparr>ws_scheduler_rounds := sat_add U64_MAX (ws_scheduler_rounds s) 1\<rparr>)"
  have "worker_inv ?s" using assms(1) by (simp add: worker_inv_def worker_core_def)
  moreover have "serve_ring (length (ws_active_ring ?s)) now ?s = (t, d)"
    using assms(2) by (simp only: next_decision_def Let_def)
  ultimately have "worker_inv t \<and> ws_config t = ws_config ?s \<and> decision_effect ?s t d"
    by (rule serve_ring_inv)
  moreover have "queue_of ?s = queue_of s" by (rule queue_of_cong) simp
  ultimately show "worker_inv t" and "ws_config t = ws_config s" and "decision_effect s t d"
    by (cases d; simp)+
qed

subsection \<open>Feedback\<close>

lemma remove_flow_queue: "queue_of (remove_flow c s) = (queue_of s)(c := [])"
  by (auto simp: queue_of_def remove_flow_def sub_queued_def hm.lookup_remove case_prod_unfold Let_def
      split: option.splits)

lemma feedback_routed_inv:
  assumes "worker_inv s"
  shows "worker_inv (feedback_routed c cand now s)"
    and "queue_of (feedback_routed c cand now s) = queue_of s"
proof -
  have core: "worker_core s" and r: "ring_ok (ws_flows s) (ws_active_ring s) (ws_active_ring_members s)"
    using assms by (auto simp: worker_inv_def)
  show "worker_inv (feedback_routed c cand now s)"
  proof (cases "map_of (ws_flows s) c")
    case (Some e)
    let ?fl = "(fe_fairness e)\<lparr>fl_last_drain_at := Some now,
        fl_recent_drain_bytes := sat_add U64_MAX (fl_recent_drain_bytes (fe_fairness e))
          (queued_bytes (dc_frame cand)),
        fl_consecutive_stalls := 0,
        fl_scheduler_state := (if fl_scheduler_state (fe_fairness e) \<noteq> FS_Idle then FS_Active
                               else FS_Idle)\<rparr>"
    let ?e = "e\<lparr>fe_fairness := classify_flow (ws_config s) (pe_state (ws_pressure s)) now ?fl\<rparr>"
    have "flow_ok (ws_config s) (length (ws_bucket_queued_bytes s)) c ?e"
      using worker_core_flow [OF core Some] by (simp add: flow_ok_def classify_flow_deficit)
    then show ?thesis
      using core_keep [OF core [unfolded worker_core_def] Some, of ?e] ring_ok_keep [OF r Some, of ?e] Some
      by (simp add: feedback_routed_def worker_inv_def worker_core_def put_flow_def
          apply_flow_membership_delta_def Let_def)
  qed (use assms in \<open>simp add: feedback_routed_def\<close>)
  show "queue_of (feedback_routed c cand now s) = queue_of s"
    by (auto simp: queue_of_def feedback_routed_def put_flow_def hm.lookup_insert
        apply_flow_membership_delta_def Let_def split: option.splits)
qed

text \<open>Whether a frame refused by a full downstream queue is dropped.\<close>

definition queue_full_sheds :: "nat \<Rightarrow> worker \<Rightarrow> bool" where
  "queue_full_sheds c s =
     (case map_of (ws_flows s) c of
        None \<Rightarrow> True
      | Some e \<Rightarrow> should_shed_frame (ws_config s) (pe_state (ws_pressure s))
                   (note_flow_stall (wc_backpressure_enabled (ws_config s)) (fe_fairness e)))"

text \<open>
  The two ways a flow is put back after a full downstream queue: without the frame
  (shed) or with the frame at the front of its queue.
\<close>

lemma put_shed_inv:
  assumes inv: "worker_inv s" and e: "map_of (ws_flows s) c = Some e"
    and ok: "flow_ok (ws_config s) (length (ws_bucket_queued_bytes s)) c e'"
    and "pending e' = pending e" and "fe_queue e' = fe_queue e"
  shows "worker_inv (apply_flow_membership_delta (flow_membership (fe_fairness e))
    (flow_membership (fe_fairness e')) ((put_flow c e' s)
       \<lparr>ws_shed_drops := x, ws_fairness_penalties := y\<rparr>))"
proof -
  have core: "worker_core s" and r: "ring_ok (ws_flows s) (ws_active_ring s) (ws_active_ring_members s)"
    using inv by (auto simp: worker_inv_def)
  show ?thesis
    using core_keep [OF core [unfolded worker_core_def] e ok] ring_ok_keep [OF r e, of e'] assms(4,5)
    by (simp add: worker_inv_def worker_core_def put_flow_def apply_flow_membership_delta_def)
qed

lemma put_back_inv:
  assumes inv: "worker_inv s" and e: "map_of (ws_flows s) c = Some e"
    and ok: "flow_ok (ws_config s) (length (ws_bucket_queued_bytes s)) c e'"
    and "pending e' = pending e + n" and "fe_queue e' \<noteq> []" and room: "has_room c n s"
  shows "worker_inv (apply_flow_membership_delta (flow_membership (fe_fairness e))
    (flow_membership (fe_fairness e'))
    (if \<not> fl_in_active_ring (fe_fairness e)
     then enqueue_active_conn c (add_queued (bucket_of e) n (put_flow c e' s))
     else add_queued (bucket_of e) n (put_flow c e' s)))"
proof -
  have core: "worker_core s" and r: "ring_ok (ws_flows s) (ws_active_ring s) (ws_active_ring_members s)"
    using inv by (auto simp: worker_inv_def)
  have mem: "c \<in> ws_active_ring_members s \<longleftrightarrow> fl_in_active_ring (fe_fairness e)"
    using r worker_core_flow [OF core e] e by (auto simp: ring_ok_def flow_ok_def)
  have "core_ok (ws_config s) (AList.update c e' (ws_flows s))
      (sat_add U64_MAX (ws_total_queued_bytes s) n)
      ((ws_bucket_queued_bytes s)[bucket_of e := sat_add U64_MAX (ws_bucket_queued_bytes s ! bucket_of e) n])
      (ws_bucket_active_flows s)
      (membership_delta (is_standing e) (is_standing e') (ws_standing_flow_count s))
      (membership_delta (is_backpressured e) (is_backpressured e') (ws_backpressured_flow_count s))"
    by (rule core_add [OF core [unfolded worker_core_def] e ok assms(4)])
      (use room e in \<open>auto simp: has_room_def\<close>)
  then show ?thesis
    using ring_ok_keep [OF r e, of e'] ring_ok_push [OF r, of c e'] mem assms(5)
      worker_core_flow [OF core e]
    by (cases "fl_in_active_ring (fe_fairness e)")
      (simp_all add: worker_inv_def worker_core_def put_flow_def add_queued_def
        enqueue_active_conn_def apply_flow_membership_delta_def flow_ok_def)
qed

lemma note_flow_stall_keeps [simp]:
  "fl_pending_bytes (note_flow_stall bp fl) = fl_pending_bytes fl"
  "fl_bucket_id (note_flow_stall bp fl) = fl_bucket_id fl"
  "fl_in_active_ring (note_flow_stall bp fl) = fl_in_active_ring fl"
  "fl_deficit_bytes (note_flow_stall bp fl) = fl_deficit_bytes fl"
  by (simp_all add: note_flow_stall_def)

definition stall_noted :: "instant \<Rightarrow> worker \<Rightarrow> worker" where
  "stall_noted now s =
     (if wc_backpressure_enabled (ws_config s)
      then s\<lparr>ws_pressure := note_route_stall now (wc_pressure (ws_config s)) (ws_pressure s),
             ws_downstream_stalls := sat_add U64_MAX (ws_downstream_stalls s) 1\<rparr>
      else s)"

lemma stall_noted_keeps [simp]:
  "ws_config (stall_noted now s) = ws_config s" "ws_flows (stall_noted now s) = ws_flows s"
  "pe_state (ws_pressure (stall_noted now s)) = pe_state (ws_pressure s)"
  "ws_bucket_queued_bytes (stall_noted now s) = ws_bucket_queued_bytes s"
  "worker_inv (stall_noted now s) = worker_inv s"
  "has_room c n (stall_noted now s) = has_room c n s"
  by (simp_all add: stall_noted_def worker_inv_def worker_core_def has_room_def)

text \<open>The flow and the worker before the decision to close, with the frame kept or dropped.\<close>

definition full_entry :: "dispatch_candidate \<Rightarrow> instant \<Rightarrow> worker \<Rightarrow> flow_entry \<Rightarrow> bool \<Rightarrow> flow_entry" where
  "full_entry cand now s e shed =
     (let fl1 = note_flow_stall (wc_backpressure_enabled (ws_config s)) (fe_fairness e);
          fl2 = (if shed then fl1
                 else fl1\<lparr>fl_pending_bytes := sat_add U64_MAX (pending e) (queued_bytes (dc_frame cand)),
                          fl_queue_started_at := Some (qf_enqueued_at (dc_frame cand)),
                          fl_in_active_ring := True\<rparr>)
      in \<lparr>fe_fairness = classify_flow (ws_config s) (pe_state (ws_pressure s)) now fl2,
          fe_queue = (if shed then fe_queue e else dc_frame cand # fe_queue e)\<rparr>)"

definition full_put :: "nat \<Rightarrow> dispatch_candidate \<Rightarrow> instant \<Rightarrow> worker \<Rightarrow> flow_entry \<Rightarrow> worker" where
  "full_put c cand now s0 e =
     (let s = stall_noted now s0; shed = queue_full_sheds c s0; e' = full_entry cand now s0 e shed
      in apply_flow_membership_delta (flow_membership (fe_fairness e)) (flow_membership (fe_fairness e'))
           (if shed then (put_flow c e' s)
              \<lparr>ws_shed_drops := sat_add U64_MAX (ws_shed_drops s) 1,
               ws_fairness_penalties := sat_add U64_MAX (ws_fairness_penalties s) 1\<rparr>
            else if \<not> fl_in_active_ring (fe_fairness e)
            then enqueue_active_conn c (add_queued (bucket_of e) (queued_bytes (dc_frame cand)) (put_flow c e' s))
            else add_queued (bucket_of e) (queued_bytes (dc_frame cand)) (put_flow c e' s)))"

lemma feedback_queue_full_put:
  assumes "map_of (ws_flows s) c = Some e"
  shows "feedback_queue_full c cand now s =
    (let t = full_put c cand now s e in
     if should_close_flow (ws_config s) (pe_state (ws_pressure s))
          (fe_fairness (full_entry cand now s e (queue_full_sheds c s)))
     then (evaluate_pressure now True (remove_flow c t), DA_CloseFlow)
     else (evaluate_pressure now True t, DA_Continue))"
  unfolding feedback_queue_full_def stall_noted_def [symmetric] Let_def
  by (simp add: assms full_put_def full_entry_def queue_full_sheds_def Let_def put_flow_def)

lemma full_put_inv:
  assumes inv: "worker_inv s" and e: "map_of (ws_flows s) c = Some e"
    and fr: "qf_conn_id (dc_frame cand) = c" and room: "has_room c (queued_bytes (dc_frame cand)) s"
  shows "worker_inv (full_put c cand now s e)"
proof -
  have core: "worker_core s" using inv by (simp add: worker_inv_def)
  note ok = worker_core_flow [OF core e]
  have "ws_total_queued_bytes s + queued_bytes (dc_frame cand) < U64_MAX"
    and "pending e \<le> ws_total_queued_bytes s"
    using room core counters_bounds(1) e
    by (fastforce simp: has_room_def worker_core_def core_ok_def config_ok_def flows_ok_def)+
  then have p: "sat_add U64_MAX (pending e) (queued_bytes (dc_frame cand)) =
      pending e + queued_bytes (dc_frame cand)"
    by (simp add: sat_add_def)
  show ?thesis
  proof (cases "queue_full_sheds c s")
    case True
    have "flow_ok (ws_config s) (length (ws_bucket_queued_bytes s)) c (full_entry cand now s e True)"
      using ok by (simp add: full_entry_def flow_ok_def classify_flow_deficit)
    then show ?thesis
      using True inv e
      by (simp add: full_put_def Let_def, intro put_shed_inv) (simp_all add: full_entry_def)
  next
    case False
    have "flow_ok (ws_config s) (length (ws_bucket_queued_bytes s)) c (full_entry cand now s e False)"
      using ok room e fr unfolding full_entry_def p
      by (simp add: flow_ok_def classify_flow_deficit has_room_def)
    moreover have "pending (full_entry cand now s e False) = pending e + queued_bytes (dc_frame cand)"
      "fe_queue (full_entry cand now s e False) \<noteq> []"
      by (simp_all add: full_entry_def p)
    ultimately show ?thesis
      using put_back_inv [of "stall_noted now s" c e "full_entry cand now s e False"
          "queued_bytes (dc_frame cand)"] False inv e room
      by (simp add: full_put_def Let_def)
  qed
qed

lemma full_entry_queue:
  "fe_queue (full_entry cand now s e shed) = (if shed then fe_queue e else dc_frame cand # fe_queue e)"
  by (simp add: full_entry_def)

lemma full_put_queue:
  "queue_of (full_put c cand now s e) = (queue_of s)(c := fe_queue (full_entry cand now s e (queue_full_sheds c s)))"
  by (auto simp: queue_of_def full_put_def Let_def apply_flow_membership_delta_def put_flow_def
      add_queued_def enqueue_active_conn_def hm.lookup_insert)

lemma queue_of_evaluate [simp]: "queue_of (evaluate_pressure now force s) = queue_of s"
  by (rule queue_of_cong) simp

text \<open>Every feedback to a frame just handed out keeps the invariant; what it does to the queues.\<close>

lemma feedback_inv:
  assumes inv: "worker_inv s" and fr: "qf_conn_id (dc_frame cand) = c"
    and room: "has_room c (queued_bytes (dc_frame cand)) s"
    and f: "apply_dispatch_feedback c cand fb now s = (t, act)"
  shows "worker_inv t"
    and "queue_of t =
      (if act = DA_CloseFlow then (queue_of s)(c := [])
       else if fb = QueueFull \<and> \<not> queue_full_sheds c s
       then (queue_of s)(c := dc_frame cand # queue_of s c)
       else queue_of s)"
proof -
  obtain e where e: "map_of (ws_flows s) c = Some e" using room by (auto simp: has_room_def)
  then have q: "queue_of s c = fe_queue e" by (simp add: queue_of_def)
  have full: "worker_inv t \<and> queue_of t = (if act = DA_CloseFlow then (queue_of s)(c := [])
       else if \<not> queue_full_sheds c s then (queue_of s)(c := dc_frame cand # queue_of s c)
       else queue_of s)" if "fb = QueueFull"
    using f that full_put_inv [OF inv e fr room, of now] e q
    by (auto simp: feedback_queue_full_put Let_def full_put_queue remove_flow_queue remove_flow_inv
        full_entry_queue fun_upd_idem split: if_splits)
  show "worker_inv t"
    using f full inv by (cases fb) (auto simp: feedback_routed_inv remove_flow_inv)
  show "queue_of t = (if act = DA_CloseFlow then (queue_of s)(c := [])
       else if fb = QueueFull \<and> \<not> queue_full_sheds c s
       then (queue_of s)(c := dc_frame cand # queue_of s c)
       else queue_of s)"
    using f full inv by (cases fb) (auto simp: feedback_routed_inv remove_flow_queue)
qed

subsection \<open>Runs of a worker\<close>

text \<open>
  The events of a run: a frame admitted, delivered downstream, kept after a full
  downstream queue, or shed; a connection closed by the outcome of a dispatch, or removed
  by the reader, in both cases with its queue; a decision that found nothing to send;
  anything else.
\<close>

datatype fair_event =
    EvAdmit queued_frame
  | EvDeliver queued_frame
  | EvRequeue queued_frame
  | EvShed queued_frame
  | EvClose nat
  | EvRemove nat
  | EvIdle
  | EvSilent

definition feedback_event ::
    "dispatch_candidate \<Rightarrow> dispatch_feedback \<Rightarrow> dispatch_action \<Rightarrow> worker \<Rightarrow> fair_event" where
  "feedback_event cand fb act s =
     (let fr = dc_frame cand in
      if act = DA_CloseFlow then EvClose (qf_conn_id fr)
      else if fb = QueueFull
      then (if queue_full_sheds (qf_conn_id fr) s then EvShed fr else EvRequeue fr)
      else EvDeliver fr)"

text \<open>
  One step of a worker. The reader answers each dispatched frame before it calls the
  scheduler again (\<^verbatim>\<open>drain_fairness_scheduler\<close> in
  \<^verbatim>\<open>middle_proxy/reader.rs\<close>), so a dispatch and its feedback are one step; the
  outcome of routing is any of the four.
\<close>

inductive fair_step :: "worker \<Rightarrow> fair_event \<Rightarrow> worker \<Rightarrow> bool" where
  fs_admit: "enqueue_data conn flags data now s = (t, Admit) \<Longrightarrow>
    fair_step s (EvAdmit \<lparr>qf_conn_id = conn, qf_flags = flags, qf_data = data, qf_enqueued_at = now\<rparr>) t"
| fs_refuse: "enqueue_data conn flags data now s = (t, d) \<Longrightarrow> d \<noteq> Admit \<Longrightarrow> fair_step s EvSilent t"
| fs_idle: "next_decision now s = (t, SD_Idle) \<Longrightarrow> fair_step s EvIdle t"
| fs_dispatch: "next_decision now s = (u, SD_Dispatch cand) \<Longrightarrow>
    apply_dispatch_feedback (qf_conn_id (dc_frame cand)) cand fb now u = (t, act) \<Longrightarrow>
    fair_step s (feedback_event cand fb act u) t"
| fs_remove: "fair_step s (EvRemove conn) (remove_flow conn s)"
| fs_switch: "fair_step s EvSilent (set_backpressure_enabled now enabled s)"

inductive fair_run :: "worker \<Rightarrow> fair_event list \<Rightarrow> worker \<Rightarrow> bool" where
  fr_start: "fair_run s [] s"
| fr_step: "fair_run s evs t \<Longrightarrow> fair_step t ev u \<Longrightarrow> fair_run s (evs @ [ev]) u"

lemma enqueue_queue:
  assumes "enqueue_data conn flags data now s = (t, d)"
  shows "queue_of t = (if d = Admit
    then (queue_of s)(conn := queue_of s conn @
           [\<lparr>qf_conn_id = conn, qf_flags = flags, qf_data = data, qf_enqueued_at = now\<rparr>])
    else queue_of s)"
proof -
  have "queue_of (note_reject n u) = queue_of u" for n u by (rule queue_of_cong) simp
  moreover obtain e s1 where g: "get_or_insert_flow conn (bucket_for conn s)
      (weight_for_flags (ws_config s) flags) s = (e, s1)" by fastforce
  moreover have "queue_of s1 = queue_of s" "queue_of s conn = fe_queue e"
    using g by (cases "map_of (ws_flows s) conn";
        auto simp: get_or_insert_flow_def put_flow_def Let_def queue_of_def hm.lookup_insert
        flow_entry_new_def fun_eq_iff)+
  moreover have "queue_of (push_frame conn fr b now e s1) = (queue_of s1)(conn := fe_queue e @ [fr])" for fr b
    by (auto simp: push_frame_def Let_def queue_of_def add_queued_def put_flow_def hm.lookup_insert
        enqueue_active_conn_def apply_flow_membership_delta_def)
  ultimately show ?thesis
    using assms by (auto simp: enqueue_data_def Let_def split: if_splits)
qed

lemma fair_step_inv:
  assumes "fair_step s ev t" and "worker_inv s"
  shows "worker_inv t"
  using assms
proof (cases rule: fair_step.cases)
  case (fs_admit conn flags data now)
  then show ?thesis using enqueue_data_inv [OF assms(2), of conn flags data now] by simp
next
  case (fs_refuse conn flags data now)
  then show ?thesis using enqueue_data_inv [OF assms(2), of conn flags data now] by simp
next
  case (fs_dispatch now u cand fb act)
  then show ?thesis
    using next_decision_inv [OF assms(2) fs_dispatch(2)] feedback_inv(1)
    by (auto simp: Let_def)
qed (auto simp: next_decision_inv(1) [OF assms(2)] remove_flow_inv [OF assms(2)]
    set_backpressure_inv [OF assms(2)])

lemma fair_run_inv: "fair_run s evs t \<Longrightarrow> worker_inv s \<Longrightarrow> worker_inv t"
  by (induction rule: fair_run.induct) (auto intro: fair_step_inv)

end
