(* ===== verification/Fair_Properties.thy ===== *)
theory Fair_Properties
  imports Fair_Invariant "HOL-Library.Sublist"
begin

section \<open>Properties of the fairness scheduler\<close>

text \<open>
  Accounting and caps over every run of a worker, ordered delivery as a refinement of
  per-connection FIFO queues, and a bound on how long a connection with queued frames
  can wait.
\<close>

subsection \<open>The caps of a worker never change\<close>

definition same_caps :: "worker_config \<Rightarrow> worker_config \<Rightarrow> bool" where
  "same_caps a b \<longleftrightarrow>
     wc_max_total_queued_bytes a = wc_max_total_queued_bytes b \<and>
     wc_max_flow_queued_bytes a = wc_max_flow_queued_bytes b \<and>
     wc_max_active_flows a = wc_max_active_flows b \<and> bucket_cap a = bucket_cap b"

lemma remove_flow_config [simp]: "ws_config (remove_flow c s) = ws_config s"
  by (simp add: remove_flow_def sub_queued_def case_prod_unfold Let_def split: option.splits)

lemma put_helpers_config [simp]:
  "ws_config (put_flow c e s) = ws_config s"
  "ws_config (enqueue_active_conn c s) = ws_config s"
  "ws_config (add_queued b n s) = ws_config s"
  "ws_config (apply_flow_membership_delta x y s) = ws_config s"
  by (simp_all add: put_flow_def enqueue_active_conn_def add_queued_def apply_flow_membership_delta_def)

lemma enqueue_data_config: "ws_config (fst (enqueue_data conn flags data now s)) = ws_config s"
proof -
  have "ws_config (snd (get_or_insert_flow conn b w s)) = ws_config s" for b w
    by (cases "map_of (ws_flows s) conn") (simp_all add: get_or_insert_flow_def Let_def)
  then show ?thesis
    by (simp add: enqueue_data_def push_frame_def Let_def case_prod_unfold)
qed

lemma feedback_config: "ws_config (fst (apply_dispatch_feedback c cand fb now s)) = ws_config s"
proof (cases fb)
  case QueueFull
  then show ?thesis
    by (cases "map_of (ws_flows s) c")
      (simp_all add: feedback_queue_full_put Let_def full_put_def, simp add: feedback_queue_full_def Let_def)
qed (simp_all add: feedback_routed_def Let_def split: option.splits)

lemma fair_step_caps:
  assumes "fair_step s ev t" and "worker_inv s"
  shows "same_caps (ws_config t) (ws_config s)"
  using assms
proof (cases rule: fair_step.cases)
  case (fs_admit conn flags data now)
  then show ?thesis using enqueue_data_config [of conn flags data now s] by (simp add: same_caps_def)
next
  case (fs_refuse conn flags data now)
  then show ?thesis using enqueue_data_config [of conn flags data now s] by (simp add: same_caps_def)
next
  case (fs_idle now)
  then show ?thesis using next_decision_inv(2) [OF assms(2)] by (simp add: same_caps_def)
next
  case (fs_dispatch now u cand fb act)
  then show ?thesis
    using next_decision_inv(2) [OF assms(2) fs_dispatch(2)]
      feedback_config [of "qf_conn_id (dc_frame cand)" cand fb now u]
    by (simp add: same_caps_def)
qed (auto simp: same_caps_def set_backpressure_enabled_def bucket_cap_def)

lemma fair_run_caps:
  "fair_run s evs t \<Longrightarrow> worker_inv s \<Longrightarrow> same_caps (ws_config t) (ws_config s)"
proof (induction rule: fair_run.induct)
  case (fr_step s evs t ev u)
  then show ?case using fair_step_caps fair_run_inv by (fastforce simp: same_caps_def)
qed (simp add: same_caps_def)

subsection \<open>Accounting\<close>

definition queued_total :: "worker \<Rightarrow> nat" where
  "queued_total s = (\<Sum>(c, e)\<leftarrow>ws_flows s. frames_bytes (fe_queue e))"

definition queued_in_bucket :: "nat \<Rightarrow> worker \<Rightarrow> nat" where
  "queued_in_bucket b s =
     (\<Sum>(c, e)\<leftarrow>ws_flows s. if c mod length (ws_bucket_queued_bytes s) = b then frames_bytes (fe_queue e) else 0)"

lemma worker_inv_entry:
  "worker_inv s \<Longrightarrow> (c, e) \<in> set (ws_flows s) \<Longrightarrow>
   flow_ok (ws_config s) (length (ws_bucket_queued_bytes s)) c e"
  by (auto simp: worker_inv_def worker_core_def core_ok_def flows_ok_def map_wf_def)

lemma worker_inv_totals:
  assumes "worker_inv s"
  shows "ws_total_queued_bytes s = queued_total s"
    and "b < length (ws_bucket_queued_bytes s) \<Longrightarrow> ws_bucket_queued_bytes s ! b = queued_in_bucket b s"
proof -
  have *: "pending e = frames_bytes (fe_queue e)"
    "bucket_of e = c mod length (ws_bucket_queued_bytes s)" if "(c, e) \<in> set (ws_flows s)" for c e
    using worker_inv_entry [OF assms that] by (simp_all add: flow_ok_def)
  have "counters_ok (ws_flows s) (ws_total_queued_bytes s) (ws_bucket_queued_bytes s)
      (ws_bucket_active_flows s) (ws_standing_flow_count s) (ws_backpressured_flow_count s)"
    using assms by (simp add: worker_inv_def worker_core_def core_ok_def)
  then show "ws_total_queued_bytes s = queued_total s"
    and "b < length (ws_bucket_queued_bytes s) \<Longrightarrow> ws_bucket_queued_bytes s ! b = queued_in_bucket b s"
    unfolding counters_ok_def queued_total_def queued_in_bucket_def map_weight_def
    by (auto intro!: arg_cong [where f = sum_list] map_cong simp: *)
qed

text \<open>
  C2. Over every run of a worker from its creation, whatever is enqueued, dispatched,
  answered, closed or reconfigured and at whatever times: the byte counters equal the bytes
  actually queued, in total and per bucket, and no configured cap is ever exceeded
  (bytes of the worker, of a bucket, of a flow; number of flows), and the deficit of every
  flow stays between zero and the flow cap.
\<close>

theorem fair_accounting:
  assumes "fair_run (worker_new config now) evs s"
    and "wc_max_total_queued_bytes config < U64_MAX" and "wc_max_active_flows config \<le> U64_MAX"
  shows "ws_total_queued_bytes s = queued_total s \<and>
    queued_total s \<le> wc_max_total_queued_bytes config \<and>
    length (ws_flows s) \<le> wc_max_active_flows config \<and>
    (\<forall>b<length (ws_bucket_queued_bytes s).
       ws_bucket_queued_bytes s ! b = queued_in_bucket b s \<and> queued_in_bucket b s \<le> bucket_cap config) \<and>
    (\<forall>(c, e)\<in>set (ws_flows s).
       frames_bytes (fe_queue e) \<le> wc_max_flow_queued_bytes config \<and>
       0 \<le> fl_deficit_bytes (fe_fairness e) \<and>
       fl_deficit_bytes (fe_fairness e) \<le> int (wc_max_flow_queued_bytes config))"
proof -
  have new: "worker_inv (worker_new config now)"
    using assms(2,3) by (simp add: worker_new_inv config_ok_def)
  have inv: "worker_inv s" using fair_run_inv [OF assms(1) new] .
  have "same_caps (ws_config (worker_new config now)) config"
    by (simp add: worker_new_def Let_def same_caps_def bucket_cap_def)
  then have caps: "same_caps (ws_config s) config"
    using fair_run_caps [OF assms(1) new] by (simp add: same_caps_def)
  have "caps_ok (ws_config s) (ws_total_queued_bytes s) (ws_bucket_queued_bytes s)"
    "length (ws_flows s) \<le> wc_max_active_flows (ws_config s)"
    using inv by (auto simp: worker_inv_def worker_core_def core_ok_def flows_ok_def)
  then show ?thesis
    using worker_inv_totals [OF inv] worker_inv_entry [OF inv] caps
    by (fastforce simp: caps_ok_def same_caps_def flow_ok_def)
qed

subsection \<open>Grants\<close>

text \<open>A visit grants at least one byte of deficit, up to the bound.\<close>

lemma clamped_grant:
  "0 \<le> d \<Longrightarrow> 1 \<le> q \<Longrightarrow> m \<le> M \<Longrightarrow>
   min (d + 1) m \<le> max 0 (min m (max (- M - 1) (min M (d + q))))" for d :: int
  by linarith

lemma granted_deficit_ge:
  assumes "0 \<le> fl_deficit_bytes fl" and "fl_pending_bytes fl \<noteq> 0"
  shows "min (fl_deficit_bytes fl + 1) (int (min (wc_max_flow_queued_bytes config) I64_MAX))
    \<le> granted_deficit config ps now fl"
proof -
  let ?fl = "classify_flow config ps now (fl\<lparr>fl_in_active_ring := False\<rparr>)"
  let ?m = "int (min (wc_max_flow_queued_bytes config) I64_MAX)"
  have d: "fl_deficit_bytes ?fl = fl_deficit_bytes fl" using assms(2) by (simp add: classify_flow_deficit)
  define q where "q = int (effective_quantum_bytes config ps ?fl)"
  have q: "1 \<le> q" using effective_quantum_pos [of config ps ?fl] by (simp add: q_def)
  have eq: "granted_deficit config ps now fl =
      max 0 (min ?m (max (- int I64_MAX - 1) (min (int I64_MAX) (fl_deficit_bytes fl + q))))"
    unfolding granted_deficit_def Let_def clamp_deficit_bytes_def sat_add_i64_def q_def d by simp
  have "?m \<le> int I64_MAX" by simp
  from clamped_grant [OF assms(1) q this] show ?thesis unfolding eq .
qed

subsection \<open>A concrete run\<close>

text \<open>A frame of connection 7 is admitted, dispatched and delivered.\<close>

definition demo_frame :: queued_frame where
  "demo_frame = \<lparr>qf_conn_id = 7, qf_flags = 0, qf_data = [1], qf_enqueued_at = 5\<rparr>"

definition demo_config :: worker_config where
  "demo_config = worker_config_default\<lparr>wc_soft_bucket_count := 1\<rparr>"

definition demo0 :: worker where
  "demo0 = worker_new demo_config 0"

definition demo1 :: worker where
  "demo1 = fst (enqueue_data 7 0 [1] 5 demo0)"

definition demo_entry :: flow_entry where
  "demo_entry = \<lparr>fe_fairness = (flow_fairness_new 7 0 0 1)
     \<lparr>fl_pending_bytes := 1, fl_queue_started_at := Some 5, fl_in_active_ring := True,
      fl_scheduler_state := FS_Active\<rparr>, fe_queue = [demo_frame]\<rparr>"

lemma demo_new_worker:
  "demo0 = \<lparr>ws_config = demo_config, ws_pressure = pressure_evaluator_new 0, ws_flows = [],
     ws_active_ring = [], ws_active_ring_members = {}, ws_total_queued_bytes = 0,
     ws_bucket_queued_bytes = [0], ws_bucket_active_flows = [0],
     ws_standing_flow_count = 0, ws_backpressured_flow_count = 0,
     ws_scheduler_rounds = 0, ws_deficit_grants = 0, ws_deficit_skips = 0,
     ws_enqueue_rejects = 0, ws_shed_drops = 0, ws_fairness_penalties = 0,
     ws_downstream_stalls = 0\<rparr>"
  by (simp add: demo0_def worker_new_def demo_config_def worker_config_default_def
      pressure_config_default_def)

definition demo_pushed :: worker where
  "demo_pushed = demo0\<lparr>ws_flows := [(7, demo_entry)], ws_active_ring := [7],
     ws_active_ring_members := {7}, ws_total_queued_bytes := 1,
     ws_bucket_queued_bytes := [1], ws_bucket_active_flows := [1]\<rparr>"

lemmas demo_config_simps = demo_config_def worker_config_default_def pressure_config_default_def
  duration_from_millis_def

lemma demo_push:
  "push_frame 7 demo_frame 0 5 (flow_entry_new 7 0 0 1)
     (demo0\<lparr>ws_bucket_active_flows := [1], ws_flows := [(7, flow_entry_new 7 0 0 1)]\<rparr>) =
   evaluate_pressure 5 True demo_pushed"
proof -
  have "classify_flow demo_config Normal 5 ((flow_fairness_new 7 0 0 1)
      \<lparr>fl_pending_bytes := 1, fl_queue_started_at := Some 5, fl_in_active_ring := True\<rparr>) =
    fe_fairness demo_entry"
    by (simp add: classify_flow_def derive_flow_classification_def demo_config_simps demo_entry_def
        flow_fairness_new_def)
  moreover have "queued_bytes demo_frame = 1" by (simp add: queued_bytes_def demo_frame_def)
  ultimately show ?thesis
    by (simp add: push_frame_def Let_def demo_new_worker flow_entry_new_def sat_add_def put_flow_def
        add_queued_def enqueue_active_conn_def apply_flow_membership_delta_def membership_delta_def
        flow_membership_def demo_pushed_def pressure_evaluator_new_def flow_fairness_new_def
        demo_entry_def)
qed

lemma demo_admit: "enqueue_data 7 0 [1] 5 demo0 = (evaluate_pressure 5 True demo_pushed, Admit)"
proof -
  have "get_or_insert_flow 7 0 1 demo0 = (flow_entry_new 7 0 0 1,
      demo0\<lparr>ws_bucket_active_flows := [1], ws_flows := [(7, flow_entry_new 7 0 0 1)]\<rparr>)"
    by (simp add: get_or_insert_flow_def demo_new_worker put_flow_def flow_entry_new_def
        flow_fairness_new_def demo_config_simps sat_add_def Let_def)
  moreover have "weight_for_flags demo_config 0 = 1"
    by (simp add: weight_for_flags_def demo_config_simps)
  moreover have "bucket_for 7 demo0 = 0" by (simp add: bucket_for_def demo_new_worker)
  moreover note demo_push [unfolded demo_frame_def]
  ultimately show ?thesis
    by (simp add: enqueue_data_def Let_def queued_bytes_def sat_add_def sat_mul_def bucket_cap_def
        demo_new_worker demo_config_simps pressure_evaluator_new_def flow_entry_new_def
        flow_fairness_new_def)
qed

lemma demo1_value: "demo1 = evaluate_pressure 5 True demo_pushed"
  by (simp add: demo1_def demo_admit)

lemma demo1_fields:
  "ws_flows demo1 = [(7, demo_entry)]" "ws_active_ring demo1 = [7]" "ws_total_queued_bytes demo1 = 1"
  "ws_config demo1 = demo_config"
  by (simp_all add: demo1_value demo_pushed_def demo_new_worker)

lemma demo_run1: "fair_run demo0 [EvAdmit demo_frame] demo1"
proof -
  have "enqueue_data 7 0 [1] 5 demo0 = (demo1, Admit)"
    by (simp add: demo_admit demo1_value)
  then have "fair_step demo0 (EvAdmit demo_frame) demo1"
    unfolding demo_frame_def by (rule fs_admit)
  from fr_step [OF fr_start this] show ?thesis by simp
qed

lemma demo_granted: "\<not> granted_deficit demo_config ps 6 (fe_fairness demo_entry) < as_i64 (queued_bytes demo_frame)"
  using granted_deficit_ge [of "fe_fairness demo_entry" demo_config ps 6]
  by (simp add: demo_entry_def flow_fairness_new_def demo_config_simps as_i64_def queued_bytes_def
      demo_frame_def)

lemma demo_run: "\<exists>s. fair_run demo0 [EvAdmit demo_frame, EvDeliver demo_frame] s"
proof -
  let ?s = "evaluate_pressure 6 False
     (demo1\<lparr>ws_scheduler_rounds := sat_add U64_MAX (ws_scheduler_rounds demo1) 1\<rparr>)"
  have "worker_inv demo0"
    by (simp add: demo0_def worker_new_inv config_ok_def demo_config_simps)
  then have "worker_inv demo1" using demo_run1 fair_run_inv by blast
  then have inv: "worker_inv ?s" by (simp add: worker_inv_def worker_core_def)
  have ring: "ws_active_ring ?s = [7]" and e: "map_of (ws_flows ?s) 7 = Some demo_entry"
    by (simp_all add: demo1_fields)
  have q: "fe_queue demo_entry = [demo_frame]" by (simp add: demo_entry_def)
  have g: "\<not> granted_deficit (ws_config ?s) (pe_state (ws_pressure ?s)) 6 (fe_fairness demo_entry)
      < as_i64 (queued_bytes demo_frame)"
    using demo_granted [of "pe_state (ws_pressure ?s)"] by (simp add: demo1_fields)
  obtain u cand where "visit_conn 6 7 (popped 7 [] ?s) = (u, Some cand)" and c: "dc_frame cand = demo_frame"
    "qf_conn_id demo_frame = 7"
    using visit_conn_drain [OF inv ring e q g] .
  then have "next_decision 6 demo1 = (u, SD_Dispatch cand)"
    using serve_ring_step [OF inv ring, of 0 6] by (simp only: next_decision_def Let_def ring) simp
  from fs_dispatch [OF this, of Routed "feedback_routed 7 cand 6 u" DA_Continue]
  have "fair_step demo1 (EvDeliver demo_frame) (feedback_routed 7 cand 6 u)"
    using c by (simp add: feedback_event_def Let_def)
  from fr_step [OF demo_run1 this] show ?thesis by auto
qed

theorem fair_accounting_witness:
  "ws_total_queued_bytes demo1 = queued_total demo1 \<and> queued_total demo1 = 1"
proof -
  have "ws_total_queued_bytes demo1 = queued_total demo1"
    using fair_accounting [OF demo_run1 [unfolded demo0_def]]
    by (simp add: demo_config_simps)
  then show ?thesis by (simp add: demo1_fields)
qed

subsection \<open>The ring\<close>

lemma debug_check_ring_ok:
  assumes "worker_inv s" and "distinct cs" and "set cs \<subseteq> ws_active_ring_members s" and "set cs \<inter> seen = {}"
  shows "debug_check_ring s cs seen"
  using assms(2-)
proof (induction cs arbitrary: seen)
  case (Cons c cs)
  have r: "ring_ok (ws_flows s) (ws_active_ring s) (ws_active_ring_members s)" and core: "worker_core s"
    using assms(1) by (auto simp: worker_inv_def)
  obtain e where e: "map_of (ws_flows s) c = Some e" "fe_queue e \<noteq> []"
    using r Cons.prems by (auto simp: ring_ok_def)
  then have "fl_in_active_ring (fe_fairness e)"
    using worker_core_flow [OF core] by (simp add: flow_ok_def)
  then show ?case using Cons e by auto
qed simp

lemma worker_inv_ring:
  assumes inv: "worker_inv s"
  shows "debug_check_active_ring_consistency s"
    and "set (ws_active_ring s) = {c. queue_of s c \<noteq> []}" and "distinct (ws_active_ring s)"
proof -
  have r: "ring_ok (ws_flows s) (ws_active_ring s) (ws_active_ring_members s)"
    and wf: "map_wf (ws_flows s)"
    using inv by (auto simp: worker_inv_def worker_core_def core_ok_def flows_ok_def)
  show d: "distinct (ws_active_ring s)" using r by (simp add: ring_ok_def)
  have m: "set (ws_active_ring s) = ws_active_ring_members s" using r by (simp add: ring_ok_def)
  show "set (ws_active_ring s) = {c. queue_of s c \<noteq> []}"
    using r by (auto simp: ring_ok_def queue_of_def split: option.splits)
  have "length (ws_active_ring s) = card (ws_active_ring_members s)"
    using d m distinct_card by fastforce
  moreover have "debug_check_ring s (ws_active_ring s) {}"
    using inv d m by (intro debug_check_ring_ok) auto
  moreover have "fl_in_active_ring (fe_fairness e) = (c \<in> ws_active_ring_members s) \<and>
      (c \<in> ws_active_ring_members s \<longrightarrow> fe_queue e \<noteq> [])" if "(c, e) \<in> set (ws_flows s)" for c e
  proof -
    have "map_of (ws_flows s) c = Some e" using that wf by (simp add: map_wf_def)
    then show ?thesis using worker_inv_entry [OF inv that] r by (auto simp: flow_ok_def ring_ok_def)
  qed
  ultimately show "debug_check_active_ring_consistency s"
    by (auto simp: debug_check_active_ring_consistency_def list_all_iff Let_def)
qed

text \<open>
  C24. In every run the active ring holds exactly the connections with queued frames, each
  once, and the consistency check of the test build succeeds.
\<close>

theorem fair_ring_consistent:
  assumes "fair_run (worker_new config now) evs s"
    and "wc_max_total_queued_bytes config < U64_MAX" and "wc_max_active_flows config \<le> U64_MAX"
  shows "debug_check_active_ring_consistency s \<and> distinct (ws_active_ring s) \<and>
    set (ws_active_ring s) = {c. queue_of s c \<noteq> []}"
proof -
  have "worker_inv s"
    using fair_run_inv [OF assms(1)] assms(2,3) by (simp add: worker_new_inv config_ok_def)
  then show ?thesis using worker_inv_ring by blast
qed

theorem fair_ring_consistent_witness: "ws_active_ring demo1 = [7] \<and> {c. queue_of demo1 c \<noteq> []} = {7}"
proof -
  show ?thesis
    using fair_ring_consistent [OF demo_run1 [unfolded demo0_def]]
    by (simp add: demo_config_simps demo1_fields)
qed

subsection \<open>Ordered delivery\<close>

text \<open>
  The specification of what the scheduler promises of the frames: one FIFO queue per
  connection. A frame leaves its queue only from the front, by delivery or by being shed;
  a requeued frame keeps its place; closing a connection discards its queue.
\<close>

inductive fifo_step :: "(nat \<Rightarrow> queued_frame list) \<Rightarrow> fair_event \<Rightarrow> (nat \<Rightarrow> queued_frame list) \<Rightarrow> bool"
where
  fifo_admit: "c = qf_conn_id fr \<Longrightarrow> fifo_step q (EvAdmit fr) (q(c := q c @ [fr]))"
| fifo_deliver: "c = qf_conn_id fr \<Longrightarrow> q c = fr # rest \<Longrightarrow> fifo_step q (EvDeliver fr) (q(c := rest))"
| fifo_shed: "c = qf_conn_id fr \<Longrightarrow> q c = fr # rest \<Longrightarrow> fifo_step q (EvShed fr) (q(c := rest))"
| fifo_requeue: "c = qf_conn_id fr \<Longrightarrow> q c = fr # rest \<Longrightarrow> fifo_step q (EvRequeue fr) q"
| fifo_close: "fifo_step q (EvClose c) (q(c := []))"
| fifo_remove: "fifo_step q (EvRemove c) (q(c := []))"
| fifo_idle: "fifo_step q EvIdle q"
| fifo_silent: "fifo_step q EvSilent q"

inductive_cases fifo_stepE: "fifo_step q ev q'"

lemma fair_step_fifo:
  assumes "fair_step s ev t" and inv: "worker_inv s"
  shows "fifo_step (queue_of s) ev (queue_of t)"
  using assms(1)
proof (cases rule: fair_step.cases)
  case (fs_admit conn flags data now)
  then show ?thesis using enqueue_queue [OF fs_admit(2)]
      fifo_admit [of conn "\<lparr>qf_conn_id = conn, qf_flags = flags, qf_data = data, qf_enqueued_at = now\<rparr>"
        "queue_of s"] by simp
next
  case (fs_refuse conn flags data now d)
  then show ?thesis using enqueue_queue [OF fs_refuse(2)] by (simp add: fifo_silent)
next
  case (fs_idle now)
  then show ?thesis using next_decision_inv(3) [OF inv fs_idle(2)] by (simp add: fifo_idle)
next
  case (fs_dispatch now u cand fb act)
  let ?fr = "dc_frame cand"
  let ?c = "qf_conn_id ?fr"
  note N = next_decision_inv [OF inv fs_dispatch(2)]
  then obtain rest where head: "queue_of s ?c = ?fr # rest" and u: "queue_of u = (queue_of s)(?c := rest)"
    and room: "has_room ?c (queued_bytes ?fr) u" by (auto simp: Let_def)
  have t: "queue_of t =
      (if act = DA_CloseFlow then (queue_of u)(?c := [])
       else if fb = QueueFull \<and> \<not> queue_full_sheds ?c u then (queue_of u)(?c := ?fr # queue_of u ?c)
       else queue_of u)"
    using feedback_inv(2) [OF N(1) refl room fs_dispatch(3)] .
  consider "act = DA_CloseFlow" | "act \<noteq> DA_CloseFlow" "fb = QueueFull" "queue_full_sheds ?c u"
    | "act \<noteq> DA_CloseFlow" "fb = QueueFull" "\<not> queue_full_sheds ?c u"
    | "act \<noteq> DA_CloseFlow" "fb \<noteq> QueueFull" by blast
  then show ?thesis
  proof cases
    case 1
    then show ?thesis using t u fs_dispatch(1) fifo_close [of "queue_of s" ?c]
      by (simp add: feedback_event_def Let_def)
  next
    case 2
    then show ?thesis using t u fs_dispatch(1) fifo_shed [of ?c ?fr "queue_of s" rest] head
      by (simp add: feedback_event_def Let_def)
  next
    case 3
    then show ?thesis using t u head fs_dispatch(1) fifo_requeue [of ?c ?fr "queue_of s" rest] head
      by (simp add: feedback_event_def Let_def fun_upd_idem)
  next
    case 4
    then show ?thesis using t u fs_dispatch(1) fifo_deliver [of ?c ?fr "queue_of s" rest] head
      by (simp add: feedback_event_def Let_def)
  qed
next
  case (fs_remove conn)
  then show ?thesis by (simp add: remove_flow_queue fifo_remove)
next
  case (fs_switch now enabled)
  have "queue_of (set_backpressure_enabled now enabled s) = queue_of s"
    by (rule queue_of_cong) (simp add: set_backpressure_enabled_def)
  then show ?thesis using fs_switch by (simp add: fifo_silent)
qed

text \<open>
  C14. The scheduler implements one FIFO queue per connection: each step of a worker,
  seen through the frames it holds for each connection, is a step of that specification
  with the same event.
\<close>

theorem fair_refines_fifo:
  assumes "fair_run (worker_new config now) evs s"
    and "wc_max_total_queued_bytes config < U64_MAX" and "wc_max_active_flows config \<le> U64_MAX"
    and "fair_step s ev t"
  shows "fifo_step (queue_of s) ev (queue_of t)"
proof -
  have "worker_inv s"
    using fair_run_inv [OF assms(1)] assms(2,3) by (simp add: worker_new_inv config_ok_def)
  then show ?thesis using fair_step_fifo assms(4) by blast
qed

theorem fair_refines_fifo_witness:
  "fifo_step (queue_of demo1) (EvRemove 7) (queue_of (remove_flow 7 demo1)) \<and>
   queue_of demo1 7 = [demo_frame] \<and> queue_of (remove_flow 7 demo1) 7 = []"
proof -
  have "fifo_step (queue_of demo1) (EvRemove 7) (queue_of (remove_flow 7 demo1))"
    by (rule fair_refines_fifo [OF demo_run1 [unfolded demo0_def]])
      (simp_all add: demo_config_simps fs_remove)
  then show ?thesis by (simp add: remove_flow_queue queue_of_def demo1_fields demo_entry_def)
qed

fun admitted :: "nat \<Rightarrow> fair_event list \<Rightarrow> queued_frame list" where
  "admitted c [] = []"
| "admitted c (EvAdmit fr # evs) = (if qf_conn_id fr = c then fr # admitted c evs else admitted c evs)"
| "admitted c (_ # evs) = admitted c evs"

fun delivered :: "nat \<Rightarrow> fair_event list \<Rightarrow> queued_frame list" where
  "delivered c [] = []"
| "delivered c (EvDeliver fr # evs) = (if qf_conn_id fr = c then fr # delivered c evs else delivered c evs)"
| "delivered c (_ # evs) = delivered c evs"

fun loses_frames :: "nat \<Rightarrow> fair_event \<Rightarrow> bool" where
  "loses_frames c (EvShed fr) \<longleftrightarrow> qf_conn_id fr = c"
| "loses_frames c (EvClose d) \<longleftrightarrow> d = c"
| "loses_frames c (EvRemove d) \<longleftrightarrow> d = c"
| "loses_frames c _ \<longleftrightarrow> False"

lemma admitted_append [simp]: "admitted c (evs @ evs') = admitted c evs @ admitted c evs'"
  by (induction c evs rule: admitted.induct) simp_all

lemma delivered_append [simp]: "delivered c (evs @ evs') = delivered c evs @ delivered c evs'"
  by (induction c evs rule: delivered.induct) simp_all

lemma subseq_drop_middle: "subseq (a @ x # b) c \<Longrightarrow> subseq (a @ b) c"
  by (rule subseq_order.trans [OF list_emb_append_mono [OF subseq_order.refl list_emb_Cons [OF subseq_order.refl]]])

lemma subseq_drop_end: "subseq (a @ b) c \<Longrightarrow> subseq a c"
  using subseq_order.trans [OF list_emb_append_mono [OF subseq_order.refl list_emb_Nil, of a b]] by simp

lemma subseq_snoc: "subseq (a @ b) c \<Longrightarrow> subseq (a @ b @ [x]) (c @ [x])"
  using list_emb_append_mono [OF _ subseq_order.refl, of "a @ b" c "[x]"] by simp

lemma fifo_trace_step:
  assumes "fifo_step q ev q'" and "subseq (delivered c evs @ q c) (admitted c evs)"
  shows "subseq (delivered c (evs @ [ev]) @ q' c) (admitted c (evs @ [ev]))"
  using assms
  by (cases rule: fifo_step.cases)
    (auto intro: subseq_drop_middle subseq_drop_end subseq_snoc)

lemma fifo_trace_step_exact:
  assumes "fifo_step q ev q'" and "\<not> loses_frames c ev" and "delivered c evs @ q c = admitted c evs"
  shows "delivered c (evs @ [ev]) @ q' c = admitted c (evs @ [ev])"
  using assms by (cases rule: fifo_step.cases) auto

lemma fair_run_trace:
  assumes "fair_run s evs t" and "worker_inv s" and "queue_of s c = []"
  shows "subseq (delivered c evs @ queue_of t c) (admitted c evs) \<and>
    ((\<forall>ev\<in>set evs. \<not> loses_frames c ev) \<longrightarrow> delivered c evs @ queue_of t c = admitted c evs)"
  using assms
proof (induction rule: fair_run.induct)
  case (fr_step s evs t ev u)
  have "fifo_step (queue_of t) ev (queue_of u)"
    using fair_step_fifo [OF fr_step.hyps(2)] fair_run_inv [OF fr_step.hyps(1)] fr_step.prems by blast
  then show ?case
    using fifo_trace_step [of "queue_of t" ev "queue_of u" c evs]
      fifo_trace_step_exact [of "queue_of t" ev "queue_of u" c evs] fr_step.IH fr_step.prems
    by (simp del: delivered_append admitted_append)
qed simp

lemma worker_new_queue: "queue_of (worker_new config now) c = []"
  by (simp add: queue_of_def worker_new_def Let_def)

text \<open>
  C7. Ordered delivery: in every run, the frames delivered to a connection followed by the
  frames still queued for it are the frames admitted for it, in order, with none
  duplicated; none is missing either unless a frame of that connection was shed or the
  connection was closed.
\<close>

theorem fair_delivery_ordered:
  assumes "fair_run (worker_new config now) evs s"
    and "wc_max_total_queued_bytes config < U64_MAX" and "wc_max_active_flows config \<le> U64_MAX"
  shows "subseq (delivered c evs @ queue_of s c) (admitted c evs) \<and>
    ((\<forall>ev\<in>set evs. \<not> loses_frames c ev) \<longrightarrow> delivered c evs @ queue_of s c = admitted c evs)"
  using fair_run_trace [OF assms(1) _ worker_new_queue] assms(2,3)
  by (simp add: worker_new_inv config_ok_def)

theorem fair_delivery_ordered_witness:
  "\<exists>s. delivered 7 [EvAdmit demo_frame, EvDeliver demo_frame] @ queue_of s 7 = [demo_frame] \<and>
       fair_run demo0 [EvAdmit demo_frame, EvDeliver demo_frame] s"
proof -
  obtain s where s: "fair_run demo0 [EvAdmit demo_frame, EvDeliver demo_frame] s" using demo_run ..
  have "delivered 7 [EvAdmit demo_frame, EvDeliver demo_frame] @ queue_of s 7 =
      admitted 7 [EvAdmit demo_frame, EvDeliver demo_frame]"
    using fair_delivery_ordered [OF s [unfolded demo0_def], of 7] by (simp add: demo_config_simps)
  then show ?thesis using s by (auto simp: demo_frame_def)
qed

subsection \<open>No starvation\<close>

text \<open>
  How long a connection waits: the bytes of deficit its front frame still lacks, and its
  place in the ring. Every visit of the ring lowers one of the two.
\<close>

definition need :: "worker \<Rightarrow> nat \<Rightarrow> nat" where
  "need s c = (case queue_of s c of [] \<Rightarrow> 0 | fr # _ \<Rightarrow> nat (as_i64 (queued_bytes fr) - deficit_of s c))"

definition place :: "worker \<Rightarrow> nat \<Rightarrow> nat" where
  "place s c = length (takeWhile (\<lambda>x. x \<noteq> c) (ws_active_ring s))"

definition wait :: "nat \<Rightarrow> worker \<Rightarrow> nat \<Rightarrow> nat" where
  "wait k s c = need s c * k + place s c"

lemma as_i64_le: "as_i64 n \<le> int n" and as_i64_le_max: "as_i64 n \<le> int I64_MAX"
proof -
  define m where "m = n mod (U64_MAX + 1)"
  have eq: "as_i64 n = (if m \<le> I64_MAX then int m else int m - int (U64_MAX + 1))"
    unfolding as_i64_def m_def Let_def ..
  have "int m \<le> int n" unfolding m_def by (simp only: of_nat_le_iff mod_less_eq_dividend)
  then show "as_i64 n \<le> int n" unfolding eq by (cases "m \<le> I64_MAX") simp_all
  have "m \<le> U64_MAX" unfolding m_def by (rule less_Suc_eq_le [THEN iffD1]) simp
  then show "as_i64 n \<le> int I64_MAX" unfolding eq by (cases "m \<le> I64_MAX") simp_all
qed

lemma need_skip:
  assumes ok: "flow_ok config nb c e" and q: "fe_queue e = fr # rest"
    and v: "granted_deficit config ps now (fe_fairness e) < as_i64 (queued_bytes fr)"
  shows "fl_deficit_bytes (fe_fairness e) < granted_deficit config ps now (fe_fairness e)"
proof -
  let ?m = "int (min (wc_max_flow_queued_bytes config) I64_MAX)"
  have fr: "queued_bytes fr \<le> pending e" "pending e \<le> wc_max_flow_queued_bytes config"
    and d: "0 \<le> fl_deficit_bytes (fe_fairness e)"
    using ok q by (auto simp: flow_ok_def)
  have "pending e \<noteq> 0"
  proof
    assume "pending e = 0"
    then have "as_i64 (queued_bytes fr) = 0" using fr(1) by (simp add: as_i64_def)
    moreover have "0 \<le> granted_deficit config ps now (fe_fairness e)" by (simp add: granted_deficit_def Let_def)
    ultimately show False using v by simp
  qed
  note ge = granted_deficit_ge [OF d this, of config ps now]
  have "as_i64 (queued_bytes fr) \<le> ?m"
    using as_i64_le [of "queued_bytes fr"] as_i64_le_max [of "queued_bytes fr"] fr by simp
  then show ?thesis using ge v by linarith
qed

lemma place_push: "c \<in> set r \<Longrightarrow> length (takeWhile (\<lambda>x. x \<noteq> c) (r @ xs)) = length (takeWhile (\<lambda>x. x \<noteq> c) r)"
  by simp

lemma place_less: "c \<in> set r \<Longrightarrow> length (takeWhile (\<lambda>x. x \<noteq> c) r) < length r"
  by (induction r) auto

lemma place_filter: "P c \<Longrightarrow> length (takeWhile (\<lambda>x. x \<noteq> c) (filter P r)) \<le> length (takeWhile (\<lambda>x. x \<noteq> c) r)"
  by (induction r) auto

lemma need_eq: "queue_of t c = queue_of s c \<Longrightarrow> deficit_of t c = deficit_of s c \<Longrightarrow> need t c = need s c"
  by (simp add: need_def split: list.split)

lemma ring_length:
  assumes "worker_inv s"
  shows "length (ws_active_ring s) \<le> wc_max_active_flows (ws_config s)"
proof -
  have "set (ws_active_ring s) \<subseteq> fst ` set (ws_flows s)"
    using worker_inv_ring(2) [OF assms]
    by (auto simp: queue_of_def split: option.splits dest!: map_of_SomeD intro!: image_eqI)
  then have "card (set (ws_active_ring s)) \<le> card (fst ` set (ws_flows s))"
    by (intro card_mono) simp_all
  also have "\<dots> \<le> length (ws_flows s)"
    using card_image_le [of "set (ws_flows s)" fst] card_length [of "ws_flows s"] by simp
  also have "\<dots> \<le> wc_max_active_flows (ws_config s)"
    using assms by (simp add: worker_inv_def worker_core_def core_ok_def flows_ok_def)
  finally show ?thesis using distinct_card worker_inv_ring(3) [OF assms] by metis
qed

lemma wait_less:
  assumes "need t c < need s c" and "place t c < k"
  shows "wait k t c < wait k s c"
proof -
  have "need t c * k + k \<le> need s c * k"
    using mult_le_mono1 [OF Suc_leI [OF assms(1)], of k] by simp
  then show ?thesis using assms(2) by (simp add: wait_def)
qed

lemma serve_ring_wait:
  assumes "worker_inv s" and "c \<in> set (ws_active_ring s)" and "serve_ring k now s = (t, d)"
    and "\<forall>cand. d = SD_Dispatch cand \<longrightarrow> qf_conn_id (dc_frame cand) \<noteq> c"
  shows "wait (wc_max_active_flows (ws_config s)) t c + min k 1 \<le>
    wait (wc_max_active_flows (ws_config s)) s c"
  using assms(1-3)
proof (induction k arbitrary: s)
  case (Suc k)
  let ?K = "wc_max_active_flows (ws_config s)"
  obtain h r where ring: "ws_active_ring s = h # r" using Suc.prems(2) by (cases "ws_active_ring s") auto
  obtain e fr rest where e: "map_of (ws_flows s) h = Some e" "fe_queue e = fr # rest" and hr: "h \<notin> set r"
    using ring_head [OF Suc.prems(1) ring] .
  have ok: "flow_ok (ws_config s) (length (ws_bucket_queued_bytes s)) h e"
    using worker_core_flow Suc.prems(1) e by (simp add: worker_inv_def)
  show ?case
  proof (cases "granted_deficit (ws_config s) (pe_state (ws_pressure s)) now (fe_fairness e)
      < as_i64 (queued_bytes fr)")
    case True
    obtain u where u: "visit_conn now h (popped h r s) = (u, None)" "worker_inv u"
      "ws_active_ring u = r @ [h]" "ws_config u = ws_config s" "queue_of u = queue_of s"
      "deficit_of u = (deficit_of s)
         (h := granted_deficit (ws_config s) (pe_state (ws_pressure s)) now (fe_fairness e))"
      using visit_conn_skip [OF Suc.prems(1) ring e True] .
    have c: "c \<in> set (ws_active_ring u)" using Suc.prems(2) ring u(3) by auto
    have "wait ?K u c < wait ?K s c"
    proof (cases "c = h")
      case True
      have "need u c < need s c"
        using need_skip [OF ok e(2) \<open>granted_deficit _ _ _ _ < _\<close>] \<open>granted_deficit _ _ _ _ < _\<close> e u(5,6) True
        by (simp add: need_def queue_of_def deficit_of_def)
      moreover have "place u c < ?K"
        using place_less [OF c] ring_length [OF u(2)] u(4) by (simp add: place_def)
      ultimately show ?thesis by (rule wait_less)
    next
      case False
      then have "need u c = need s c" using u(5,6) by (intro need_eq) simp_all
      moreover have "place u c < place s c"
        using False Suc.prems(2) ring u(3) by (simp add: place_def)
      ultimately show ?thesis by (simp add: wait_def)
    qed
    moreover have "serve_ring k now u = (t, d)"
      using Suc.prems(3) serve_ring_step [OF Suc.prems(1) ring] u(1) by simp
    ultimately show ?thesis using Suc.IH [OF u(2) c] u(4) by simp
  next
    case False
    obtain u cand where u: "visit_conn now h (popped h r s) = (u, Some cand)" "worker_inv u"
      "ws_active_ring u = (if rest = [] then r else r @ [h])" "ws_config u = ws_config s"
      "dc_frame cand = fr" "qf_conn_id fr = h" "queue_of u = (queue_of s)(h := rest)"
      "has_room h (queued_bytes fr) u" "\<forall>d. d \<noteq> h \<longrightarrow> deficit_of u d = deficit_of s d"
      using visit_conn_drain [OF Suc.prems(1) ring e False] .
    then have tu: "t = u" "d = SD_Dispatch cand"
      using Suc.prems(3) serve_ring_step [OF Suc.prems(1) ring] by simp_all
    then have "c \<noteq> h" using assms(4) u(5,6) by auto
    then have "need u c = need s c" using u(7,9) by (intro need_eq) simp_all
    moreover have "place u c < place s c"
      using \<open>c \<noteq> h\<close> Suc.prems(2) ring u(3) by (simp add: place_def)
    ultimately show ?thesis using tu by (simp add: wait_def)
  qed
qed simp

text \<open>An operation on another connection does not touch the flow of \<open>c\<close>.\<close>

lemma need_cong:
  "map_of (ws_flows t) c = map_of (ws_flows s) c \<Longrightarrow> need t c = need s c"
  by (rule need_eq) (simp_all add: queue_of_def deficit_of_def)

lemma remove_flow_wait:
  assumes "d \<noteq> c"
  shows "need (remove_flow d s) c = need s c" and "place (remove_flow d s) c \<le> place s c"
proof -
  show "need (remove_flow d s) c = need s c"
    using assms by (intro need_cong)
      (simp add: remove_flow_def sub_queued_def case_prod_unfold Let_def hm.lookup_remove split: option.split)
  show "place (remove_flow d s) c \<le> place s c"
    using assms place_filter [of "\<lambda>x. x \<noteq> d" c "ws_active_ring s"]
    by (simp add: place_def remove_flow_def sub_queued_def case_prod_unfold Let_def split: option.split)
qed

lemma feedback_routed_wait:
  assumes "d \<noteq> c"
  shows "need (feedback_routed d cand now s) c = need s c"
    and "place (feedback_routed d cand now s) c = place s c"
  using assms
  by (auto intro!: need_cong simp: feedback_routed_def put_flow_def apply_flow_membership_delta_def Let_def
      hm.lookup_insert place_def split: option.split)

lemma full_put_wait:
  assumes "d \<noteq> c" and "c \<in> set (ws_active_ring s)"
  shows "need (full_put d cand now s e) c = need s c"
    and "place (full_put d cand now s e) c = place s c"
  using assms
  by (auto intro!: need_cong simp: full_put_def put_flow_def apply_flow_membership_delta_def Let_def
      add_queued_def enqueue_active_conn_def stall_noted_def hm.lookup_insert place_def)

lemma evaluate_wait [simp]:
  "need (evaluate_pressure now force s) c = need s c"
  "place (evaluate_pressure now force s) c = place s c"
  "need (stall_noted now s) c = need s c" "place (stall_noted now s) c = place s c"
  by (auto intro!: need_cong simp: place_def stall_noted_def)

lemma feedback_wait:
  assumes "d \<noteq> c" and "c \<in> set (ws_active_ring s)"
    and f: "apply_dispatch_feedback d cand fb now s = (t, act)"
  shows "need t c = need s c \<and> place t c \<le> place s c"
proof (cases fb)
  case QueueFull
  show ?thesis
  proof (cases "map_of (ws_flows s) d")
    case None
    then have "t = evaluate_pressure now True (stall_noted now s)"
      using f QueueFull by (simp add: feedback_queue_full_def Let_def stall_noted_def split: if_splits)
    then show ?thesis by simp
  next
    case (Some e)
    then show ?thesis
      using f QueueFull remove_flow_wait [OF assms(1), of "full_put d cand now s e"]
        full_put_wait [OF assms(1,2), of cand now e]
      by (auto simp: feedback_queue_full_put Let_def split: if_splits)
  qed
qed (use f remove_flow_wait [OF assms(1), of s] feedback_routed_wait [OF assms(1)] in auto)

lemma get_or_insert_wait:
  assumes "get_or_insert_flow d b w s = (e, s1)"
  shows "need s1 c = need s c" and "place s1 c = place s c" and "ws_active_ring s1 = ws_active_ring s"
    and "map_of (ws_flows s1) d = Some e"
proof -
  show "need s1 c = need s c"
    using assms by (intro need_eq)
      (cases "map_of (ws_flows s) d"; auto simp: get_or_insert_flow_def put_flow_def Let_def queue_of_def
        deficit_of_def hm.lookup_insert flow_entry_new_def flow_fairness_new_def)+
  show "place s1 c = place s c" "ws_active_ring s1 = ws_active_ring s" "map_of (ws_flows s1) d = Some e"
    using assms by (cases "map_of (ws_flows s) d"; auto simp: get_or_insert_flow_def put_flow_def Let_def
        place_def hm.lookup_insert)+
qed

lemma push_frame_wait:
  assumes c: "c \<in> set (ws_active_ring s)" and e: "map_of (ws_flows s) d = Some e"
    and q: "queue_of s c \<noteq> []" and ok: "pending e = frames_bytes (fe_queue e)"
  shows "need (push_frame d fr b now e s) c \<le> need s c" and "place (push_frame d fr b now e s) c = place s c"
proof -
  show "place (push_frame d fr b now e s) c = place s c"
    using c by (auto simp: push_frame_def Let_def place_def put_flow_def add_queued_def
        enqueue_active_conn_def apply_flow_membership_delta_def)
  let ?fl = "(fe_fairness e)\<lparr>fl_pending_bytes := sat_add U64_MAX (pending e) (queued_bytes fr),
       fl_queue_started_at := (case fl_queue_started_at (fe_fairness e) of
          None \<Rightarrow> Some now | Some ts \<Rightarrow> Some ts), fl_in_active_ring := True\<rparr>"
  let ?e = "\<lparr>fe_fairness = classify_flow (ws_config s) (pe_state (ws_pressure s)) now ?fl,
             fe_queue = fe_queue e @ [fr]\<rparr>"
  have flows: "ws_flows (push_frame d fr b now e s) = AList.update d ?e (ws_flows s)"
    by (simp add: push_frame_def Let_def put_flow_def add_queued_def
        enqueue_active_conn_def apply_flow_membership_delta_def)
  show "need (push_frame d fr b now e s) c \<le> need s c"
  proof (cases "d = c")
    case True
    obtain x rest where x: "fe_queue e = x # rest" using q e True by (cases "fe_queue e") (auto simp: queue_of_def)
    have "need (push_frame d fr b now e s) c =
        nat (as_i64 (queued_bytes x) - fl_deficit_bytes (classify_flow (ws_config s) (pe_state (ws_pressure s)) now ?fl))"
      using x by (simp add: need_def queue_of_def deficit_of_def flows hm.lookup_insert True [symmetric])
    moreover have "need s c = nat (as_i64 (queued_bytes x) - fl_deficit_bytes (fe_fairness e))"
      using True x e by (simp add: need_def queue_of_def deficit_of_def)
    moreover have "as_i64 (queued_bytes x) = 0" if "sat_add U64_MAX (pending e) (queued_bytes fr) = 0"
    proof -
      have "pending e + queued_bytes fr = 0"
        using that by (simp add: sat_add_def min_def split: if_splits)
      then have "queued_bytes x = 0" using ok x by simp
      then show ?thesis by (simp add: as_i64_def)
    qed
    ultimately show ?thesis by (auto simp: classify_flow_deficit)
  next
    case False
    then show ?thesis by (intro eq_imp_le need_cong) (simp add: flows hm.lookup_insert)
  qed
qed

lemma enqueue_data_wait:
  assumes inv: "worker_inv s" and q: "queue_of s c \<noteq> []"
    and t: "enqueue_data d flags data now s = (t, a)"
  shows "need t c \<le> need s c \<and> place t c = place s c"
proof -
  obtain e s1 where g: "get_or_insert_flow d (bucket_for d s) (weight_for_flags (ws_config s) flags) s = (e, s1)"
    by fastforce
  have c: "c \<in> set (ws_active_ring s)" using worker_inv_ring(2) [OF inv] q by simp
  have p: "pending e = frames_bytes (fe_queue e)"
    using g worker_core_flow inv
    by (cases "map_of (ws_flows s) d")
      (auto simp: get_or_insert_flow_def Let_def flow_ok_def worker_inv_def flow_entry_new_def
        flow_fairness_new_def)
  have "queue_of s1 c \<noteq> []"
    using q g by (cases "map_of (ws_flows s) d")
      (auto simp: get_or_insert_flow_def Let_def put_flow_def queue_of_def hm.lookup_insert split: if_splits)
  note push = push_frame_wait [OF _ get_or_insert_wait(4) [OF g] this p]
  have rej: "need (note_reject now u) c = need u c" "place (note_reject now u) c = place u c" for u
    by (auto intro!: need_cong simp: place_def)
  show ?thesis
    using t g c push get_or_insert_wait(1-3) [OF g]
    by (auto simp: enqueue_data_def Let_def rej split: if_splits)
qed

fun concerns :: "nat \<Rightarrow> fair_event \<Rightarrow> bool" where
  "concerns c (EvDeliver fr) \<longleftrightarrow> qf_conn_id fr = c"
| "concerns c (EvRequeue fr) \<longleftrightarrow> qf_conn_id fr = c"
| "concerns c (EvShed fr) \<longleftrightarrow> qf_conn_id fr = c"
| "concerns c (EvClose d) \<longleftrightarrow> d = c"
| "concerns c (EvRemove d) \<longleftrightarrow> d = c"
| "concerns c _ \<longleftrightarrow> False"

text \<open>The events of a call of \<open>next_decision\<close>.\<close>

fun is_decision :: "fair_event \<Rightarrow> bool" where
  "is_decision (EvAdmit _) = False"
| "is_decision (EvRemove _) = False"
| "is_decision EvSilent = False"
| "is_decision _ = True"

lemma wait_mono: "need t c \<le> need s c \<Longrightarrow> place t c \<le> place s c \<Longrightarrow> wait k t c \<le> wait k s c"
  by (simp add: wait_def add_mono)

lemma next_decision_wait:
  assumes inv: "worker_inv s" and q: "queue_of s c \<noteq> []" and n: "next_decision now s = (t, d)"
    and d: "\<forall>cand. d = SD_Dispatch cand \<longrightarrow> qf_conn_id (dc_frame cand) \<noteq> c"
  shows "wait (wc_max_active_flows (ws_config s)) t c < wait (wc_max_active_flows (ws_config s)) s c"
proof -
  let ?s = "evaluate_pressure now False
     (s\<lparr>ws_scheduler_rounds := sat_add U64_MAX (ws_scheduler_rounds s) 1\<rparr>)"
  have c: "c \<in> set (ws_active_ring ?s)" using worker_inv_ring(2) [OF inv] q by simp
  have "worker_inv ?s" using inv by (simp add: worker_inv_def worker_core_def)
  moreover have "serve_ring (length (ws_active_ring ?s)) now ?s = (t, d)"
    using n by (simp only: next_decision_def Let_def)
  moreover have "need ?s c = need s c" "place ?s c = place s c"
    by (auto intro!: need_cong simp: place_def)
  moreover have "min (length (ws_active_ring s)) 1 = 1"
    using c by (cases "ws_active_ring s") simp_all
  ultimately show ?thesis
    using serve_ring_wait [of ?s c "length (ws_active_ring ?s)" now t d, OF _ c _ d]
    by (simp add: wait_def)
qed

lemma fair_step_wait:
  assumes st: "fair_step s ev t" and inv: "worker_inv s" and q: "queue_of s c \<noteq> []" and ev: "\<not> concerns c ev"
  shows "wait (wc_max_active_flows (ws_config s)) t c + of_bool (is_decision ev)
    \<le> wait (wc_max_active_flows (ws_config s)) s c"
  using st
proof (cases rule: fair_step.cases)
  case (fs_admit conn flags data now)
  then show ?thesis using enqueue_data_wait [OF inv q fs_admit(2)] by (simp add: wait_mono)
next
  case (fs_refuse conn flags data now d)
  then show ?thesis using enqueue_data_wait [OF inv q fs_refuse(2)] by (simp add: wait_mono)
next
  case (fs_idle now)
  then show ?thesis using next_decision_wait [OF inv q fs_idle(2)] by simp
next
  case (fs_dispatch now u cand fb act)
  let ?d = "qf_conn_id (dc_frame cand)"
  have d: "?d \<noteq> c" using ev fs_dispatch(1) by (auto simp: feedback_event_def Let_def split: if_splits)
  then have "wait (wc_max_active_flows (ws_config s)) u c < wait (wc_max_active_flows (ws_config s)) s c"
    using next_decision_wait [OF inv q fs_dispatch(2)] by simp
  moreover have "queue_of u c \<noteq> []"
    using next_decision_inv(3) [OF inv fs_dispatch(2)] q d by (auto simp: Let_def)
  then have "c \<in> set (ws_active_ring u)"
    using worker_inv_ring(2) next_decision_inv(1) [OF inv fs_dispatch(2)] by simp
  then have "wait (wc_max_active_flows (ws_config s)) t c \<le> wait (wc_max_active_flows (ws_config s)) u c"
    using feedback_wait [OF d _ fs_dispatch(3)] by (simp add: wait_mono)
  ultimately show ?thesis by simp
next
  case (fs_remove conn)
  then show ?thesis using remove_flow_wait [of conn c s] ev by (simp add: wait_mono)
next
  case (fs_switch now enabled)
  have "need t c = need s c" "place t c = place s c"
    using fs_switch by (auto intro!: need_cong simp: place_def set_backpressure_enabled_def)
  then show ?thesis using fs_switch by (simp add: wait_def)
qed

lemma fair_step_backlog:
  "fair_step s ev t \<Longrightarrow> worker_inv s \<Longrightarrow> queue_of s c \<noteq> [] \<Longrightarrow> \<not> concerns c ev \<Longrightarrow> queue_of t c \<noteq> []"
  using fair_step_fifo [of s ev t] by (auto elim!: fifo_stepE split: if_splits)

lemma fair_run_wait:
  assumes "fair_run s evs t" and "worker_inv s" and "queue_of s c \<noteq> []" and "\<forall>ev\<in>set evs. \<not> concerns c ev"
  shows "wait (wc_max_active_flows (ws_config s)) t c + length (filter is_decision evs)
      \<le> wait (wc_max_active_flows (ws_config s)) s c \<and> queue_of t c \<noteq> []"
  using assms
proof (induction rule: fair_run.induct)
  case (fr_step s evs t ev u)
  have inv: "worker_inv t" using fair_run_inv fr_step by blast
  have "wc_max_active_flows (ws_config t) = wc_max_active_flows (ws_config s)"
    using fair_run_caps [OF fr_step.hyps(1) fr_step.prems(1)] by (simp add: same_caps_def)
  then show ?case
    using fair_step_wait [OF fr_step.hyps(2) inv, of c] fair_step_backlog [OF fr_step.hyps(2) inv, of c]
      fr_step.IH fr_step.prems by auto
qed simp

text \<open>
  C8. No starvation: from any state of a run, if a connection has queued frames and its
  front frame has \<open>n\<close> bytes, then fewer than \<open>(n + 1) * max_active_flows\<close> scheduler
  decisions can pass before a frame of that connection is dispatched or the connection
  closed, however much other connections send and however their frames are answered.
\<close>

theorem fair_no_starvation:
  assumes "fair_run (worker_new config now) evs0 s"
    and "wc_max_total_queued_bytes config < U64_MAX" and "wc_max_active_flows config \<le> U64_MAX"
    and "queue_of s c = fr # rest"
    and "fair_run s evs t" and "\<forall>ev\<in>set evs. \<not> concerns c ev"
  shows "length (filter is_decision evs) < (queued_bytes fr + 1) * wc_max_active_flows config"
proof -
  have new: "worker_inv (worker_new config now)"
    using assms(2,3) by (simp add: worker_new_inv config_ok_def)
  have inv: "worker_inv s" using fair_run_inv [OF assms(1) new] .
  have K: "wc_max_active_flows (ws_config s) = wc_max_active_flows config"
    using fair_run_caps [OF assms(1) new] by (simp add: same_caps_def worker_new_def Let_def)
  have c: "c \<in> set (ws_active_ring s)" using worker_inv_ring(2) [OF inv] assms(4) by simp
  have place: "place s c < wc_max_active_flows config"
    using place_less [OF c] ring_length [OF inv] K by (simp add: place_def)
  obtain e where e: "map_of (ws_flows s) c = Some e"
    using assms(4) by (cases "map_of (ws_flows s) c") (auto simp: queue_of_def)
  have "0 \<le> deficit_of s c"
    using worker_core_flow [OF _ e] inv e by (simp add: worker_inv_def flow_ok_def deficit_of_def)
  then have "need s c \<le> queued_bytes fr"
    using as_i64_le [of "queued_bytes fr"] assms(4) by (simp add: need_def)
  then have "need s c * wc_max_active_flows config \<le> queued_bytes fr * wc_max_active_flows config"
    by (rule mult_le_mono1)
  then have "wait (wc_max_active_flows config) s c < (queued_bytes fr + 1) * wc_max_active_flows config"
    using place unfolding wait_def add_mult_distrib by linarith
  then show ?thesis using fair_run_wait [OF assms(5) inv _ assms(6)] assms(4) K by simp
qed

theorem fair_no_starvation_witness:
  "queue_of demo1 7 = [demo_frame] \<and> 0 < (queued_bytes demo_frame + 1) * wc_max_active_flows demo_config"
proof -
  have q: "queue_of demo1 7 = [demo_frame]" by (simp add: queue_of_def demo1_fields demo_entry_def)
  have "length (filter is_decision []) < (queued_bytes demo_frame + 1) * wc_max_active_flows demo_config"
    by (rule fair_no_starvation [OF demo_run1 [unfolded demo0_def] _ _ q fr_start])
      (simp_all add: demo_config_simps)
  then show ?thesis using q by simp
qed

end
