(* ===== verification/Proxy_Error.thy ===== *)
theory Proxy_Error
  imports Telemt_Prelude
begin

section \<open>Errors and socket addresses\<close>

text \<open>
  The error enums of \<^verbatim>\<open>src/src/error.rs\<close> with their recoverability rules, and the
  \<open>IpAddr\<close> and \<open>SocketAddr\<close> values of the standard library. A text that only serves a
  log line is left out of a constructor.
\<close>

subsection \<open>Errors\<close>

text \<open>The kinds of \<open>std::io::Error\<close> the sources name.\<close>

datatype io_error_kind =
    IO_WouldBlock | IO_Interrupted | IO_TimedOut | IO_BrokenPipe | IO_ConnectionReset
  | IO_ConnectionAborted | IO_NotConnected | IO_UnexpectedEof | IO_InvalidData
  | IO_InvalidInput | IO_WriteZero | IO_OutOfMemory | IO_Other

datatype stream_error =
    PartialRead nat nat
  | PartialWrite nat nat
  | Poisoned
  | BufferOverflow nat nat
  | InvalidFrame
  | SE_UnexpectedEof
  | SE_Io io_error_kind

datatype proxy_error =
    Crypto
  | InvalidKeyLength nat nat
  | Stream_Error stream_error
  | InvalidHandshake
  | InvalidProtoTag bytes
  | InvalidTlsRecord u8 bytes
  | ReplayAttack
  | TimeSkew u32 u32
  | InvalidMessageLength nat nat nat
  | ChecksumMismatch u32 u32
  | SeqNoMismatch u32 u32
  | TlsHandshakeFailed
  | TgHandshakeTimeout
  | ConnectionTimeout
  | ConnectionRefused
  | Io io_error_kind
  | InvalidProxyProtocol
  | UnknownTlsSni
  | Proxy
  | MiddleConnectionLost
  | RouteSwitched
  | TrafficBudgetWaitCancelled
  | TrafficBudgetWaitDeadlineExceeded
  | MiddleClientWriterCancelled
  | Config_Error
  | InvalidSecret
  | UserDisabled
  | UserExpired
  | ConnectionLimitExceeded
  | DataQuotaExceeded
  | UnknownUser
  | RateLimited
  | Internal_Error

fun stream_error_to_io :: "stream_error \<Rightarrow> io_error_kind" where
  "stream_error_to_io (SE_Io e) = e"
| "stream_error_to_io SE_UnexpectedEof = IO_UnexpectedEof"
| "stream_error_to_io Poisoned = IO_Other"
| "stream_error_to_io (BufferOverflow _ _) = IO_OutOfMemory"
| "stream_error_to_io InvalidFrame = IO_InvalidData"
| "stream_error_to_io (PartialRead _ _) = IO_Other"
| "stream_error_to_io (PartialWrite _ _) = IO_Other"

definition io_is_recoverable :: "io_error_kind \<Rightarrow> bool" where
  "io_is_recoverable k \<longleftrightarrow> k = IO_WouldBlock \<or> k = IO_Interrupted \<or> k = IO_TimedOut"

definition io_can_continue :: "io_error_kind \<Rightarrow> bool" where
  "io_can_continue k \<longleftrightarrow>
     \<not> (k = IO_BrokenPipe \<or> k = IO_ConnectionReset \<or> k = IO_ConnectionAborted \<or> k = IO_NotConnected)"

fun stream_is_recoverable :: "stream_error \<Rightarrow> bool" where
  "stream_is_recoverable (PartialRead _ _) = True"
| "stream_is_recoverable (PartialWrite _ _) = True"
| "stream_is_recoverable (SE_Io k) \<longleftrightarrow> k = IO_WouldBlock \<or> k = IO_Interrupted \<or> k = IO_TimedOut"
| "stream_is_recoverable _ = False"

fun stream_can_continue :: "stream_error \<Rightarrow> bool" where
  "stream_can_continue Poisoned = False"
| "stream_can_continue SE_UnexpectedEof = False"
| "stream_can_continue (BufferOverflow _ _) = False"
| "stream_can_continue _ = True"

fun is_recoverable :: "proxy_error \<Rightarrow> bool" where
  "is_recoverable (Stream_Error e) = stream_is_recoverable e"
| "is_recoverable (Io e) = io_is_recoverable e"
| "is_recoverable ConnectionTimeout = True"
| "is_recoverable RateLimited = True"
| "is_recoverable _ = False"

fun can_continue :: "proxy_error \<Rightarrow> bool" where
  "can_continue (Stream_Error e) = stream_can_continue e"
| "can_continue (Io e) = io_can_continue e"
| "can_continue _ = False"

text \<open>The three-way result of a handshake.\<close>

datatype ('a, 'r, 'w) handshake_result = Success 'a | BadClient 'r 'w | HS_Error proxy_error

fun hs_is_success :: "('a, 'r, 'w) handshake_result \<Rightarrow> bool" where
  "hs_is_success (Success _) = True"
| "hs_is_success _ = False"

fun hs_is_bad_client :: "('a, 'r, 'w) handshake_result \<Rightarrow> bool" where
  "hs_is_bad_client (BadClient _ _) = True"
| "hs_is_bad_client _ = False"

fun hs_map :: "('a \<Rightarrow> 'b) \<Rightarrow> ('a, 'r, 'w) handshake_result \<Rightarrow> ('b, 'r, 'w) handshake_result" where
  "hs_map f (Success v) = Success (f v)"
| "hs_map f (BadClient r w) = BadClient r w"
| "hs_map f (HS_Error e) = HS_Error e"

text \<open>
  What the two recoverability predicates promise together: an I/O or stream error that
  may be retried never ends the connection, and the only retryable errors after which the
  connection cannot continue are the connection timeout and the rate limit.
\<close>

theorem recoverable_errors_continue:
  "is_recoverable e \<Longrightarrow> can_continue e \<or> e = ConnectionTimeout \<or> e = RateLimited"
proof (cases e)
  case (Stream_Error s)
  assume "is_recoverable e"
  with Stream_Error show ?thesis by (cases s) auto
next
  case (Io k)
  assume "is_recoverable e"
  with Io show ?thesis by (auto simp: io_is_recoverable_def io_can_continue_def)
qed auto

theorem recoverable_errors_continue_witness:
  "is_recoverable (Io IO_TimedOut) \<and> can_continue (Io IO_TimedOut)"
  using recoverable_errors_continue [of "Io IO_TimedOut"] by (simp add: io_is_recoverable_def)

subsection \<open>Addresses\<close>

text \<open>An IPv6 address is its sixteen octets.\<close>

datatype ip_addr = IpV4 u8 u8 u8 u8 | IpV6 bytes

record socket_addr =
  sa_ip :: ip_addr
  sa_port :: nat

fun ip_ok :: "ip_addr \<Rightarrow> bool" where
  "ip_ok (IpV4 a b c d) = True"
| "ip_ok (IpV6 bs) \<longleftrightarrow> length bs = 16"

definition addr_ok :: "socket_addr \<Rightarrow> bool" where
  "addr_ok a \<longleftrightarrow> ip_ok (sa_ip a) \<and> sa_port a \<le> U16_MAX"

fun octets :: "ip_addr \<Rightarrow> bytes" where
  "octets (IpV4 a b c d) = [a, b, c, d]"
| "octets (IpV6 bs) = bs"

text \<open>\<open>to_ipv4_mapped\<close>: the IPv4 address of \<open>::ffff:a.b.c.d\<close>.\<close>

definition to_ipv4_mapped :: "bytes \<Rightarrow> (u8 \<times> u8 \<times> u8 \<times> u8) option" where
  "to_ipv4_mapped bs =
     (if take 12 bs = replicate 10 0 @ [0xff, 0xff] \<and> length bs = 16
      then Some (bs ! 12, bs ! 13, bs ! 14, bs ! 15) else None)"

end
