(* ===== verification/Proxy_Protocol.thy ===== *)
theory Proxy_Protocol
  imports Proxy_Error
begin

section \<open>The PROXY protocol header\<close>

text \<open>
  \<^verbatim>\<open>src/src/transport/proxy_protocol.rs\<close>: detection and parsing of version 1 (text)
  and version 2 (binary) headers, and the two header builders. A parser takes the bytes a
  reader will deliver and returns the information with the bytes left in the stream, or
  the error. What the sources use of the standard library is written out: UTF-8
  validation, Unicode white space, \<open>u16\<close> and \<open>IpAddr\<close> parsing and printing.
\<close>

subsection \<open>Text of the standard library\<close>

definition ascii :: "string \<Rightarrow> bytes" where
  "ascii s = map (\<lambda>c. word_of_nat (of_char c)) s"

text \<open>\<open>str::from_utf8\<close>: the code points of a byte string.\<close>

definition is_cont :: "u8 \<Rightarrow> bool" where
  "is_cont b \<longleftrightarrow> 0x80 \<le> b \<and> b \<le> 0xBF"

fun utf8_decode :: "bytes \<Rightarrow> nat list option" where
  "utf8_decode [] = Some []"
| "utf8_decode (a # s) =
     (if a < 0x80 then map_option ((#) (unat a)) (utf8_decode s)
      else case s of
        [] \<Rightarrow> None
      | b # s2 \<Rightarrow>
          if 0xC2 \<le> a \<and> a \<le> 0xDF then
            (if is_cont b
             then map_option ((#) ((unat a - 0xC0) * 64 + (unat b - 0x80))) (utf8_decode s2)
             else None)
          else case s2 of
            [] \<Rightarrow> None
          | c # s3 \<Rightarrow>
              if 0xE0 \<le> a \<and> a \<le> 0xEF then
                (if is_cont b \<and> is_cont c \<and> (a = 0xE0 \<longrightarrow> 0xA0 \<le> b) \<and> (a = 0xED \<longrightarrow> b \<le> 0x9F)
                 then map_option ((#) ((unat a - 0xE0) * 4096 + (unat b - 0x80) * 64 + (unat c - 0x80)))
                        (utf8_decode s3)
                 else None)
              else case s3 of
                [] \<Rightarrow> None
              | d # s4 \<Rightarrow>
                  if 0xF0 \<le> a \<and> a \<le> 0xF4 \<and> is_cont b \<and> is_cont c \<and> is_cont d
                     \<and> (a = 0xF0 \<longrightarrow> 0x90 \<le> b) \<and> (a = 0xF4 \<longrightarrow> b \<le> 0x8F)
                  then map_option ((#) ((unat a - 0xF0) * 262144 + (unat b - 0x80) * 4096
                                         + (unat c - 0x80) * 64 + (unat d - 0x80)))
                         (utf8_decode s4)
                  else None)"

text \<open>\<open>char::is_whitespace\<close> and \<open>str::split_whitespace\<close>.\<close>

definition is_whitespace :: "nat \<Rightarrow> bool" where
  "is_whitespace c \<longleftrightarrow>
     (9 \<le> c \<and> c \<le> 13) \<or> c = 32 \<or> c = 0x85 \<or> c = 0xA0 \<or> c = 0x1680 \<or>
     (0x2000 \<le> c \<and> c \<le> 0x200A) \<or> c = 0x2028 \<or> c = 0x2029 \<or> c = 0x202F \<or> c = 0x205F \<or> c = 0x3000"

fun split_ws_from :: "nat list \<Rightarrow> nat list \<Rightarrow> nat list list" where
  "split_ws_from acc [] = (if acc = [] then [] else [acc])"
| "split_ws_from acc (c # cs) =
     (if is_whitespace c
      then (if acc = [] then split_ws_from [] cs else acc # split_ws_from [] cs)
      else split_ws_from (acc @ [c]) cs)"

definition split_whitespace :: "nat list \<Rightarrow> nat list list" where
  "split_whitespace cs = split_ws_from [] cs"

definition str :: "string \<Rightarrow> nat list" where
  "str s = map of_char s"

text \<open>\<open>char::to_digit\<close> for radix 10 and 16.\<close>

definition to_digit :: "nat \<Rightarrow> nat \<Rightarrow> nat option" where
  "to_digit radix c =
     (let d = (if 48 \<le> c \<and> c \<le> 57 then Some (c - 48)
               else if 97 \<le> c \<and> c \<le> 122 then Some (c - 97 + 10)
               else if 65 \<le> c \<and> c \<le> 90 then Some (c - 65 + 10)
               else None)
      in case d of None \<Rightarrow> None | Some n \<Rightarrow> if n < radix then Some n else None)"

text \<open>\<open>u16::from_str\<close>: an optional plus sign and at least one digit, without overflow.\<close>

fun parse_digits :: "nat \<Rightarrow> nat \<Rightarrow> nat list \<Rightarrow> nat option" where
  "parse_digits mx acc [] = Some acc"
| "parse_digits mx acc (c # cs) =
     (case to_digit 10 c of
        None \<Rightarrow> None
      | Some d \<Rightarrow> if acc * 10 + d \<le> mx then parse_digits mx (acc * 10 + d) cs else None)"

definition parse_u16 :: "nat list \<Rightarrow> nat option" where
  "parse_u16 cs =
     (case cs of
        [] \<Rightarrow> None
      | c # rest \<Rightarrow>
          if (c = 43 \<or> c = 45) \<and> rest = [] then None
          else if c = 43 then parse_digits U16_MAX 0 rest
          else parse_digits U16_MAX 0 cs)"

text \<open>
  \<open>IpAddr::from_str\<close>. Each reader returns its value and the text left, or \<open>None\<close>
  without consuming anything.
\<close>

fun read_digits :: "nat \<Rightarrow> nat \<Rightarrow> nat \<Rightarrow> nat list \<Rightarrow> (nat \<times> nat \<times> nat list)" where
  "read_digits radix acc n [] = (acc, n, [])"
| "read_digits radix acc n (c # cs) =
     (case to_digit radix c of
        None \<Rightarrow> (acc, n, c # cs)
      | Some d \<Rightarrow> read_digits radix (acc * radix + d) (n + 1) cs)"

definition read_number :: "nat \<Rightarrow> nat \<Rightarrow> bool \<Rightarrow> nat \<Rightarrow> nat list \<Rightarrow> (nat \<times> nat list) option" where
  "read_number radix max_digits allow_zero_prefix mx cs =
     (let (v, n, rest) = read_digits radix 0 0 cs in
      if n > max_digits then None
      else if n = 0 then None
      else if \<not> allow_zero_prefix \<and> hd cs = 48 \<and> n > 1 then None
      else if v > mx then None
      else Some (v, rest))"

definition read_sep :: "nat \<Rightarrow> nat \<Rightarrow> (nat list \<Rightarrow> ('a \<times> nat list) option) \<Rightarrow> nat list \<Rightarrow>
    ('a \<times> nat list) option" where
  "read_sep sep index inner cs =
     (if index > 0 then (case cs of c # rest \<Rightarrow> if c = sep then inner rest else None | [] \<Rightarrow> None)
      else inner cs)"

definition read_ipv4 :: "nat list \<Rightarrow> ((nat \<times> nat \<times> nat \<times> nat) \<times> nat list) option" where
  "read_ipv4 cs =
     (let num = read_number 10 3 False 255 in
      case read_sep 46 0 num cs of None \<Rightarrow> None | Some (a, r1) \<Rightarrow>
      (case read_sep 46 1 num r1 of None \<Rightarrow> None | Some (b, r2) \<Rightarrow>
      (case read_sep 46 2 num r2 of None \<Rightarrow> None | Some (c, r3) \<Rightarrow>
      (case read_sep 46 3 num r3 of None \<Rightarrow> None | Some (d, r4) \<Rightarrow>
         Some ((a, b, c, d), r4)))))"

text \<open>
  \<open>read_groups\<close> with \<open>k\<close> slots left of \<open>limit\<close>: the groups read, whether an embedded
  IPv4 address ended them, and the text left.
\<close>

fun read_groups :: "nat \<Rightarrow> nat \<Rightarrow> nat list \<Rightarrow> nat list \<times> bool \<times> nat list" where
  "read_groups limit 0 cs = ([], False, cs)"
| "read_groups limit (Suc k) cs =
     (let i = limit - Suc k in
      case (if i < limit - 1 then read_sep 58 i read_ipv4 cs else None) of
        Some ((a, b, c, d), rest) \<Rightarrow> ([a * 256 + b, c * 256 + d], True, rest)
      | None \<Rightarrow>
          (case read_sep 58 i (read_number 16 4 True U16_MAX) cs of
             None \<Rightarrow> ([], False, cs)
           | Some (g, rest) \<Rightarrow>
               let (gs, v4, rest2) = read_groups limit k rest in (g # gs, v4, rest2)))"

definition read_ipv6 :: "nat list \<Rightarrow> (nat list \<times> nat list) option" where
  "read_ipv6 cs =
     (let (head, head_v4, r1) = read_groups 8 8 cs in
      if length head = 8 then Some (head, r1)
      else if head_v4 then None
      else case r1 of
        c1 # c2 # r2 \<Rightarrow>
          if c1 = 58 \<and> c2 = 58 then
            let limit = 8 - (length head + 1);
                (tail, _, r3) = read_groups limit limit r2
            in Some (head @ replicate (8 - length head - length tail) 0 @ tail, r3)
          else None
      | _ \<Rightarrow> None)"

definition parse_ip :: "nat list \<Rightarrow> ip_addr option" where
  "parse_ip cs =
     (case read_ipv4 cs of
        Some ((a, b, c, d), rest) \<Rightarrow>
          if rest = [] then Some (IpV4 (word_of_nat a) (word_of_nat b) (word_of_nat c) (word_of_nat d))
          else None
      | None \<Rightarrow>
          (case read_ipv6 cs of
             Some (gs, rest) \<Rightarrow>
               if rest = [] then Some (IpV6 (concat (map u16_to_be_bytes gs))) else None
           | None \<Rightarrow> None))"

text \<open>Decimal and hexadecimal printing, and \<open>Display\<close> of the addresses.\<close>

function show_nat :: "nat \<Rightarrow> nat \<Rightarrow> nat list" where
  "show_nat radix n =
     (let digit = (\<lambda>d. if d < 10 then 48 + d else 87 + d) in
      if radix < 2 \<or> n < radix then [digit n]
      else show_nat radix (n div radix) @ [digit (n mod radix)])"
  by pat_completeness auto
termination
  by (relation "measure snd") auto

fun segments :: "bytes \<Rightarrow> nat list" where
  "segments (a # b # bs) = u16_from_be_bytes a b # segments bs"
| "segments _ = []"

text \<open>The first longest run of zero segments, as start and length.\<close>

fun zero_span :: "nat \<Rightarrow> nat \<times> nat \<Rightarrow> nat \<times> nat \<Rightarrow> nat list \<Rightarrow> nat \<times> nat" where
  "zero_span i cur best [] = best"
| "zero_span i cur best (g # gs) =
     (if g = 0 then
        let cur1 = (if snd cur = 0 then i else fst cur, snd cur + 1);
            best1 = (if snd cur1 > snd best then cur1 else best)
        in zero_span (i + 1) cur1 best1 gs
      else zero_span (i + 1) (0, 0) best gs)"

fun show_groups :: "nat list \<Rightarrow> nat list" where
  "show_groups [] = []"
| "show_groups [g] = show_nat 16 g"
| "show_groups (g # gs) = show_nat 16 g @ [58] @ show_groups gs"

definition show_ipv4 :: "u8 \<Rightarrow> u8 \<Rightarrow> u8 \<Rightarrow> u8 \<Rightarrow> nat list" where
  "show_ipv4 a b c d =
     show_nat 10 (unat a) @ [46] @ show_nat 10 (unat b) @ [46] @
     show_nat 10 (unat c) @ [46] @ show_nat 10 (unat d)"

fun show_ip :: "ip_addr \<Rightarrow> nat list" where
  "show_ip (IpV4 a b c d) = show_ipv4 a b c d"
| "show_ip (IpV6 bs) =
     (case to_ipv4_mapped bs of
        Some (a, b, c, d) \<Rightarrow> str ''::ffff:'' @ show_ipv4 a b c d
      | None \<Rightarrow>
          let gs = segments bs; (start, len) = zero_span 0 (0, 0) (0, 0) gs
          in if len > 1
             then show_groups (take start gs) @ [58, 58] @ show_groups (drop (start + len) gs)
             else show_groups gs)"

subsection \<open>Parsing\<close>

definition PROXY_V1_SIGNATURE :: bytes where
  "PROXY_V1_SIGNATURE = ascii ''PROXY ''"

definition PROXY_V2_SIGNATURE :: bytes where
  "PROXY_V2_SIGNATURE =
     [0x0d, 0x0a, 0x0d, 0x0a, 0x00, 0x0d, 0x0a, 0x51, 0x55, 0x49, 0x54, 0x0a]"

abbreviation (input) "PROXY_V1_MIN_LEN \<equiv> (6 :: nat)"
abbreviation (input) "PROXY_V2_MIN_LEN \<equiv> (16 :: nat)"
abbreviation (input) "PROXY_V2_MAX_ADDR_LEN \<equiv> (216 :: nat)"

record proxy_protocol_info =
  pp_src_addr :: socket_addr
  pp_dst_addr :: "socket_addr option"
  pp_version :: nat

definition info_new :: "socket_addr \<Rightarrow> proxy_protocol_info" where
  "info_new src = \<lparr>pp_src_addr = src, pp_dst_addr = None, pp_version = 0\<rparr>"

type_synonym 'a parsed = "proxy_error + 'a \<times> bytes"

definition ends_with :: "bytes \<Rightarrow> bytes \<Rightarrow> bool" where
  "ends_with xs ys \<longleftrightarrow> length ys \<le> length xs \<and> drop (length xs - length ys) xs = ys"

definition CRLF :: bytes where
  "CRLF = [0x0d, 0x0a]"

text \<open>The read loop of version 1: the line read so far grows until it ends with CRLF.\<close>

fun read_line :: "bytes \<Rightarrow> bytes \<Rightarrow> bytes parsed" where
  "read_line line [] = Inl InvalidProxyProtocol"
| "read_line line (b # s) =
     (let line1 = line @ [b] in
      if ends_with line1 CRLF then Inr (line1, s)
      else if length line1 > 256 then Inl InvalidProxyProtocol
      else read_line line1 s)"

definition parse_v1_parts :: "socket_addr \<Rightarrow> nat list list \<Rightarrow> proxy_error + proxy_protocol_info" where
  "parse_v1_parts default_peer parts =
     (case parts of
        [] \<Rightarrow> Inl InvalidProxyProtocol
      | p0 # args \<Rightarrow>
          if (p0 = str ''TCP4'' \<or> p0 = str ''TCP6'') \<and> length parts \<ge> 5 then
            (case (parse_ip (parts ! 1), parse_ip (parts ! 2), parse_u16 (parts ! 3), parse_u16 (parts ! 4)) of
               (Some src_ip, Some dst_ip, Some src_port, Some dst_port) \<Rightarrow>
                 Inr \<lparr>pp_src_addr = \<lparr>sa_ip = src_ip, sa_port = src_port\<rparr>,
                      pp_dst_addr = Some \<lparr>sa_ip = dst_ip, sa_port = dst_port\<rparr>, pp_version = 1\<rparr>
             | _ \<Rightarrow> Inl InvalidProxyProtocol)
          else if p0 = str ''UNKNOWN'' then
            Inr \<lparr>pp_src_addr = default_peer, pp_dst_addr = None, pp_version = 1\<rparr>
          else Inl InvalidProxyProtocol)"

definition parse_v1 :: "socket_addr \<Rightarrow> bytes \<Rightarrow> proxy_protocol_info parsed" where
  "parse_v1 default_peer s =
     (case read_line PROXY_V1_SIGNATURE s of
        Inl e \<Rightarrow> Inl e
      | Inr (line, rest) \<Rightarrow>
          (case utf8_decode (slice line PROXY_V1_MIN_LEN (length line - 2)) of
             None \<Rightarrow> Inl InvalidProxyProtocol
           | Some text \<Rightarrow>
               (case parse_v1_parts default_peer (split_whitespace text) of
                  Inl e \<Rightarrow> Inl e
                | Inr info \<Rightarrow> Inr (info, rest))))"

definition parse_v2_addrs :: "socket_addr \<Rightarrow> u8 \<Rightarrow> bytes \<Rightarrow> proxy_error + proxy_protocol_info" where
  "parse_v2_addrs default_peer family_protocol a =
     (let family = drop_bit 4 family_protocol;
          port = (\<lambda>i. u16_from_be_bytes (a ! i) (a ! (i + 1)))
      in if family = 1 \<and> length a \<ge> 12 then
           Inr \<lparr>pp_src_addr = \<lparr>sa_ip = IpV4 (a ! 0) (a ! 1) (a ! 2) (a ! 3), sa_port = port 8\<rparr>,
                pp_dst_addr = Some \<lparr>sa_ip = IpV4 (a ! 4) (a ! 5) (a ! 6) (a ! 7), sa_port = port 10\<rparr>,
                pp_version = 2\<rparr>
         else if family = 2 \<and> length a \<ge> 36 then
           Inr \<lparr>pp_src_addr = \<lparr>sa_ip = IpV6 (slice a 0 16), sa_port = port 32\<rparr>,
                pp_dst_addr = Some \<lparr>sa_ip = IpV6 (slice a 16 32), sa_port = port 34\<rparr>,
                pp_version = 2\<rparr>
         else if family = 0 then
           Inr \<lparr>pp_src_addr = default_peer, pp_dst_addr = None, pp_version = 2\<rparr>
         else Inl InvalidProxyProtocol)"

definition parse_v2 :: "socket_addr \<Rightarrow> bytes \<Rightarrow> bytes \<Rightarrow> proxy_protocol_info parsed" where
  "parse_v2 default_peer header s =
     (let version_command = header ! 12;
          version = drop_bit 4 version_command;
          command = version_command AND 0x0f
      in if version \<noteq> 2 then Inl InvalidProxyProtocol
         else
           let family_protocol = header ! 13;
               addr_len = u16_from_be_bytes (header ! 14) (header ! 15)
           in if addr_len > PROXY_V2_MAX_ADDR_LEN then Inl InvalidProxyProtocol
              else case read_exact addr_len s of
                None \<Rightarrow> Inl InvalidProxyProtocol
              | Some (addr_data, rest) \<Rightarrow>
                  if command = 0 then
                    Inr (\<lparr>pp_src_addr = default_peer, pp_dst_addr = None, pp_version = 2\<rparr>, rest)
                  else if command \<noteq> 1 then Inl InvalidProxyProtocol
                  else (case parse_v2_addrs default_peer family_protocol addr_data of
                          Inl e \<Rightarrow> Inl e
                        | Inr info \<Rightarrow> Inr (info, rest)))"

definition parse_proxy_protocol :: "socket_addr \<Rightarrow> bytes \<Rightarrow> proxy_protocol_info parsed" where
  "parse_proxy_protocol default_peer s =
     (case read_exact PROXY_V1_MIN_LEN s of
        None \<Rightarrow> Inl InvalidProxyProtocol
      | Some (h1, s1) \<Rightarrow>
          if h1 = PROXY_V1_SIGNATURE then parse_v1 default_peer s1
          else (case read_exact (PROXY_V2_MIN_LEN - PROXY_V1_MIN_LEN) s1 of
                  None \<Rightarrow> Inl InvalidProxyProtocol
                | Some (h2, s2) \<Rightarrow>
                    let header = h1 @ h2 in
                    if take 12 header = PROXY_V2_SIGNATURE then parse_v2 default_peer header s2
                    else Inl InvalidProxyProtocol))"

subsection \<open>Builders\<close>

record v1_builder =
  v1_family :: string
  v1_src :: "socket_addr option"
  v1_dst :: "socket_addr option"

definition v1_new :: v1_builder where
  "v1_new = \<lparr>v1_family = ''UNKNOWN'', v1_src = None, v1_dst = None\<rparr>"

definition v1_tcp4 :: "socket_addr \<Rightarrow> socket_addr \<Rightarrow> v1_builder \<Rightarrow> v1_builder" where
  "v1_tcp4 src dst b = b\<lparr>v1_family := ''TCP4'', v1_src := Some src, v1_dst := Some dst\<rparr>"

definition v1_tcp6 :: "socket_addr \<Rightarrow> socket_addr \<Rightarrow> v1_builder \<Rightarrow> v1_builder" where
  "v1_tcp6 src dst b = b\<lparr>v1_family := ''TCP6'', v1_src := Some src, v1_dst := Some dst\<rparr>"

text \<open>The text of a built header, as code points below 128.\<close>

definition v1_text :: "string \<Rightarrow> socket_addr \<Rightarrow> socket_addr \<Rightarrow> nat list" where
  "v1_text family src dst =
     str family @ [32] @ show_ip (sa_ip src) @ [32] @ show_ip (sa_ip dst) @ [32] @
     show_nat 10 (sa_port src) @ [32] @ show_nat 10 (sa_port dst)"

definition v1_build :: "v1_builder \<Rightarrow> bytes" where
  "v1_build b =
     (case (v1_src b, v1_dst b) of
        (Some src, Some dst) \<Rightarrow>
          ascii ''PROXY '' @ map word_of_nat (v1_text (v1_family b) src dst) @ CRLF
      | _ \<Rightarrow> ascii ''PROXY UNKNOWN'' @ CRLF)"

record v2_builder =
  v2_src :: "socket_addr option"
  v2_dst :: "socket_addr option"

definition v2_new :: v2_builder where
  "v2_new = \<lparr>v2_src = None, v2_dst = None\<rparr>"

definition v2_with_addrs :: "socket_addr \<Rightarrow> socket_addr \<Rightarrow> v2_builder \<Rightarrow> v2_builder" where
  "v2_with_addrs src dst b = b\<lparr>v2_src := Some src, v2_dst := Some dst\<rparr>"

fun same_family :: "ip_addr \<Rightarrow> ip_addr \<Rightarrow> bool" where
  "same_family (IpV4 _ _ _ _) (IpV4 _ _ _ _) = True"
| "same_family (IpV6 _) (IpV6 _) = True"
| "same_family _ _ = False"

fun is_v4 :: "ip_addr \<Rightarrow> bool" where
  "is_v4 (IpV4 _ _ _ _) = True"
| "is_v4 (IpV6 _) = False"

definition v2_build :: "v2_builder \<Rightarrow> bytes" where
  "v2_build b =
     (case (v2_src b, v2_dst b) of
        (Some src, Some dst) \<Rightarrow>
          if same_family (sa_ip src) (sa_ip dst) then
            PROXY_V2_SIGNATURE @ [0x21] @
            [if is_v4 (sa_ip src) then 0x11 else 0x21] @
            u16_to_be_bytes (if is_v4 (sa_ip src) then 12 else 36) @
            octets (sa_ip src) @ octets (sa_ip dst) @
            u16_to_be_bytes (sa_port src) @ u16_to_be_bytes (sa_port dst)
          else PROXY_V2_SIGNATURE @ [0x20] @ [0x00] @ u16_to_be_bytes 0
      | _ \<Rightarrow> PROXY_V2_SIGNATURE @ [0x20] @ [0x00] @ u16_to_be_bytes 0)"

subsection \<open>Version 2 headers\<close>

lemma u16_be_list:
  "n \<le> U16_MAX \<Longrightarrow> u16_from_be_bytes (word_of_nat (n div 256)) (word_of_nat n) = n"
  by (rule u16_be_roundtrip)

lemma length_sixteen:
  assumes "length (bs :: 'a list) = 16"
  obtains b0 b1 b2 b3 b4 b5 b6 b7 b8 b9 b10 b11 b12 b13 b14 b15
  where "bs = [b0, b1, b2, b3, b4, b5, b6, b7, b8, b9, b10, b11, b12, b13, b14, b15]"
  using assms by (auto simp: length_Suc_conv eval_nat_numeral)

text \<open>
  C36. Version 2 round trip: the parser reads back exactly the addresses and ports given to
  the builder, leaves the bytes behind the header in the stream, and reports the default
  peer when the two addresses are of different families.
\<close>

theorem proxy_v2_roundtrip:
  assumes "addr_ok src" and "addr_ok dst"
  shows "parse_proxy_protocol peer (v2_build (v2_with_addrs src dst v2_new) @ rest) =
    Inr (if same_family (sa_ip src) (sa_ip dst)
         then \<lparr>pp_src_addr = src, pp_dst_addr = Some dst, pp_version = 2\<rparr>
         else \<lparr>pp_src_addr = peer, pp_dst_addr = None, pp_version = 2\<rparr>, rest)"
proof -
  note defs = v2_build_def v2_with_addrs_def v2_new_def parse_proxy_protocol_def PROXY_V1_SIGNATURE_def
    PROXY_V2_SIGNATURE_def ascii_def parse_v2_def parse_v2_addrs_def u16_to_be_bytes_def Let_def
    read_exact_def u16_be_list
  have ports: "sa_port src \<le> U16_MAX" "sa_port dst \<le> U16_MAX" using assms by (auto simp: addr_ok_def)
  show ?thesis
  proof (cases "sa_ip src")
    case S4: (IpV4 a b c d)
    show ?thesis
    proof (cases "sa_ip dst")
      case (IpV4 a' b' c' d')
      with S4 ports show ?thesis
        by (simp add: defs u16_from_be_bytes_def [of 0 12])
    next
      case (IpV6 bs)
      with S4 show ?thesis by (simp add: defs u16_from_be_bytes_def)
    qed
  next
    case S6: (IpV6 bs)
    then have "length bs = 16" using assms(1) by (simp add: addr_ok_def)
    then obtain b0 b1 b2 b3 b4 b5 b6 b7 b8 b9 b10 b11 b12 b13 b14 b15
      where bs: "bs = [b0, b1, b2, b3, b4, b5, b6, b7, b8, b9, b10, b11, b12, b13, b14, b15]"
      by (rule length_sixteen)
    show ?thesis
    proof (cases "sa_ip dst")
      case (IpV4 a' b' c' d')
      with S6 show ?thesis by (simp add: defs u16_from_be_bytes_def)
    next
      case (IpV6 cs)
      then have "length cs = 16" using assms(2) by (simp add: addr_ok_def)
      then obtain c0 c1 c2 c3 c4 c5 c6 c7 c8 c9 c10 c11 c12 c13 c14 c15
        where cs: "cs = [c0, c1, c2, c3, c4, c5, c6, c7, c8, c9, c10, c11, c12, c13, c14, c15]"
        by (rule length_sixteen)
      show ?thesis
        using S6 IpV6 bs cs ports by (simp add: defs slice_def u16_from_be_bytes_def [of 0 36])
    qed
  qed
qed

theorem proxy_v2_roundtrip_witness:
  "parse_proxy_protocol \<lparr>sa_ip = IpV4 0 0 0 0, sa_port = 0\<rparr>
     (v2_build (v2_with_addrs \<lparr>sa_ip = IpV4 192 168 1 1, sa_port = 12345\<rparr>
        \<lparr>sa_ip = IpV4 10 0 0 1, sa_port = 443\<rparr> v2_new) @ [1, 2]) =
   Inr (\<lparr>pp_src_addr = \<lparr>sa_ip = IpV4 192 168 1 1, sa_port = 12345\<rparr>,
         pp_dst_addr = Some \<lparr>sa_ip = IpV4 10 0 0 1, sa_port = 443\<rparr>, pp_version = 2\<rparr>, [1, 2])"
  using proxy_v2_roundtrip [of "\<lparr>sa_ip = IpV4 192 168 1 1, sa_port = 12345\<rparr>"
      "\<lparr>sa_ip = IpV4 10 0 0 1, sa_port = 443\<rparr>" "\<lparr>sa_ip = IpV4 0 0 0 0, sa_port = 0\<rparr>" "[1, 2]"]
  by (simp add: addr_ok_def)

subsection \<open>Decimal numbers\<close>

text \<open>The value of a list of decimal digit characters.\<close>

definition digits_value :: "nat \<Rightarrow> nat list \<Rightarrow> nat" where
  "digits_value acc cs = foldl (\<lambda>a c. a * 10 + (c - 48)) acc cs"

definition is_digit10 :: "nat \<Rightarrow> bool" where
  "is_digit10 c \<longleftrightarrow> 48 \<le> c \<and> c \<le> 57"

lemma to_digit10 [simp]: "is_digit10 c \<Longrightarrow> to_digit 10 c = Some (c - 48)"
  by (auto simp: is_digit10_def to_digit_def Let_def)

lemma to_digit10_None: "to_digit 10 c = None \<longleftrightarrow> \<not> is_digit10 c"
  by (auto simp: is_digit10_def to_digit_def Let_def)

declare show_nat.simps [simp del]

lemma show_nat_10:
  "show_nat 10 n = (if n < 10 then [48 + n] else show_nat 10 (n div 10) @ [48 + n mod 10])"
  by (subst show_nat.simps) (simp add: Let_def)

lemma show_nat_digits: "list_all is_digit10 (show_nat 10 n)"
proof (induction n rule: less_induct)
  case (less n)
  show ?case
    by (cases "n < 10") (use less [of "n div 10"] in \<open>auto simp: show_nat_10 [of n] is_digit10_def\<close>)
qed

lemma show_nat_value: "digits_value 0 (show_nat 10 n) = n"
proof (induction n rule: less_induct)
  case (less n)
  show ?case
    by (cases "n < 10") (use less [of "n div 10"] in \<open>auto simp: show_nat_10 [of n] digits_value_def\<close>)
qed

lemma show_nat_not_Nil [simp]: "show_nat 10 n \<noteq> []"
  by (subst show_nat_10) simp

lemma show_nat_length: "n < 10 ^ Suc k \<Longrightarrow> length (show_nat 10 n) \<le> Suc k"
proof (induction k arbitrary: n)
  case 0
  then show ?case by (simp add: show_nat_10)
next
  case (Suc k)
  then have "n div 10 < 10 ^ Suc k" by (simp add: less_mult_imp_div_less)
  from Suc.IH [OF this] show ?case by (simp add: show_nat_10 [of n])
qed

lemma show_nat_hd: "hd (show_nat 10 n) = 48 \<Longrightarrow> n = 0"
proof (induction n rule: less_induct)
  case (less n)
  show ?case
  proof (cases "n < 10")
    case True
    then show ?thesis using less.prems by (simp add: show_nat_10 [of n])
  next
    case False
    then have "hd (show_nat 10 (n div 10)) = 48" using less.prems by (simp add: show_nat_10 [of n])
    with less.IH [of "n div 10"] False have "n div 10 = 0" by simp
    with False show ?thesis by simp
  qed
qed

lemma read_digits_10:
  assumes "list_all is_digit10 ds" and "r = [] \<or> \<not> is_digit10 (hd r)"
  shows "read_digits 10 acc n (ds @ r) = (digits_value acc ds, n + length ds, r)"
  using assms(1)
proof (induction ds arbitrary: acc n)
  case Nil
  then show ?case
    using assms(2) to_digit10_None [of "hd r"] by (cases r) (auto simp: digits_value_def)
qed (simp add: digits_value_def)

lemma read_number_show:
  assumes "n < 10 ^ Suc k" and "n \<le> mx" and "r = [] \<or> \<not> is_digit10 (hd r)"
  shows "read_number 10 (Suc k) False mx (show_nat 10 n @ r) = Some (n, r)"
proof -
  have "hd (show_nat 10 n @ r) = 48 \<Longrightarrow> length (show_nat 10 n) = 1"
    using show_nat_hd [of n] by (simp add: show_nat_10)
  then show ?thesis
    using read_digits_10 [OF show_nat_digits assms(3), of 0 0 n] show_nat_length [OF assms(1)] assms(2)
    by (auto simp: read_number_def show_nat_value)
qed

lemma parse_digits_show:
  assumes "list_all is_digit10 ds" and "digits_value acc ds \<le> mx"
  shows "parse_digits mx acc ds = Some (digits_value acc ds)"
proof -
  have mono: "a \<le> digits_value a ds" for a ds
  proof (induction ds arbitrary: a)
    case (Cons d ds)
    have "a \<le> a * 10 + (d - 48)" by simp
    also have "\<dots> \<le> digits_value a (d # ds)"
      using Cons.IH [of "a * 10 + (d - 48)"] by (simp add: digits_value_def)
    finally show ?case .
  qed (simp add: digits_value_def)
  show ?thesis
    using assms
  proof (induction ds arbitrary: acc)
    case (Cons d ds)
    have "acc * 10 + (d - 48) \<le> mx"
      using Cons.prems mono [of "acc * 10 + (d - 48)" ds] by (simp add: digits_value_def)
    then show ?case using Cons by (simp add: digits_value_def)
  qed (simp add: digits_value_def)
qed

lemma parse_u16_show: "n \<le> U16_MAX \<Longrightarrow> parse_u16 (show_nat 10 n) = Some n"
proof -
  assume n: "n \<le> U16_MAX"
  obtain c cs where c: "show_nat 10 n = c # cs" by (cases "show_nat 10 n") simp_all
  then have "is_digit10 c" using show_nat_digits [of n] by simp
  then have "c \<noteq> 43 \<and> c \<noteq> 45" by (auto simp: is_digit10_def)
  moreover have "digits_value 0 (c # cs) = n"
    using show_nat_value [of n] unfolding c .
  then have "parse_digits U16_MAX 0 (c # cs) = Some n"
    using parse_digits_show [OF show_nat_digits, of 0 n U16_MAX] n unfolding c by (simp del: parse_digits.simps)
  ultimately show ?thesis by (simp add: parse_u16_def c del: parse_digits.simps)
qed

lemma parse_ip_show4: "parse_ip (show_ip (IpV4 a b c d)) = Some (IpV4 a b c d)"
proof -
  have dot: "\<not> is_digit10 46" by (simp add: is_digit10_def)
  have num: "read_number 10 3 False 255 (show_nat 10 (unat x) @ r) = Some (unat x, r)"
    if "r = [] \<or> \<not> is_digit10 (hd r)" for x :: u8 and r
    using read_number_show [of "unat x" 2 255 r] that unat_u8_less [of x] by simp
  have "read_ipv4 (show_ipv4 a b c d) = Some ((unat a, unat b, unat c, unat d), [])"
    using num [of "[]" d] by (simp add: read_ipv4_def show_ipv4_def read_sep_def num dot Let_def)
  then show ?thesis by (simp add: parse_ip_def)
qed

subsection \<open>Version 1 lines\<close>

definition ascii_text :: "nat list \<Rightarrow> bool" where
  "ascii_text cs \<longleftrightarrow> list_all (\<lambda>c. c < 128) cs"

definition word_text :: "nat list \<Rightarrow> bool" where
  "word_text cs \<longleftrightarrow> cs \<noteq> [] \<and> list_all (\<lambda>c. 32 < c \<and> c < 128) cs"

lemma word_text_not_ws: "word_text w \<Longrightarrow> c \<in> set w \<Longrightarrow> \<not> is_whitespace c"
  by (auto simp: word_text_def list_all_iff is_whitespace_def)

lemma utf8_ascii: "ascii_text cs \<Longrightarrow> utf8_decode (map word_of_nat cs) = Some cs"
proof (induction cs)
  case (Cons c cs)
  then have c: "c < 128" and "ascii_text cs" by (auto simp: ascii_text_def)
  have "unat (word_of_nat c :: u8) = c" using c by simp
  moreover have "(word_of_nat c :: u8) < 0x80"
    unfolding word_less_nat_alt using c by simp
  ultimately show ?case using Cons.IH \<open>ascii_text cs\<close> by simp
qed simp

lemma split_ws_word:
  assumes "\<forall>c\<in>set w. \<not> is_whitespace c"
  shows "split_ws_from acc (w @ r) = split_ws_from (acc @ w) r"
  using assms by (induction w arbitrary: acc) auto

lemma split_whitespace_cons:
  "word_text w \<Longrightarrow> split_whitespace (w @ 32 # r) = w # split_whitespace r"
  using split_ws_word [of w "[]" "32 # r"] word_text_not_ws [of w]
  by (auto simp: split_whitespace_def is_whitespace_def word_text_def)

lemma split_whitespace_last: "word_text w \<Longrightarrow> split_whitespace w = [w]"
  using split_ws_word [of w "[]" "[]"] word_text_not_ws [of w]
  by (auto simp: split_whitespace_def word_text_def)

lemma ends_with_snoc_ne: "b \<noteq> 0x0a \<Longrightarrow> \<not> ends_with (line @ [b]) CRLF"
  by (cases "length line") (auto simp: ends_with_def CRLF_def Suc_diff_le)

lemma ends_with_CRLF: "ends_with (line @ [0x0d, 0x0a]) CRLF"
  by (simp add: ends_with_def CRLF_def)

lemma read_line_text:
  assumes "0x0a \<notin> set ts" and "length line + length ts < 256"
  shows "read_line line (ts @ CRLF @ rest) = Inr (line @ ts @ CRLF, rest)"
  using assms
proof (induction ts arbitrary: line)
  case Nil
  have "ends_with (line @ [0x0d] @ [0x0a]) CRLF" using ends_with_CRLF [of line] by simp
  then show ?case
    using Nil ends_with_snoc_ne [of "0x0d" line] by (simp add: CRLF_def Let_def)
next
  case (Cons b ts)
  then show ?case using ends_with_snoc_ne [of b line] by (auto simp: Let_def)
qed

lemma parse_v1_text:
  assumes "ascii_text ts" and "10 \<notin> set ts" and "length ts < 250"
  shows "parse_proxy_protocol peer (ascii ''PROXY '' @ map word_of_nat ts @ CRLF @ rest) =
    (case parse_v1_parts peer (split_whitespace ts) of Inl e \<Rightarrow> Inl e | Inr info \<Rightarrow> Inr (info, rest))"
proof -
  let ?b = "map word_of_nat ts :: bytes"
  have "word_of_nat c \<noteq> (10 :: u8)" if "c \<in> set ts" for c
  proof
    assume "word_of_nat c = (10 :: u8)"
    then have "unat (word_of_nat c :: u8) = unat (10 :: u8)" by simp
    moreover have "c < 128" using assms(1) that by (auto simp: ascii_text_def list_all_iff)
    ultimately have "c = 10" by simp
    then show False using assms(2) that by simp
  qed
  then have nl: "0x0a \<notin> set ?b" by auto
  have sig: "length PROXY_V1_SIGNATURE = 6" by (simp add: PROXY_V1_SIGNATURE_def ascii_def)
  have "read_line PROXY_V1_SIGNATURE (?b @ CRLF @ rest) = Inr (PROXY_V1_SIGNATURE @ ?b @ CRLF, rest)"
    using assms(3) sig by (intro read_line_text nl) simp
  moreover have "slice (PROXY_V1_SIGNATURE @ ?b @ CRLF) 6 (length (PROXY_V1_SIGNATURE @ ?b @ CRLF) - 2) = ?b"
    using sig by (simp add: slice_def CRLF_def)
  ultimately have "parse_v1 peer (?b @ CRLF @ rest) =
      (case parse_v1_parts peer (split_whitespace ts) of Inl e \<Rightarrow> Inl e | Inr info \<Rightarrow> Inr (info, rest))"
    by (simp add: parse_v1_def utf8_ascii [OF assms(1)])
  moreover have "read_exact 6 (PROXY_V1_SIGNATURE @ ?b @ CRLF @ rest) = Some (PROXY_V1_SIGNATURE, ?b @ CRLF @ rest)"
    by (simp add: sig)
  ultimately show ?thesis
    by (simp add: parse_proxy_protocol_def PROXY_V1_SIGNATURE_def [symmetric])
qed

lemma show_nat_word: "word_text (show_nat 10 n)"
  using show_nat_digits [of n] by (auto simp: word_text_def list_all_iff is_digit10_def)

lemma show_ipv4_word: "word_text (show_ip (IpV4 a b c d))"
  using show_nat_digits [of "unat a"] show_nat_digits [of "unat b"] show_nat_digits [of "unat c"]
    show_nat_digits [of "unat d"]
  by (auto simp: word_text_def list_all_iff is_digit10_def show_ipv4_def)

lemma show_ipv4_length: "length (show_ip (IpV4 a b c d)) \<le> 15"
proof -
  have "length (show_nat 10 (unat x)) \<le> 3" for x :: u8
    using show_nat_length [of "unat x" 2] unat_u8_less [of x] by simp
  from this [of a] this [of b] this [of c] this [of d] show ?thesis by (simp add: show_ipv4_def)
qed

lemma parse_v1_unknown:
  "parse_proxy_protocol peer (v1_build v1_new @ rest) =
    Inr (\<lparr>pp_src_addr = peer, pp_dst_addr = None, pp_version = 1\<rparr>, rest)"
proof -
  have w: "word_text (str ''UNKNOWN'')" by (simp add: word_text_def str_def)
  have "ascii ''PROXY UNKNOWN'' = ascii ''PROXY '' @ map word_of_nat (str ''UNKNOWN'')"
    by (simp add: ascii_def str_def)
  then show ?thesis
    using parse_v1_text [of "str ''UNKNOWN''" peer rest] split_whitespace_last [OF w]
    by (simp add: v1_build_def v1_new_def parse_v1_parts_def ascii_text_def str_def)
qed

text \<open>
  Version 1 round trip: for IPv4 addresses the parser reads back exactly the addresses
  and ports given to the text builder and leaves the bytes behind the line in the stream; a
  builder without addresses is read as the default peer.
\<close>

theorem proxy_v1_roundtrip:
  assumes "is_v4 (sa_ip src)" and "is_v4 (sa_ip dst)" and "addr_ok src" and "addr_ok dst"
  shows "parse_proxy_protocol peer (v1_build (v1_tcp4 src dst v1_new) @ rest) =
      Inr (\<lparr>pp_src_addr = src, pp_dst_addr = Some dst, pp_version = 1\<rparr>, rest) \<and>
    parse_proxy_protocol peer (v1_build v1_new @ rest) =
      Inr (\<lparr>pp_src_addr = peer, pp_dst_addr = None, pp_version = 1\<rparr>, rest)"
proof
  obtain a b c d where src: "sa_ip src = IpV4 a b c d" using assms(1) by (cases "sa_ip src") auto
  obtain a' b' c' d' where dst: "sa_ip dst = IpV4 a' b' c' d'" using assms(2) by (cases "sa_ip dst") auto
  have ports: "sa_port src \<le> U16_MAX" "sa_port dst \<le> U16_MAX" using assms by (auto simp: addr_ok_def)
  let ?text = "v1_text ''TCP4'' src dst"
  have tcp4: "word_text (str ''TCP4'')" by (simp add: word_text_def str_def)
  note words = tcp4 show_ipv4_word [of a b c d] show_ipv4_word [of a' b' c' d']
    show_nat_word [of "sa_port src"] show_nat_word [of "sa_port dst"]
  have "ascii_text ?text" and "10 \<notin> set ?text"
    using words by (auto simp: v1_text_def src dst ascii_text_def word_text_def list_all_iff)
  moreover have "length ?text < 250"
    using show_ipv4_length [of a b c d] show_ipv4_length [of a' b' c' d']
      show_nat_length [of "sa_port src" 4] show_nat_length [of "sa_port dst" 4] ports
    by (simp add: v1_text_def src dst str_def)
  moreover have "split_whitespace ?text =
      [str ''TCP4'', show_ip (sa_ip src), show_ip (sa_ip dst), show_nat 10 (sa_port src), show_nat 10 (sa_port dst)]"
    using words by (simp add: v1_text_def src dst split_whitespace_cons split_whitespace_last del: show_ip.simps)
  ultimately show "parse_proxy_protocol peer (v1_build (v1_tcp4 src dst v1_new) @ rest) =
      Inr (\<lparr>pp_src_addr = src, pp_dst_addr = Some dst, pp_version = 1\<rparr>, rest)"
    using parse_v1_text [of ?text peer rest] src dst
    by (simp add: v1_build_def v1_tcp4_def v1_new_def parse_v1_parts_def parse_ip_show4 parse_u16_show ports
        del: show_ip.simps)
  show "parse_proxy_protocol peer (v1_build v1_new @ rest) =
      Inr (\<lparr>pp_src_addr = peer, pp_dst_addr = None, pp_version = 1\<rparr>, rest)"
    by (rule parse_v1_unknown)
qed

theorem proxy_v1_roundtrip_witness:
  "parse_proxy_protocol \<lparr>sa_ip = IpV4 0 0 0 0, sa_port = 0\<rparr>
     (v1_build (v1_tcp4 \<lparr>sa_ip = IpV4 192 168 1 1, sa_port = 12345\<rparr>
        \<lparr>sa_ip = IpV4 10 0 0 1, sa_port = 443\<rparr> v1_new) @ [1, 2]) =
   Inr (\<lparr>pp_src_addr = \<lparr>sa_ip = IpV4 192 168 1 1, sa_port = 12345\<rparr>,
         pp_dst_addr = Some \<lparr>sa_ip = IpV4 10 0 0 1, sa_port = 443\<rparr>, pp_version = 1\<rparr>, [1, 2])"
  using proxy_v1_roundtrip [of "\<lparr>sa_ip = IpV4 192 168 1 1, sa_port = 12345\<rparr>"
      "\<lparr>sa_ip = IpV4 10 0 0 1, sa_port = 443\<rparr>" "\<lparr>sa_ip = IpV4 0 0 0 0, sa_port = 0\<rparr>" "[1, 2]"]
  by (simp add: addr_ok_def)

subsection \<open>The parser reads no further than the header\<close>

lemma read_line_local:
  assumes "read_line line s = Inr (line1, rest)" and "length line \<le> 256"
  shows "\<exists>ts. s = ts @ rest \<and> line1 = line @ ts \<and> length line1 \<le> 257 \<and>
    (\<forall>rest'. read_line line (ts @ rest') = Inr (line1, rest'))"
  using assms
proof (induction line s rule: read_line.induct)
  case (2 line b s)
  show ?case
  proof (cases "ends_with (line @ [b]) CRLF")
    case True
    then show ?thesis using 2 by (intro exI [of _ "[b]"]) (auto simp: Let_def)
  next
    case False
    with 2 obtain ts where "s = ts @ rest" "line1 = (line @ [b]) @ ts" "length line1 \<le> 257"
      "\<forall>rest'. read_line (line @ [b]) (ts @ rest') = Inr (line1, rest')"
      by (auto simp: Let_def split: if_splits)
    then show ?thesis using False 2
      by (intro exI [of _ "b # ts"]) (auto simp: Let_def split: if_splits)
  qed
qed simp

lemma parse_v1_local:
  assumes "parse_v1 peer s = Inr (info, rest)"
  shows "\<exists>hd. s = hd @ rest \<and> length hd \<le> 251 \<and> (\<forall>rest'. parse_v1 peer (hd @ rest') = Inr (info, rest'))"
proof -
  have sig: "length PROXY_V1_SIGNATURE = 6" by (simp add: PROXY_V1_SIGNATURE_def ascii_def)
  from assms obtain line where line: "read_line PROXY_V1_SIGNATURE s = Inr (line, rest)"
    by (auto simp: parse_v1_def split: sum.splits option.splits)
  from read_line_local [OF this] sig obtain ts where "s = ts @ rest" "line = PROXY_V1_SIGNATURE @ ts"
    "length line \<le> 257" and all: "\<And>rest'. read_line PROXY_V1_SIGNATURE (ts @ rest') = Inr (line, rest')"
    by auto
  moreover have "parse_v1 peer (ts @ rest') = Inr (info, rest')" for rest'
    using assms line all by (auto simp: parse_v1_def split: sum.splits option.splits)
  ultimately show ?thesis using sig by (intro exI [of _ ts]) auto
qed

lemma parse_v2_local:
  assumes "parse_v2 peer header s = Inr (info, rest)"
  shows "\<exists>hd. s = hd @ rest \<and> length hd \<le> PROXY_V2_MAX_ADDR_LEN \<and>
    (\<forall>rest'. parse_v2 peer header (hd @ rest') = Inr (info, rest'))"
proof -
  let ?n = "u16_from_be_bytes (header ! 14) (header ! 15)"
  from assms obtain hd r where hd: "read_exact ?n s = Some (hd, r)" and n: "?n \<le> PROXY_V2_MAX_ADDR_LEN"
    by (auto simp: parse_v2_def Let_def split: if_splits option.splits)
  from assms hd have "r = rest"
    by (auto simp: parse_v2_def Let_def split: if_splits sum.splits)
  moreover have "parse_v2 peer header (hd @ rest') = Inr (info, rest')" for rest'
    using assms read_exact_SomeD [OF hd] hd
    by (auto simp: parse_v2_def Let_def split: if_splits sum.splits)
  ultimately show ?thesis using read_exact_SomeD [OF hd] n by (intro exI [of _ hd]) auto
qed

text \<open>
  C37. The header is read without overrun: when the parser succeeds it has taken from the
  stream a header of at most 257 bytes and nothing of the traffic behind it, and the
  information it returns depends on that header alone.
\<close>

theorem proxy_header_exact:
  assumes "parse_proxy_protocol peer s = Inr (info, rest)"
  shows "\<exists>hd. s = hd @ rest \<and> length hd \<le> 257 \<and>
    (\<forall>rest'. parse_proxy_protocol peer (hd @ rest') = Inr (info, rest'))"
proof -
  from assms obtain h1 s1 where h1: "read_exact 6 s = Some (h1, s1)"
    by (auto simp: parse_proxy_protocol_def split: option.splits)
  note sp = read_exact_SomeD [OF h1]
  show ?thesis
  proof (cases "h1 = PROXY_V1_SIGNATURE")
    case True
    then have "parse_v1 peer s1 = Inr (info, rest)"
      using assms h1 by (simp add: parse_proxy_protocol_def)
    from parse_v1_local [OF this] obtain hd where "s1 = hd @ rest" "length hd \<le> 251"
      "\<And>rest'. parse_v1 peer (hd @ rest') = Inr (info, rest')" by blast
    with True sp show ?thesis
      by (intro exI [of _ "h1 @ hd"]) (simp add: parse_proxy_protocol_def)
  next
    case False
    then obtain h2 s2 where h2: "read_exact 10 s1 = Some (h2, s2)"
      and sig: "take 12 (h1 @ h2) = PROXY_V2_SIGNATURE" and v2: "parse_v2 peer (h1 @ h2) s2 = Inr (info, rest)"
      using assms h1 by (auto simp: parse_proxy_protocol_def Let_def split: option.splits if_splits)
    from parse_v2_local [OF v2] obtain hd where "s2 = hd @ rest" "length hd \<le> 216"
      "\<And>rest'. parse_v2 peer (h1 @ h2) (hd @ rest') = Inr (info, rest')" by blast
    with False sp read_exact_SomeD [OF h2] sig show ?thesis
      by (intro exI [of _ "h1 @ h2 @ hd"]) (simp add: parse_proxy_protocol_def Let_def)
  qed
qed

theorem proxy_header_exact_witness:
  "\<exists>hd. v1_build v1_new @ [7] = hd @ [7] \<and> length hd \<le> 257 \<and>
    (\<forall>rest'. parse_proxy_protocol \<lparr>sa_ip = IpV4 9 9 9 9, sa_port = 80\<rparr> (hd @ rest') =
      Inr (\<lparr>pp_src_addr = \<lparr>sa_ip = IpV4 9 9 9 9, sa_port = 80\<rparr>, pp_dst_addr = None, pp_version = 1\<rparr>, rest'))"
  by (rule proxy_header_exact) (rule parse_v1_unknown)

end
