(* ===== verification/Aes_Modes.thy ===== *)
theory Aes_Modes
  imports Proxy_Error
begin

section \<open>AES in counter and in block-chaining mode\<close>

text \<open>
  \<^verbatim>\<open>src/src/crypto/aes.rs\<close>: the stream cipher \<open>AesCtr\<close>, the chained block cipher \<open>AesCbc\<close>
  with its copying and its in-place routines, and the \<open>Encryptor\<close> and \<open>Decryptor\<close> traits.
  The AES-256 block function and the counter-mode keystream come from the crates \<open>aes\<close> and
  \<open>ctr\<close>: they are the parameters \<open>block_cipher\<close> and \<open>keystream\<close>, and \<open>block_cipher_ok\<close> says what the code relies
  on: blocks have sixteen bytes and decryption inverts encryption.
\<close>

subsection \<open>Counter mode\<close>

text \<open>
  The byte of the keystream at a position, for a key and an initial counter of sixteen bytes.
  The cipher state of the crate is that pair and the number of bytes already used.
\<close>

type_synonym keystream = "bytes \<Rightarrow> bytes \<Rightarrow> nat \<Rightarrow> u8"

record aes_ctr =
  ctr_key :: bytes
  ctr_iv :: bytes
  ctr_pos :: nat

definition xor_bytes :: "bytes \<Rightarrow> bytes \<Rightarrow> bytes" where
  "xor_bytes a b = map2 (\<lambda>x y. x XOR y) a b"

definition ctr_new :: "bytes \<Rightarrow> nat \<Rightarrow> aes_ctr" where
  "ctr_new key iv = \<lparr>ctr_key = key, ctr_iv = be_bytes 16 iv, ctr_pos = 0\<rparr>"

definition ctr_from_key_iv :: "bytes \<Rightarrow> bytes \<Rightarrow> proxy_error + aes_ctr" where
  "ctr_from_key_iv key iv =
     (if length key \<noteq> 32 then Inl (InvalidKeyLength 32 (length key))
      else if length iv \<noteq> 16 then Inl (InvalidKeyLength 16 (length iv))
      else Inr (ctr_new key (from_be iv)))"

definition ctr_apply :: "keystream \<Rightarrow> aes_ctr \<Rightarrow> bytes \<Rightarrow> bytes \<times> aes_ctr" where
  "ctr_apply ks c data =
     (xor_bytes data (map (ks (ctr_key c) (ctr_iv c)) [ctr_pos c ..< ctr_pos c + length data]),
      c\<lparr>ctr_pos := ctr_pos c + length data\<rparr>)"

definition ctr_encrypt :: "keystream \<Rightarrow> aes_ctr \<Rightarrow> bytes \<Rightarrow> bytes \<times> aes_ctr" where
  "ctr_encrypt ks c data = (let output = data in ctr_apply ks c output)"

definition ctr_decrypt :: "keystream \<Rightarrow> aes_ctr \<Rightarrow> bytes \<Rightarrow> bytes \<times> aes_ctr" where
  "ctr_decrypt ks c data = ctr_encrypt ks c data"

text \<open>\<open>PassthroughEncryptor\<close> has no state.\<close>

definition passthrough_encrypt :: "unit \<Rightarrow> bytes \<Rightarrow> bytes \<times> unit" where
  "passthrough_encrypt s data = (data, s)"

definition passthrough_decrypt :: "unit \<Rightarrow> bytes \<Rightarrow> bytes \<times> unit" where
  "passthrough_decrypt s data = (data, s)"

subsection \<open>Block chaining\<close>

record block_cipher =
  bc_encrypt :: "bytes \<Rightarrow> bytes \<Rightarrow> bytes"
  bc_decrypt :: "bytes \<Rightarrow> bytes \<Rightarrow> bytes"

definition block_cipher_ok :: "block_cipher \<Rightarrow> bool" where
  "block_cipher_ok B \<longleftrightarrow>
     (\<forall>key blk. length key = 32 \<and> length blk = 16 \<longrightarrow>
        length (bc_encrypt B key blk) = 16 \<and> length (bc_decrypt B key blk) = 16 \<and>
        bc_decrypt B key (bc_encrypt B key blk) = blk)"

record aes_cbc =
  cbc_key :: bytes
  cbc_iv :: bytes

abbreviation (input) "BLOCK_SIZE \<equiv> (16 :: nat)"

definition cbc_new :: "bytes \<Rightarrow> bytes \<Rightarrow> aes_cbc" where
  "cbc_new key iv = \<lparr>cbc_key = key, cbc_iv = iv\<rparr>"

definition cbc_from_slices :: "bytes \<Rightarrow> bytes \<Rightarrow> proxy_error + aes_cbc" where
  "cbc_from_slices key iv =
     (if length key \<noteq> 32 then Inl (InvalidKeyLength 32 (length key))
      else if length iv \<noteq> 16 then Inl (InvalidKeyLength 16 (length iv))
      else Inr \<lparr>cbc_key = key, cbc_iv = iv\<rparr>)"

definition encrypt_block :: "block_cipher \<Rightarrow> aes_cbc \<Rightarrow> bytes \<Rightarrow> bytes" where
  "encrypt_block B c blk = bc_encrypt B (cbc_key c) blk"

definition decrypt_block :: "block_cipher \<Rightarrow> aes_cbc \<Rightarrow> bytes \<Rightarrow> bytes" where
  "decrypt_block B c blk = bc_decrypt B (cbc_key c) blk"

definition xor_blocks :: "bytes \<Rightarrow> bytes \<Rightarrow> bytes" where
  "xor_blocks a b = map (\<lambda>i. a ! i XOR b ! i) [0..<16]"

definition cbc_encrypt :: "block_cipher \<Rightarrow> aes_cbc \<Rightarrow> bytes \<Rightarrow> proxy_error + bytes" where
  "cbc_encrypt B c data =
     (if \<not> BLOCK_SIZE dvd length data then Inl Crypto
      else if data = [] then Inr []
      else Inr (fst (fold (\<lambda>chunk (result, prev_ciphertext).
             let xored = xor_blocks chunk prev_ciphertext;
                 ciphertext = encrypt_block B c xored
             in (result @ ciphertext, ciphertext))
           (chunks BLOCK_SIZE data) ([], cbc_iv c))))"

definition cbc_decrypt :: "block_cipher \<Rightarrow> aes_cbc \<Rightarrow> bytes \<Rightarrow> proxy_error + bytes" where
  "cbc_decrypt B c data =
     (if \<not> BLOCK_SIZE dvd length data then Inl Crypto
      else if data = [] then Inr []
      else Inr (fst (fold (\<lambda>ciphertext (result, prev_ciphertext).
             let decrypted = decrypt_block B c ciphertext;
                 plaintext = xor_blocks decrypted prev_ciphertext
             in (result @ plaintext, ciphertext))
           (chunks BLOCK_SIZE data) ([], cbc_iv c))))"

text \<open>
  The in-place routines walk the start offsets \<open>(0..len).step_by(16)\<close> and overwrite the block
  at each; on an error the buffer is left as it was.
\<close>

definition step_by :: "nat \<Rightarrow> nat \<Rightarrow> nat list" where
  "step_by n k = map (\<lambda>i. i * k) [0..<(n + k - 1) div k]"

definition cbc_encrypt_in_place :: "block_cipher \<Rightarrow> aes_cbc \<Rightarrow> bytes \<Rightarrow> proxy_error + bytes" where
  "cbc_encrypt_in_place B c data =
     (if \<not> BLOCK_SIZE dvd length data then Inl Crypto
      else if data = [] then Inr data
      else Inr (fst (fold (\<lambda>i (data, prev_ciphertext).
             let blk = slice data i (i + BLOCK_SIZE);
                 blk1 = map (\<lambda>j. blk ! j XOR prev_ciphertext ! j) [0..<BLOCK_SIZE];
                 blk2 = encrypt_block B c blk1
             in (splice data i blk2, blk2))
           (step_by (length data) BLOCK_SIZE) (data, cbc_iv c))))"

definition cbc_decrypt_in_place :: "block_cipher \<Rightarrow> aes_cbc \<Rightarrow> bytes \<Rightarrow> proxy_error + bytes" where
  "cbc_decrypt_in_place B c data =
     (if \<not> BLOCK_SIZE dvd length data then Inl Crypto
      else if data = [] then Inr data
      else Inr (fst (fold (\<lambda>i (data, prev_ciphertext).
             let current_ciphertext = slice data i (i + BLOCK_SIZE);
                 blk1 = decrypt_block B c current_ciphertext;
                 blk2 = map (\<lambda>j. blk1 ! j XOR prev_ciphertext ! j) [0..<BLOCK_SIZE]
             in (splice data i blk2, current_ciphertext))
           (step_by (length data) BLOCK_SIZE) (data, cbc_iv c))))"

subsection \<open>The stream interface\<close>

text \<open>
  What the users of \<open>Encryptor\<close> and \<open>Decryptor\<close> rely on: both advance the same state by the
  same rule, keep lengths, are insensitive to how the data is cut, and decryption from a
  state inverts encryption from that state.
\<close>

fun run_chunks :: "('s \<Rightarrow> bytes \<Rightarrow> bytes \<times> 's) \<Rightarrow> 's \<Rightarrow> bytes list \<Rightarrow> bytes \<times> 's" where
  "run_chunks f s [] = ([], s)"
| "run_chunks f s (d # ds) =
     (let (o1, s1) = f s d; (o2, s2) = run_chunks f s1 ds in (o1 @ o2, s2))"

locale crypto_stream =
  fixes enc :: "'s \<Rightarrow> bytes \<Rightarrow> bytes \<times> 's"
    and dec :: "'s \<Rightarrow> bytes \<Rightarrow> bytes \<times> 's"
  assumes enc_nil: "enc s [] = ([], s)"
    and enc_append: "enc s (a @ b) =
          (let (o1, s1) = enc s a; (o2, s2) = enc s1 b in (o1 @ o2, s2))"
    and dec_nil: "dec s [] = ([], s)"
    and dec_append: "dec s (a @ b) =
          (let (o1, s1) = dec s a; (o2, s2) = dec s1 b in (o1 @ o2, s2))"
    and dec_enc: "dec s (fst (enc s a)) = (a, snd (enc s a))"
    and enc_length: "length (fst (enc s a)) = length a"
begin

lemma run_enc: "run_chunks enc s ds = enc s (concat ds)"
  by (induction ds arbitrary: s) (simp_all add: enc_nil enc_append split: prod.splits)

lemma run_dec: "run_chunks dec s ds = dec s (concat ds)"
  by (induction ds arbitrary: s) (simp_all add: dec_nil dec_append split: prod.splits)

lemma stream_roundtrip:
  "concat es = fst (run_chunks enc s ds) \<Longrightarrow>
    run_chunks dec s es = (concat ds, snd (run_chunks enc s ds))"
  by (simp add: run_enc run_dec dec_enc)

lemma run_length: "length (fst (run_chunks enc s ds)) = length (concat ds)"
  by (simp only: run_enc enc_length)

end

lemma length_xor_bytes [simp]: "length (xor_bytes a b) = min (length a) (length b)"
  by (simp add: xor_bytes_def)

lemma xor_bytes_twice [simp]:
  "length a = length k \<Longrightarrow> xor_bytes (xor_bytes a k) k = a"
  by (induction a k rule: list_induct2) (simp_all add: xor_bytes_def xor.assoc)

lemma ctr_apply_nil: "ctr_apply ks c [] = ([], c)"
  by (simp add: ctr_apply_def xor_bytes_def)

lemma ctr_apply_append:
  "ctr_apply ks c (a @ b) =
    (let (o1, c1) = ctr_apply ks c a; (o2, c2) = ctr_apply ks c1 b in (o1 @ o2, c2))"
proof -
  let ?k = "ks (ctr_key c) (ctr_iv c)" and ?p = "ctr_pos c"
  have "[?p ..< ?p + length (a @ b)] = [?p ..< ?p + length a] @ [?p + length a ..< ?p + length a + length b]"
    using upt_add_eq_append [of ?p "?p + length a" "length b"] by (simp add: add.assoc)
  then show ?thesis by (simp add: ctr_apply_def xor_bytes_def add.assoc Let_def)
qed

lemma ctr_apply_twice: "ctr_apply ks c (fst (ctr_apply ks c a)) = (a, snd (ctr_apply ks c a))"
  by (simp add: ctr_apply_def)

lemma ctr_apply_length: "length (fst (ctr_apply ks c a)) = length a"
  by (simp add: ctr_apply_def)

lemma ctr_encrypt_apply: "ctr_encrypt ks = ctr_apply ks" "ctr_decrypt ks = ctr_apply ks"
  by (simp_all add: fun_eq_iff ctr_encrypt_def ctr_decrypt_def)

interpretation ctr: crypto_stream "ctr_encrypt ks" "ctr_decrypt ks" for ks
  by unfold_locales (simp_all only: ctr_encrypt_apply ctr_apply_nil ctr_apply_append ctr_apply_twice ctr_apply_length)

interpretation pass: crypto_stream passthrough_encrypt passthrough_decrypt
  by unfold_locales (simp_all add: passthrough_encrypt_def passthrough_decrypt_def)

text \<open>
  Counter mode is insensitive to chunk borders: data encrypted piece by piece is
  recovered exactly by a decryptor started from the same key and counter, however the
  ciphertext is cut on the way, and both ciphers end in the same state.
\<close>

theorem ctr_stream_roundtrip:
  assumes "concat es = fst (run_chunks (ctr_encrypt ks) c ds)"
  shows "run_chunks (ctr_decrypt ks) c es = (concat ds, snd (run_chunks (ctr_encrypt ks) c ds)) \<and>
    length (concat es) = length (concat ds)"
  using assms ctr.stream_roundtrip [of es ks c ds] ctr.run_length [of ks c ds] by simp

theorem ctr_stream_roundtrip_witness:
  "run_chunks (ctr_decrypt (\<lambda>key iv i. word_of_nat i)) (ctr_new [] 0) [[7], [9, 1]] =
     ([7, 8, 3], \<lparr>ctr_key = [], ctr_iv = be_bytes 16 0, ctr_pos = 3\<rparr>)"
  using ctr_stream_roundtrip [of "[[7], [9, 1]]" "\<lambda>key iv i. word_of_nat i" "ctr_new [] 0" "[[7, 8], [3]]"]
  by (simp add: ctr_encrypt_apply ctr_apply_def xor_bytes_def ctr_new_def upt_rec)

subsection \<open>Chaining as recursion on blocks\<close>

definition blocks_ok :: "bytes list \<Rightarrow> bool" where
  "blocks_ok bs \<longleftrightarrow> (\<forall>b\<in>set bs. length b = 16)"

fun enc_blocks :: "block_cipher \<Rightarrow> aes_cbc \<Rightarrow> bytes \<Rightarrow> bytes list \<Rightarrow> bytes list" where
  "enc_blocks B c prev [] = []"
| "enc_blocks B c prev (p # ps) =
     (let ct = encrypt_block B c (xor_blocks p prev) in ct # enc_blocks B c ct ps)"

fun dec_blocks :: "block_cipher \<Rightarrow> aes_cbc \<Rightarrow> bytes \<Rightarrow> bytes list \<Rightarrow> bytes list" where
  "dec_blocks B c prev [] = []"
| "dec_blocks B c prev (ct # cts) = xor_blocks (decrypt_block B c ct) prev # dec_blocks B c ct cts"

definition cbc_ok :: "block_cipher \<Rightarrow> aes_cbc \<Rightarrow> bool" where
  "cbc_ok B c \<longleftrightarrow> block_cipher_ok B \<and> length (cbc_key c) = 32 \<and> length (cbc_iv c) = 16"

lemma length_xor_blocks [simp]: "length (xor_blocks a b) = 16"
  by (simp add: xor_blocks_def)

lemma xor_blocks_twice:
  "length a = 16 \<Longrightarrow> xor_blocks (xor_blocks a b) b = a"
  by (rule nth_equalityI) (simp_all add: xor_blocks_def xor.assoc)

lemma length_crypt_block:
  "cbc_ok B c \<Longrightarrow> length b = 16 \<Longrightarrow> length (encrypt_block B c b) = 16"
  "cbc_ok B c \<Longrightarrow> length b = 16 \<Longrightarrow> length (decrypt_block B c b) = 16"
  by (simp_all add: cbc_ok_def block_cipher_ok_def encrypt_block_def decrypt_block_def)

lemma decrypt_encrypt_block:
  "cbc_ok B c \<Longrightarrow> length b = 16 \<Longrightarrow> decrypt_block B c (encrypt_block B c b) = b"
  by (simp add: cbc_ok_def block_cipher_ok_def encrypt_block_def decrypt_block_def)

lemma enc_blocks_ok: "cbc_ok B c \<Longrightarrow> blocks_ok (enc_blocks B c prev ps)"
  by (induction ps arbitrary: prev) (auto simp: blocks_ok_def Let_def length_crypt_block)

lemma length_enc_blocks [simp]: "length (enc_blocks B c prev ps) = length ps"
  by (induction ps arbitrary: prev) (auto simp: Let_def)

lemma dec_enc_blocks:
  "cbc_ok B c \<Longrightarrow> blocks_ok ps \<Longrightarrow> dec_blocks B c prev (enc_blocks B c prev ps) = ps"
  by (induction ps arbitrary: prev)
     (auto simp: blocks_ok_def Let_def decrypt_encrypt_block xor_blocks_twice)

lemma enc_blocks_append:
  "enc_blocks B c prev (ps @ qs) =
    enc_blocks B c prev ps @ enc_blocks B c (last (prev # enc_blocks B c prev ps)) qs"
  by (induction ps arbitrary: prev) (auto simp: Let_def)

lemma dec_blocks_append:
  "dec_blocks B c prev (ps @ qs) = dec_blocks B c prev ps @ dec_blocks B c (last (prev # ps)) qs"
  by (induction ps arbitrary: prev) auto

lemma chunks_blocks: "16 dvd length data \<Longrightarrow> blocks_ok (chunks 16 data)"
  by (auto simp: blocks_ok_def intro: chunks_full [of 16 data])

lemma length_concat_blocks: "blocks_ok bs \<Longrightarrow> length (concat bs) = 16 * length bs"
  by (induction bs) (auto simp: blocks_ok_def)

lemma data_blocks:
  assumes "16 dvd length data"
  obtains bs where "data = concat bs" and "blocks_ok bs"
  using that [of "chunks 16 data"] chunks_blocks [OF assms] by simp

lemma chunks_concat_blocks: "blocks_ok bs \<Longrightarrow> chunks 16 (concat bs) = bs"
  by (simp add: blocks_ok_def chunks_concat)

lemma concat_blocks_Nil: "blocks_ok bs \<Longrightarrow> concat bs = [] \<longleftrightarrow> bs = []"
  by (cases bs) (auto simp: blocks_ok_def)

lemma cbc_encrypt_blocks:
  assumes "blocks_ok bs"
  shows "cbc_encrypt B c (concat bs) = Inr (concat (enc_blocks B c (cbc_iv c) bs))"
proof -
  have "fst (fold (\<lambda>chunk (result, prev).
          let xored = xor_blocks chunk prev; ct = encrypt_block B c xored in (result @ ct, ct)) bs (r, p)) =
      r @ concat (enc_blocks B c p bs)" for r p
    by (induction bs arbitrary: r p) (simp_all add: Let_def)
  then show ?thesis
    using assms length_concat_blocks [OF assms]
    by (cases "bs = []") (simp_all add: cbc_encrypt_def chunks_concat_blocks concat_blocks_Nil del: concat_eq_Nil_conv)
qed

lemma cbc_decrypt_blocks:
  assumes "blocks_ok bs"
  shows "cbc_decrypt B c (concat bs) = Inr (concat (dec_blocks B c (cbc_iv c) bs))"
proof -
  have "fst (fold (\<lambda>ct (result, prev).
          let d = decrypt_block B c ct; pt = xor_blocks d prev in (result @ pt, ct)) bs (r, p)) =
      r @ concat (dec_blocks B c p bs)" for r p
    by (induction bs arbitrary: r p) (simp_all add: Let_def)
  then show ?thesis
    using assms length_concat_blocks [OF assms]
    by (cases "bs = []") (simp_all add: cbc_decrypt_def chunks_concat_blocks concat_blocks_Nil del: concat_eq_Nil_conv)
qed

text \<open>The in-place loops from a block boundary on, with the blocks before it already done.\<close>

lemma splice_block:
  "length pre = i \<Longrightarrow> length b = 16 \<Longrightarrow> length b' = 16 \<Longrightarrow> splice (pre @ b @ r) i b' = pre @ b' @ r"
  by (simp add: splice_def)

lemma enc_in_place_loop:
  assumes "cbc_ok B c" and "blocks_ok bs" and "length pre = 16 * k"
  shows "fst (fold (\<lambda>i (data, prev).
      let blk = slice data i (i + 16); blk1 = map (\<lambda>j. blk ! j XOR prev ! j) [0..<16];
          blk2 = encrypt_block B c blk1 in (splice data i blk2, blk2))
      (map (\<lambda>i. i * 16) [k ..< k + length bs]) (pre @ concat bs, prev)) =
    pre @ concat (enc_blocks B c prev bs)"
  using assms
proof (induction bs arbitrary: pre prev k)
  case (Cons b bs)
  let ?ct = "encrypt_block B c (xor_blocks b prev)"
  have len: "length b = 16" "length ?ct = 16" "blocks_ok bs"
    using Cons.prems by (auto simp: blocks_ok_def length_crypt_block)
  have sl: "slice (pre @ b @ concat bs) (k * 16) (k * 16 + 16) = b"
    using Cons.prems len by (intro slice_append_exact) simp_all
  have sp: "splice (pre @ b @ concat bs) (k * 16) ?ct = (pre @ ?ct) @ concat bs"
    using Cons.prems len by (simp add: splice_block)
  have "[k ..< k + length (b # bs)] = k # [Suc k ..< Suc k + length bs]"
    by (simp add: upt_conv_Cons del: upt_Suc)
  moreover have "length (pre @ ?ct) = 16 * Suc k" using Cons.prems len by simp
  ultimately show ?case
    using Cons.IH [of "pre @ ?ct" "Suc k" ?ct] len Cons.prems(1) sl sp
    by (simp add: Let_def xor_blocks_def del: upt_Suc)
qed simp

lemma dec_in_place_loop:
  assumes "cbc_ok B c" and "blocks_ok bs" and "length pre = 16 * k"
  shows "fst (fold (\<lambda>i (data, prev).
      let cur = slice data i (i + 16); blk1 = decrypt_block B c cur;
          blk2 = map (\<lambda>j. blk1 ! j XOR prev ! j) [0..<16] in (splice data i blk2, cur))
      (map (\<lambda>i. i * 16) [k ..< k + length bs]) (pre @ concat bs, prev)) =
    pre @ concat (dec_blocks B c prev bs)"
  using assms
proof (induction bs arbitrary: pre prev k)
  case (Cons b bs)
  let ?pt = "xor_blocks (decrypt_block B c b) prev"
  have len: "length b = 16" "blocks_ok bs" using Cons.prems by (auto simp: blocks_ok_def)
  have sl: "slice (pre @ b @ concat bs) (k * 16) (k * 16 + 16) = b"
    using Cons.prems len by (intro slice_append_exact) simp_all
  have sp: "splice (pre @ b @ concat bs) (k * 16) ?pt = (pre @ ?pt) @ concat bs"
    using Cons.prems len by (simp add: splice_block)
  have "[k ..< k + length (b # bs)] = k # [Suc k ..< Suc k + length bs]"
    by (simp add: upt_conv_Cons del: upt_Suc)
  moreover have "length (pre @ ?pt) = 16 * Suc k" using Cons.prems len by simp
  ultimately show ?case
    using Cons.IH [of "pre @ ?pt" "Suc k" b] len Cons.prems(1) sl sp
    by (simp add: Let_def xor_blocks_def del: upt_Suc)
qed simp

lemma step_by_blocks: "step_by (16 * n) 16 = map (\<lambda>i. i * 16) [0 ..< 0 + n]"
proof -
  have "(16 * n + 16 - 1) div 16 = n" by simp
  then show ?thesis by (simp add: step_by_def)
qed

lemma cbc_encrypt_in_place_blocks:
  assumes "cbc_ok B c" and "blocks_ok bs"
  shows "cbc_encrypt_in_place B c (concat bs) = Inr (concat (enc_blocks B c (cbc_iv c) bs))"
proof (cases "bs = []")
  case False
  then show ?thesis
    using enc_in_place_loop [OF assms, of "[]" 0 "cbc_iv c"] length_concat_blocks [OF assms(2)]
    by (simp add: cbc_encrypt_in_place_def step_by_blocks concat_blocks_Nil assms(2) del: concat_eq_Nil_conv)
qed (simp add: cbc_encrypt_in_place_def)

lemma cbc_decrypt_in_place_blocks:
  assumes "cbc_ok B c" and "blocks_ok bs"
  shows "cbc_decrypt_in_place B c (concat bs) = Inr (concat (dec_blocks B c (cbc_iv c) bs))"
proof (cases "bs = []")
  case False
  then show ?thesis
    using dec_in_place_loop [OF assms, of "[]" 0 "cbc_iv c"] length_concat_blocks [OF assms(2)]
    by (simp add: cbc_decrypt_in_place_def step_by_blocks concat_blocks_Nil assms(2) del: concat_eq_Nil_conv)
qed (simp add: cbc_decrypt_in_place_def)

text \<open>
  The in-place routines compute what the copying ones return, for every buffer, the
  refusal of a length that is not a multiple of sixteen included.
\<close>

theorem cbc_in_place_equivalent:
  assumes "cbc_ok B c"
  shows "cbc_encrypt_in_place B c data = cbc_encrypt B c data \<and>
    cbc_decrypt_in_place B c data = cbc_decrypt B c data"
proof (cases "16 dvd length data")
  case True
  then obtain bs where "data = concat bs" "blocks_ok bs" by (rule data_blocks)
  then show ?thesis
    using assms by (simp add: cbc_encrypt_in_place_blocks cbc_decrypt_in_place_blocks
      cbc_encrypt_blocks cbc_decrypt_blocks)
qed (simp add: cbc_encrypt_in_place_def cbc_encrypt_def cbc_decrypt_in_place_def cbc_decrypt_def)

text \<open>A block function for which the laws are evident: the key's first half as a mask.\<close>

definition mask_cipher :: block_cipher where
  "mask_cipher = \<lparr>bc_encrypt = (\<lambda>key b. xor_bytes b (take 16 key)),
                  bc_decrypt = (\<lambda>key b. xor_bytes b (take 16 key))\<rparr>"

lemma mask_cipher_ok: "block_cipher_ok mask_cipher"
  by (simp add: mask_cipher_def block_cipher_ok_def)

theorem cbc_in_place_equivalent_witness:
  "cbc_encrypt_in_place mask_cipher (cbc_new (replicate 32 5) (replicate 16 1)) (replicate 32 0) =
   cbc_encrypt mask_cipher (cbc_new (replicate 32 5) (replicate 16 1)) (replicate 32 0)"
  using cbc_in_place_equivalent [of mask_cipher "cbc_new (replicate 32 5) (replicate 16 1)" "replicate 32 0"]
  by (simp add: cbc_ok_def mask_cipher_ok cbc_new_def)

text \<open>
  Block chaining round trip across calls: the two calls that encrypt \<open>a\<close> and then \<open>b\<close>,
  the second with the last ciphertext block of the first as its vector, write the
  ciphertext of \<open>a @ b\<close>, and one decryption recovers it.
\<close>

theorem cbc_chained_roundtrip:
  assumes "cbc_ok B c" and "16 dvd length a" and "a \<noteq> []" and "16 dvd length b"
  shows "\<exists>x y. cbc_encrypt B c a = Inr x \<and> length x = length a \<and>
    cbc_encrypt B (c\<lparr>cbc_iv := drop (length x - 16) x\<rparr>) b = Inr y \<and> length y = length b \<and>
    cbc_encrypt B c (a @ b) = Inr (x @ y) \<and> cbc_decrypt B c (x @ y) = Inr (a @ b)"
proof -
  obtain as where a: "a = concat as" "blocks_ok as" using assms(2) by (rule data_blocks)
  obtain bs where b: "b = concat bs" "blocks_ok bs" using assms(4) by (rule data_blocks)
  let ?x = "enc_blocks B c (cbc_iv c) as"
  let ?last = "last ?x"
  have ne: "?x \<noteq> []" using a assms(3) by (cases as) (auto simp: Let_def)
  have okx: "blocks_ok ?x" using assms(1) by (rule enc_blocks_ok)
  have "concat ?x = concat (butlast ?x) @ ?last"
    using ne by (metis append_butlast_last_id concat.simps(1,2) concat_append append_Nil2)
  moreover have "length ?last = 16" using okx ne by (auto simp: blocks_ok_def)
  ultimately have iv: "drop (length (concat ?x) - 16) (concat ?x) = ?last" by simp
  have same: "enc_blocks B (c\<lparr>cbc_iv := v\<rparr>) p ps = enc_blocks B c p ps" for v p ps
    by (induction ps arbitrary: p) (simp_all add: encrypt_block_def Let_def)
  let ?y = "enc_blocks B c ?last bs"
  have oky: "blocks_ok ?y" using assms(1) by (rule enc_blocks_ok)
  have all: "enc_blocks B c (cbc_iv c) (as @ bs) = ?x @ ?y"
    using ne by (simp add: enc_blocks_append)
  have ab: "blocks_ok (as @ bs)" "blocks_ok (?x @ ?y)" using a b okx oky by (auto simp: blocks_ok_def)
  show ?thesis
  proof (intro exI conjI)
    show "cbc_encrypt B c a = Inr (concat ?x)" using a by (simp add: cbc_encrypt_blocks)
    show "length (concat ?x) = length a" using a okx by (simp add: length_concat_blocks)
    show "cbc_encrypt B (c\<lparr>cbc_iv := drop (length (concat ?x) - 16) (concat ?x)\<rparr>) b = Inr (concat ?y)"
      using b unfolding iv by (simp add: cbc_encrypt_blocks same)
    show "length (concat ?y) = length b" using b oky by (simp add: length_concat_blocks)
    show "cbc_encrypt B c (a @ b) = Inr (concat ?x @ concat ?y)"
      using cbc_encrypt_blocks [OF ab(1), of B c] a b all by simp
    show "cbc_decrypt B c (concat ?x @ concat ?y) = Inr (a @ b)"
      using cbc_decrypt_blocks [OF ab(2), of B c] dec_enc_blocks [OF assms(1) ab(1), of "cbc_iv c"] a b all
      by simp
  qed
qed

theorem cbc_chained_roundtrip_witness:
  "\<exists>x y. cbc_encrypt mask_cipher \<lparr>cbc_key = replicate 32 5, cbc_iv = replicate 16 1\<rparr> (replicate 16 0) = Inr x \<and>
    length x = length (replicate 16 (0 :: u8)) \<and>
    cbc_encrypt mask_cipher (\<lparr>cbc_key = replicate 32 5, cbc_iv = replicate 16 1\<rparr>
      \<lparr>cbc_iv := drop (length x - 16) x\<rparr>) (replicate 32 3) = Inr y \<and>
    length y = length (replicate 32 (3 :: u8)) \<and>
    cbc_encrypt mask_cipher \<lparr>cbc_key = replicate 32 5, cbc_iv = replicate 16 1\<rparr>
      (replicate 16 0 @ replicate 32 3) = Inr (x @ y) \<and>
    cbc_decrypt mask_cipher \<lparr>cbc_key = replicate 32 5, cbc_iv = replicate 16 1\<rparr> (x @ y) =
      Inr (replicate 16 0 @ replicate 32 3)"
  by (rule cbc_chained_roundtrip) (simp_all add: cbc_ok_def mask_cipher_ok)

end
