(* ===== verification/Rpc_Wire.thy ===== *)
theory Rpc_Wire
  imports Proxy_Error Proto_Constants
begin

section \<open>Payloads and key material of the middle-proxy protocol\<close>

text \<open>
  \<^verbatim>\<open>src/src/transport/middle_proxy/wire.rs\<close>: the address material of the handshake and the
  \<open>RPC_PROXY_REQ\<close> payload, written straight into a frame buffer; and the key derivation of
  \<^verbatim>\<open>src/src/crypto/hash.rs\<close>. The digests MD5 and SHA-1 are parameters, of which only the length
  of their output matters.
\<close>

abbreviation (input) "RPC_FLAG_HAS_AD_TAG \<equiv> (0x8 :: u32)"
abbreviation (input) "RPC_FLAG_MAGIC \<equiv> (0x1000 :: u32)"
abbreviation (input) "RPC_FLAG_EXTMODE2 \<equiv> (0x20000 :: u32)"
abbreviation (input) "RPC_FLAG_PAD \<equiv> (0x8000000 :: u32)"
abbreviation (input) "RPC_FLAG_INTERMEDIATE \<equiv> (0x20000000 :: u32)"
abbreviation (input) "RPC_FLAG_ABRIDGED \<equiv> (0x40000000 :: u32)"
abbreviation (input) "TL_PROXY_TAG_U32 \<equiv> (0xdb1e26ae :: u32)"
abbreviation (input) "RPC_PROXY_REQ_U32 \<equiv> (0x36cef1ee :: u32)"

text \<open>\<open>u32::from_le_bytes(d[i..i + 4])\<close> and its 64-bit sibling.\<close>

definition u32_at :: "bytes \<Rightarrow> nat \<Rightarrow> u32" where
  "u32_at d i = word_of_nat (from_le (slice d i (i + 4)))"

definition u64_at :: "bytes \<Rightarrow> nat \<Rightarrow> nat" where
  "u64_at d i = from_le (slice d i (i + 8))"

subsection \<open>Addresses\<close>

datatype ip_material = IM_V4 bytes | IM_V6 bytes

definition extract_ip_material :: "socket_addr \<Rightarrow> ip_material" where
  "extract_ip_material addr =
     (case sa_ip addr of
        IpV4 a b c d \<Rightarrow> IM_V4 (octets (IpV4 a b c d))
      | IpV6 v6 \<Rightarrow>
          (case to_ipv4_mapped v6 of
             Some (a, b, c, d) \<Rightarrow> IM_V4 (octets (IpV4 a b c d))
           | None \<Rightarrow> IM_V6 v6))"

definition ipv4_to_mapped_v6_c_compat :: "bytes \<Rightarrow> bytes" where
  "ipv4_to_mapped_v6_c_compat ip_octets =
     (let buf = replicate 16 0;
          buf1 = splice buf 8 (u32_to_le_bytes (- 0x10000))
      in splice buf1 12 ip_octets)"

definition append_mapped_addr_and_port :: "bytes \<Rightarrow> socket_addr \<Rightarrow> bytes" where
  "append_mapped_addr_and_port buf addr =
     (let buf1 = (case sa_ip addr of
                    IpV4 a b c d \<Rightarrow> buf @ ipv4_to_mapped_v6_c_compat (octets (IpV4 a b c d))
                  | IpV6 v6 \<Rightarrow> buf @ v6)
      in buf1 @ u32_to_le_bytes (word_of_nat (sa_port addr)))"

subsection \<open>The proxy request\<close>

definition proxy_tag_wire_len :: "bytes \<Rightarrow> nat" where
  "proxy_tag_wire_len tag =
     (if length tag < 254 then 4 + 1 + length tag + ((4 - ((1 + length tag) mod 4)) mod 4)
      else 4 + 4 + length tag + ((4 - (length tag mod 4)) mod 4))"

definition proxy_req_payload_len :: "nat \<Rightarrow> bytes option \<Rightarrow> u32 \<Rightarrow> nat" where
  "proxy_req_payload_len data_len proxy_tag proto_flags =
     (let base_len = 4 + 4 + 8 + 20 + 20;
          extra_len = (if proto_flags AND RPC_FLAG_HAS_AD_TAG \<noteq> 0
                       then 4 + (case proxy_tag of Some tag \<Rightarrow> proxy_tag_wire_len tag | None \<Rightarrow> 0)
                       else 0)
      in base_len + extra_len + data_len)"

definition append_proxy_tag :: "bytes \<Rightarrow> bytes \<Rightarrow> bytes" where
  "append_proxy_tag b tag =
     (let b1 = b @ u32_to_le_bytes TL_PROXY_TAG_U32 in
      if length tag < 254 then
        b1 @ [word_of_nat (length tag)] @ tag @ replicate ((4 - ((1 + length tag) mod 4)) mod 4) 0
      else
        b1 @ [0xfe] @ take 3 (u32_to_le_bytes (word_of_nat (length tag))) @ tag
          @ replicate ((4 - (length tag mod 4)) mod 4) 0)"

definition append_proxy_req_payload_into ::
  "bytes \<Rightarrow> nat \<Rightarrow> socket_addr \<Rightarrow> socket_addr \<Rightarrow> bytes \<Rightarrow> bytes option \<Rightarrow> u32 \<Rightarrow> bytes" where
  "append_proxy_req_payload_into b conn_id client_addr our_addr data proxy_tag proto_flags =
     (let b1 = b @ u32_to_le_bytes RPC_PROXY_REQ_U32 @ u32_to_le_bytes proto_flags @ le_bytes 8 conn_id;
          b2 = append_mapped_addr_and_port b1 client_addr;
          b3 = append_mapped_addr_and_port b2 our_addr;
          b4 = (if proto_flags AND RPC_FLAG_HAS_AD_TAG \<noteq> 0 then
                  let extra_start = length b3;
                      c = b3 @ u32_to_le_bytes 0;
                      c1 = (case proxy_tag of Some tag \<Rightarrow> append_proxy_tag c tag | None \<Rightarrow> c);
                      extra_bytes = word_of_nat (length c1 - extra_start - 4)
                  in splice c1 extra_start (u32_to_le_bytes extra_bytes)
                else b3)
      in b4 @ data)"

definition build_proxy_req_payload ::
  "nat \<Rightarrow> socket_addr \<Rightarrow> socket_addr \<Rightarrow> bytes \<Rightarrow> bytes option \<Rightarrow> u32 \<Rightarrow> bytes" where
  "build_proxy_req_payload conn_id client_addr our_addr data proxy_tag proto_flags =
     append_proxy_req_payload_into [] conn_id client_addr our_addr data proxy_tag proto_flags"

definition proto_flags_for_tag :: "proto_tag \<Rightarrow> bool \<Rightarrow> u32" where
  "proto_flags_for_tag tag has_proxy_tag =
     (let flags = RPC_FLAG_MAGIC OR RPC_FLAG_EXTMODE2;
          flags1 = (if has_proxy_tag then flags OR RPC_FLAG_HAS_AD_TAG else flags)
      in case tag of
           Abridged \<Rightarrow> flags1 OR RPC_FLAG_ABRIDGED
         | Intermediate \<Rightarrow> flags1 OR RPC_FLAG_INTERMEDIATE
         | Secure \<Rightarrow> flags1 OR RPC_FLAG_PAD OR RPC_FLAG_INTERMEDIATE)"

subsection \<open>Key derivation\<close>

record hash_env =
  h_md5 :: "bytes \<Rightarrow> bytes"
  h_sha1 :: "bytes \<Rightarrow> bytes"

definition hash_env_ok :: "hash_env \<Rightarrow> bool" where
  "hash_env_ok H \<longleftrightarrow> (\<forall>d. length (h_md5 H d) = 16 \<and> length (h_sha1 H d) = 20)"

text \<open>The arguments both functions take, in the order of the source.\<close>

record kdf_input =
  k_nonce_srv :: bytes
  k_nonce_clt :: bytes
  k_clt_ts :: bytes
  k_srv_ip :: "bytes option"
  k_clt_port :: bytes
  k_purpose :: bytes
  k_clt_ip :: "bytes option"
  k_srv_port :: bytes
  k_secret :: bytes
  k_clt_ipv6 :: "bytes option"
  k_srv_ipv6 :: "bytes option"

definition unwrap_or :: "'a option \<Rightarrow> 'a \<Rightarrow> 'a" where
  "unwrap_or x d = (case x of Some v \<Rightarrow> v | None \<Rightarrow> d)"

definition build_middleproxy_prekey :: "kdf_input \<Rightarrow> bytes" where
  "build_middleproxy_prekey k =
     (let EMPTY_IP = [0, 0, 0, 0];
          srv_ip = unwrap_or (k_srv_ip k) EMPTY_IP;
          clt_ip = unwrap_or (k_clt_ip k) EMPTY_IP;
          s = k_nonce_srv k @ k_nonce_clt k @ k_clt_ts k @ srv_ip @ k_clt_port k @ k_purpose k
              @ clt_ip @ k_srv_port k @ k_secret k @ k_nonce_srv k;
          s1 = (case (k_clt_ipv6 k, k_srv_ipv6 k) of
                  (Some clt_v6, Some srv_v6) \<Rightarrow> s @ clt_v6 @ srv_v6
                | _ \<Rightarrow> s)
      in s1 @ k_nonce_clt k)"

definition derive_middleproxy_keys :: "hash_env \<Rightarrow> kdf_input \<Rightarrow> bytes \<times> bytes" where
  "derive_middleproxy_keys H k =
     (let s = build_middleproxy_prekey k;
          md5_1 = h_md5 H (drop 1 s);
          sha1_sum = h_sha1 H s;
          md5_2 = h_md5 H (drop 2 s);
          key = splice (replicate 32 0) 0 (take 12 md5_1);
          key1 = splice key 12 sha1_sum
      in (key1, md5_2))"

subsection \<open>Lemmas\<close>

lemma from_le_u32 [simp]: "from_le (u32_to_le_bytes x) = unat x"
proof -
  have e: "from_le (u32_to_le_bytes x) = unat x mod 256 + unat x div 256 mod 256 * 256
      + unat x div 65536 mod 256 * 65536 + unat x div 16777216 mod 256 * 16777216"
    unfolding u32_to_le_bytes_def from_le.simps unat_u8_of_nat by simp
  show ?thesis by (rule trans [OF e base256_digits [OF unat_u32_less]])
qed

lemma unat_u32_of_nat: "n < 4294967296 \<Longrightarrow> unat (word_of_nat n :: u32) = n"
  by (simp add: unat_of_nat)

lemma u32_le_bytes: "u32_to_le_bytes x = le_bytes 4 (unat x)"
proof -
  have four: "(4 :: nat) = Suc (Suc (Suc (Suc 0)))" by simp
  show ?thesis
    unfolding four le_bytes.simps u32_to_le_bytes_def div_mult2_eq [symmetric] by simp
qed

lemma u32_bytes_at: "i + 4 \<le> length d \<Longrightarrow> u32_to_le_bytes (u32_at d i) = slice d i (i + 4)"
proof -
  assume "i + 4 \<le> length d"
  then have s: "length (slice d i (i + 4)) = 4" by simp
  then have "from_le (slice d i (i + 4)) < 4294967296" using from_le_less [of "slice d i (i + 4)"] by simp
  then show ?thesis
    using s by (simp add: u32_at_def u32_le_bytes unat_u32_of_nat le_bytes_from_le)
qed

lemma u32_at_append [simp]: "length a = i \<Longrightarrow> u32_at (a @ u32_to_le_bytes x @ b) i = x"
  by (simp add: u32_at_def slice_append_exact)

lemma u32_at_0 [simp]: "u32_at (u32_to_le_bytes x @ b) 0 = x"
  using u32_at_append [of "[]" 0] by simp

lemma u64_at_append: "length a = i \<Longrightarrow> v < 256 ^ 8 \<Longrightarrow> u64_at (a @ le_bytes 8 v @ b) i = v"
  by (simp add: u64_at_def slice_append_exact from_le_bytes)

lemma mapped_bytes:
  "ipv4_to_mapped_v6_c_compat [a, b, c, d] = replicate 10 0 @ [0xff, 0xff] @ [a, b, c, d]"
proof -
  have "u32_to_le_bytes (- 0x10000) = [0, 0, 0xff, 0xff]" by (simp add: u32_to_le_bytes_def)
  then show ?thesis
    by (simp add: ipv4_to_mapped_v6_c_compat_def splice_def Let_def numeral_eq_Suc)
qed

definition mapped_addr :: "socket_addr \<Rightarrow> bytes" where
  "mapped_addr addr = append_mapped_addr_and_port [] addr"

lemma append_mapped: "append_mapped_addr_and_port b addr = b @ mapped_addr addr"
  by (simp add: mapped_addr_def append_mapped_addr_and_port_def Let_def split: ip_addr.splits)

lemma length_mapped_addr [simp]: "ip_ok (sa_ip addr) \<Longrightarrow> length (mapped_addr addr) = 20"
  by (cases "sa_ip addr") (simp_all add: mapped_addr_def append_mapped_addr_and_port_def mapped_bytes)

lemma length_append_proxy_tag:
  "length (append_proxy_tag b tag) = length b + proxy_tag_wire_len tag"
  by (simp add: append_proxy_tag_def proxy_tag_wire_len_def Let_def)

lemma tag_wire_len_dvd: "4 dvd proxy_tag_wire_len tag"
proof (cases "length tag < 254")
  case True
  have "4 dvd 4 + (1 + length tag + (4 - (1 + length tag) mod 4) mod 4)"
    by (intro dvd_add dvd_refl pad_dvd) simp
  with True show ?thesis unfolding proxy_tag_wire_len_def by (simp only: if_True add.assoc)
next
  case False
  have "4 dvd 4 + (4 + (length tag + (4 - length tag mod 4) mod 4))"
    by (intro dvd_add dvd_refl pad_dvd) simp
  with False show ?thesis unfolding proxy_tag_wire_len_def by (simp only: if_False add.assoc)
qed

lemma append_proxy_tag_append: "append_proxy_tag b tag = b @ append_proxy_tag [] tag"
  by (simp add: append_proxy_tag_def Let_def)

definition proxy_extra :: "bytes option \<Rightarrow> bytes" where
  "proxy_extra proxy_tag = (case proxy_tag of Some tag \<Rightarrow> append_proxy_tag [] tag | None \<Rightarrow> [])"

lemma length_proxy_extra:
  "length (proxy_extra proxy_tag) = (case proxy_tag of Some tag \<Rightarrow> proxy_tag_wire_len tag | None \<Rightarrow> 0)"
  by (simp add: proxy_extra_def length_append_proxy_tag split: option.splits)

lemma splice_at_end:
  "length a = i \<Longrightarrow> length x = length y \<Longrightarrow> splice (a @ x @ b) i y = a @ y @ b"
  by (simp add: splice_def)

lemma append_proxy_extra:
  "(case proxy_tag of Some tag \<Rightarrow> append_proxy_tag c tag | None \<Rightarrow> c) = c @ proxy_extra proxy_tag"
  by (cases proxy_tag) (simp_all add: proxy_extra_def append_proxy_tag_append [of c])

text \<open>The payload as one concatenation, whatever stood in the buffer before.\<close>

lemma extra_block:
  "(let extra_start = length b; c = b @ u32_to_le_bytes 0;
        c1 = (case proxy_tag of Some tag \<Rightarrow> append_proxy_tag c tag | None \<Rightarrow> c);
        extra_bytes = word_of_nat (length c1 - extra_start - 4)
    in splice c1 extra_start (u32_to_le_bytes extra_bytes)) =
   b @ u32_to_le_bytes (word_of_nat (length (proxy_extra proxy_tag))) @ proxy_extra proxy_tag"
  by (simp add: Let_def append_proxy_extra splice_at_end)

lemma append_proxy_req_layout:
  "append_proxy_req_payload_into b conn_id client_addr our_addr data proxy_tag proto_flags =
    b @ u32_to_le_bytes RPC_PROXY_REQ_U32 @ u32_to_le_bytes proto_flags @ le_bytes 8 conn_id
      @ mapped_addr client_addr @ mapped_addr our_addr
      @ (if proto_flags AND RPC_FLAG_HAS_AD_TAG \<noteq> 0
         then u32_to_le_bytes (word_of_nat (length (proxy_extra proxy_tag))) @ proxy_extra proxy_tag else [])
      @ data"
  unfolding append_proxy_req_payload_into_def append_mapped extra_block
  by (cases "proto_flags AND RPC_FLAG_HAS_AD_TAG = 0") (simp_all add: Let_def)

text \<open>
  The length computed ahead for the frame header is the length of the payload written:
  for valid addresses the writer appends exactly \<open>proxy_req_payload_len\<close> bytes behind what the
  buffer holds, and a payload that is a multiple of four stays one.
\<close>

theorem proxy_req_len_exact:
  assumes "addr_ok client_addr" and "addr_ok our_addr"
  shows "length (append_proxy_req_payload_into b conn_id client_addr our_addr data proxy_tag proto_flags) =
      length b + proxy_req_payload_len (length data) proxy_tag proto_flags \<and>
    (4 dvd proxy_req_payload_len (length data) proxy_tag proto_flags \<longleftrightarrow> 4 dvd length data)"
proof
  have "ip_ok (sa_ip client_addr)" "ip_ok (sa_ip our_addr)" using assms by (auto simp: addr_ok_def)
  then show "length (append_proxy_req_payload_into b conn_id client_addr our_addr data proxy_tag proto_flags) =
      length b + proxy_req_payload_len (length data) proxy_tag proto_flags"
    by (simp add: append_proxy_req_layout proxy_req_payload_len_def length_proxy_extra Let_def)
  have "4 dvd 4 + (case proxy_tag of Some tag \<Rightarrow> proxy_tag_wire_len tag | None \<Rightarrow> 0)"
    by (auto simp: tag_wire_len_dvd split: option.splits)
  then show "4 dvd proxy_req_payload_len (length data) proxy_tag proto_flags \<longleftrightarrow> 4 dvd length data"
    unfolding proxy_req_payload_len_def Let_def
    by (cases "proto_flags AND RPC_FLAG_HAS_AD_TAG = 0") (simp_all add: dvd_add_right_iff add.assoc)
qed

theorem proxy_req_len_exact_witness:
  "length (append_proxy_req_payload_into [] 7 \<lparr>sa_ip = IpV4 1 2 3 4, sa_port = 5\<rparr>
     \<lparr>sa_ip = IpV6 (replicate 16 0), sa_port = 6\<rparr> [1, 2, 3, 4] (Some (replicate 16 9)) 8) = 88"
  using proxy_req_len_exact [of "\<lparr>sa_ip = IpV4 1 2 3 4, sa_port = 5\<rparr>"
      "\<lparr>sa_ip = IpV6 (replicate 16 0), sa_port = 6\<rparr>" "[]" 7 "[1, 2, 3, 4]" "Some (replicate 16 9)" 8]
  by (simp add: addr_ok_def proxy_req_payload_len_def proxy_tag_wire_len_def)

text \<open>
  The fields of a proxy request stand where the format puts them: type, flags and
  connection identifier in front, the two mapped addresses, and the data at the offset that
  the length field of the extra block announces, or right behind the addresses without it.
\<close>

theorem proxy_req_fields:
  assumes "addr_ok client_addr" and "addr_ok our_addr" and "conn_id \<le> U64_MAX"
    and "length (proxy_extra proxy_tag) \<le> U32_MAX"
    and p_def: "p = build_proxy_req_payload conn_id client_addr our_addr data proxy_tag proto_flags"
  shows "u32_at p 0 = RPC_PROXY_REQ_U32 \<and> u32_at p 4 = proto_flags \<and> u64_at p 8 = conn_id \<and>
    slice p 16 36 = mapped_addr client_addr \<and> slice p 36 56 = mapped_addr our_addr \<and>
    drop (if proto_flags AND RPC_FLAG_HAS_AD_TAG \<noteq> 0 then 60 + unat (u32_at p 56) else 56) p = data"
proof -
  let ?h0 = "u32_to_le_bytes RPC_PROXY_REQ_U32" and ?h4 = "u32_to_le_bytes proto_flags"
  let ?h8 = "le_bytes 8 conn_id" and ?a = "mapped_addr client_addr" and ?o = "mapped_addr our_addr"
  let ?n = "u32_to_le_bytes (word_of_nat (length (proxy_extra proxy_tag)))"
  let ?x = "if proto_flags AND RPC_FLAG_HAS_AD_TAG \<noteq> 0 then ?n @ proxy_extra proxy_tag else []"
  have len: "length ?a = 20" "length ?o = 20" using assms by (auto simp: addr_ok_def)
  have p: "p = ?h0 @ ?h4 @ ?h8 @ ?a @ ?o @ ?x @ data"
    unfolding p_def build_proxy_req_payload_def append_proxy_req_layout by simp
  have "u32_at p 0 = RPC_PROXY_REQ_U32" unfolding p by simp
  moreover have "u32_at p 4 = proto_flags"
    unfolding p using u32_at_append [of ?h0 4 proto_flags] by simp
  moreover have "conn_id < 256 ^ 8" using assms(3) by simp
  then have "u64_at p 8 = conn_id"
    unfolding p using u64_at_append [of "?h0 @ ?h4" 8 conn_id] by simp
  moreover have "slice p 16 36 = ?a"
    unfolding p using slice_append_exact [of "?h0 @ ?h4 @ ?h8" 16 36 ?a] len by simp
  moreover have "slice p 36 56 = ?o"
    unfolding p using slice_append_exact [of "?h0 @ ?h4 @ ?h8 @ ?a" 36 56 ?o] len by simp
  moreover have "drop (if proto_flags AND RPC_FLAG_HAS_AD_TAG \<noteq> 0 then 60 + unat (u32_at p 56) else 56) p = data"
  proof (cases "proto_flags AND RPC_FLAG_HAS_AD_TAG = 0")
    case True
    then show ?thesis unfolding p using len by simp
  next
    case False
    then have "u32_at p 56 = word_of_nat (length (proxy_extra proxy_tag))"
      unfolding p using u32_at_append [of "?h0 @ ?h4 @ ?h8 @ ?a @ ?o" 56] len by simp
    moreover have "unat (word_of_nat (length (proxy_extra proxy_tag)) :: u32) = length (proxy_extra proxy_tag)"
      using assms(4) by (intro unat_u32_of_nat) simp
    ultimately show ?thesis unfolding p using False len by simp
  qed
  ultimately show ?thesis by blast
qed

theorem proxy_req_fields_witness:
  "u64_at (build_proxy_req_payload 7 \<lparr>sa_ip = IpV4 1 2 3 4, sa_port = 5\<rparr>
     \<lparr>sa_ip = IpV4 5 6 7 8, sa_port = 6\<rparr> [1, 2, 3, 4] None 8) 8 = 7"
  using proxy_req_fields [of "\<lparr>sa_ip = IpV4 1 2 3 4, sa_port = 5\<rparr>"
      "\<lparr>sa_ip = IpV4 5 6 7 8, sa_port = 6\<rparr>" 7 None _ "[1, 2, 3, 4]" 8]
  by (simp add: addr_ok_def proxy_extra_def)

text \<open>
  Address material: an IPv4 address and its mapped IPv6 form contribute the same four
  octets to the key derivation, and the mapped form written on the wire is the standard
  one.
\<close>

theorem ip_material_mapped:
  "extract_ip_material \<lparr>sa_ip = IpV6 (ipv4_to_mapped_v6_c_compat [a, b, c, d]), sa_port = p\<rparr> =
     extract_ip_material \<lparr>sa_ip = IpV4 a b c d, sa_port = q\<rparr> \<and>
   extract_ip_material \<lparr>sa_ip = IpV4 a b c d, sa_port = q\<rparr> = IM_V4 [a, b, c, d] \<and>
   to_ipv4_mapped (ipv4_to_mapped_v6_c_compat [a, b, c, d]) = Some (a, b, c, d)"
  by (simp add: extract_ip_material_def mapped_bytes to_ipv4_mapped_def nth_append eval_nat_numeral)



end
