(* ===== verification/Rpc_Codec.thy ===== *)
theory Rpc_Codec
  imports Aes_Modes Rpc_Wire
begin

section \<open>RPC frames and the encrypting writer\<close>

text \<open>
  \<^verbatim>\<open>src/src/transport/middle_proxy/codec.rs\<close>: frames with length, sequence number and
  checksum, the nonce and handshake payloads, the padded CBC helpers, and \<open>RpcWriter\<close>, which
  numbers, encrypts and writes frames; and the command loop of \<^verbatim>\<open>pool_writer.rs\<close> that drives it. The two
  checksums come from crates and are parameters. The outcome of a socket write, the
  capacity the allocator gave the frame buffer and the arrival of commands are inputs. A
  sequence number of type \<open>i32\<close> is kept as its 32 bits.
\<close>

abbreviation (input) "RPC_NONCE_U32 \<equiv> (0x7acb87aa :: u32)"
abbreviation (input) "RPC_HANDSHAKE_U32 \<equiv> (0x7682eef5 :: u32)"
abbreviation (input) "RPC_CRYPTO_AES_U32 \<equiv> (1 :: u32)"
abbreviation (input) "USE_CRC32C \<equiv> (0x800 :: u32)"
abbreviation (input) "MAX_RPC_FRAME \<equiv> (16777216 :: nat)"
abbreviation (input) "FRAME_BUF_SHRINK_THRESHOLD \<equiv> (262144 :: nat)"

subsection \<open>Commands and checksums\<close>

record proxy_req_command =
  pr_conn_id :: nat
  pr_client_addr :: socket_addr
  pr_our_addr :: socket_addr
  pr_proto_flags :: u32
  pr_proxy_tag :: "bytes option"
  pr_payload :: bytes

datatype writer_command =
    Data bytes
  | DataAndFlush bytes
  | ProxyReq proxy_req_command
  | ControlAndFlush bytes
  | Close

datatype rpc_checksum_mode = Crc32 | Crc32c

definition from_handshake_flags :: "u32 \<Rightarrow> rpc_checksum_mode" where
  "from_handshake_flags flags = (if flags AND USE_CRC32C \<noteq> 0 then Crc32c else Crc32)"

fun advertised_flags :: "rpc_checksum_mode \<Rightarrow> u32" where
  "advertised_flags Crc32 = 0"
| "advertised_flags Crc32c = USE_CRC32C"

record crc_env =
  crc32_fn :: "bytes \<Rightarrow> u32"
  crc32c_fn :: "bytes \<Rightarrow> u32"

fun rpc_crc :: "crc_env \<Rightarrow> rpc_checksum_mode \<Rightarrow> bytes \<Rightarrow> u32" where
  "rpc_crc E Crc32 data = crc32_fn E data"
| "rpc_crc E Crc32c data = crc32c_fn E data"

definition build_control_payload :: "u32 \<Rightarrow> nat \<Rightarrow> bytes" where
  "build_control_payload tag value = u32_to_le_bytes tag @ le_bytes 8 value"

subsection \<open>Frames\<close>

definition build_rpc_frame_into :: "crc_env \<Rightarrow> u32 \<Rightarrow> bytes \<Rightarrow> rpc_checksum_mode \<Rightarrow> bytes" where
  "build_rpc_frame_into E seq_no payload crc_mode =
     (let total_len = 4 + 4 + length payload + 4;
          frame = u32_to_le_bytes (word_of_nat total_len) @ u32_to_le_bytes seq_no @ payload;
          c = rpc_crc E crc_mode frame
      in frame @ u32_to_le_bytes c)"

definition build_rpc_frame :: "crc_env \<Rightarrow> u32 \<Rightarrow> bytes \<Rightarrow> rpc_checksum_mode \<Rightarrow> bytes" where
  "build_rpc_frame E seq_no payload crc_mode = build_rpc_frame_into E seq_no payload crc_mode"

definition read_rpc_frame_plaintext :: "crc_env \<Rightarrow> bytes \<Rightarrow> proxy_error + (u32 \<times> bytes) \<times> bytes" where
  "read_rpc_frame_plaintext E rd =
     (case read_exact 4 rd of
        None \<Rightarrow> Inl (Io IO_UnexpectedEof)
      | Some (len_buf, rd1) \<Rightarrow>
          let total_len = from_le len_buf in
          if total_len < 12 \<or> MAX_RPC_FRAME < total_len then Inl InvalidHandshake
          else (case read_exact (total_len - 4) rd1 of
                  None \<Rightarrow> Inl (Io IO_UnexpectedEof)
                | Some (rest, rd2) \<Rightarrow>
                    let full = len_buf @ rest;
                        crc_offset = total_len - 4;
                        expected_crc = u32_at full crc_offset;
                        actual_crc = rpc_crc E Crc32 (take crc_offset full)
                    in if expected_crc \<noteq> actual_crc then Inl InvalidHandshake
                       else Inr ((u32_at full 4, slice full 8 crc_offset), rd2)))"

subsection \<open>Nonce and handshake payloads\<close>

definition build_nonce_payload :: "u32 \<Rightarrow> u32 \<Rightarrow> bytes \<Rightarrow> bytes" where
  "build_nonce_payload key_selector crypto_ts nonce =
     u32_to_le_bytes RPC_NONCE_U32 @ u32_to_le_bytes key_selector @ u32_to_le_bytes RPC_CRYPTO_AES_U32
       @ u32_to_le_bytes crypto_ts @ nonce"

definition parse_nonce_payload :: "bytes \<Rightarrow> proxy_error + u32 \<times> u32 \<times> u32 \<times> bytes" where
  "parse_nonce_payload d =
     (if length d < 32 then Inl InvalidHandshake
      else let t = u32_at d 0 in
        if t \<noteq> RPC_NONCE_U32 then Inl InvalidHandshake
        else Inr (u32_at d 4, u32_at d 8, u32_at d 12, slice d 16 32))"

text \<open>The process identifier and the wall clock in nanoseconds since the epoch are inputs.\<close>

definition process_pid16 :: "nat \<Rightarrow> nat" where
  "process_pid16 pid = pid AND 0xffff"

definition process_utime :: "int \<Rightarrow> u32" where
  "process_utime now = (if now < 0 then 0 else word_of_int (now div 1000000000))"

definition build_handshake_payload ::
  "nat \<Rightarrow> int \<Rightarrow> bytes \<Rightarrow> nat \<Rightarrow> bytes \<Rightarrow> nat \<Rightarrow> u32 \<Rightarrow> bytes" where
  "build_handshake_payload pid now our_ip our_port peer_ip peer_port flags =
     u32_to_le_bytes RPC_HANDSHAKE_U32 @ u32_to_le_bytes flags
       @ our_ip @ le_bytes 2 our_port @ le_bytes 2 (process_pid16 pid) @ u32_to_le_bytes (process_utime now)
       @ peer_ip @ le_bytes 2 peer_port @ le_bytes 2 0 @ u32_to_le_bytes 0"

definition parse_handshake_flags :: "bytes \<Rightarrow> proxy_error + u32" where
  "parse_handshake_flags payload =
     (if length payload \<noteq> 32 then Inl InvalidHandshake
      else if u32_at payload 0 \<noteq> RPC_HANDSHAKE_U32 then Inl InvalidHandshake
      else Inr (u32_at payload 4))"

subsection \<open>Padded block chaining\<close>

definition pad_bytes :: "nat \<Rightarrow> bytes" where
  "pad_bytes pad = map (\<lambda>i. [0x04, 0x00, 0x00, 0x00] ! (i mod 4)) [0..<pad]"

definition pad_to_block :: "bytes \<Rightarrow> bytes" where
  "pad_to_block buf = buf @ pad_bytes ((16 - length buf mod 16) mod 16)"

definition last_block :: "bytes \<Rightarrow> bytes \<Rightarrow> bytes" where
  "last_block default_iv buf = (if length buf \<ge> 16 then drop (length buf - 16) buf else default_iv)"

definition cbc_encrypt_padded ::
  "block_cipher \<Rightarrow> bytes \<Rightarrow> bytes \<Rightarrow> bytes \<Rightarrow> proxy_error + bytes \<times> bytes" where
  "cbc_encrypt_padded B key iv plaintext =
     (case cbc_encrypt_in_place B (cbc_new key iv) (pad_to_block plaintext) of
        Inl e \<Rightarrow> Inl Crypto
      | Inr buf \<Rightarrow> Inr (buf, last_block (replicate 16 0) buf))"

definition cbc_decrypt_inplace ::
  "block_cipher \<Rightarrow> bytes \<Rightarrow> bytes \<Rightarrow> bytes \<Rightarrow> proxy_error + bytes \<times> bytes" where
  "cbc_decrypt_inplace B key iv data =
     (let new_iv = last_block (replicate 16 0) data in
      case cbc_decrypt_in_place B (cbc_new key iv) data of
        Inl e \<Rightarrow> Inl Crypto
      | Inr buf \<Rightarrow> Inr (buf, new_iv))"

subsection \<open>The writer\<close>

text \<open>\<open>rw_out\<close> is what the socket has accepted so far.\<close>

record rpc_writer =
  rw_out :: bytes
  rw_key :: bytes
  rw_iv :: bytes
  rw_seq_no :: u32
  rw_crc_mode :: rpc_checksum_mode
  rw_frame_buf :: bytes

text \<open>
  One write: \<open>None\<close> when \<open>write_all\<close> succeeds, or the error together with the number of
  bytes accepted before it; the capacity of the frame buffer; the outcome of a flush.
\<close>

record write_env =
  we_write :: "(io_error_kind \<times> nat) option"
  we_capacity :: nat
  we_flush :: "io_error_kind option"

definition encrypt_and_write_frame ::
  "block_cipher \<Rightarrow> write_env \<Rightarrow> rpc_writer \<Rightarrow> (proxy_error + unit) \<times> rpc_writer" where
  "encrypt_and_write_frame B W w =
     (let buf1 = pad_to_block (rw_frame_buf w) in
      case cbc_encrypt_in_place B (cbc_new (rw_key w) (rw_iv w)) buf1 of
        Inl e \<Rightarrow> (Inl Crypto, w\<lparr>rw_frame_buf := buf1\<rparr>)
      | Inr buf2 \<Rightarrow>
          let w1 = w\<lparr>rw_frame_buf := buf2, rw_iv := last_block (rw_iv w) buf2\<rparr>;
              (write_result, w2) =
                (case we_write W of
                   None \<Rightarrow> (Inr (), w1\<lparr>rw_out := rw_out w1 @ buf2\<rparr>)
                 | Some (e, n) \<Rightarrow> (Inl (Io e), w1\<lparr>rw_out := rw_out w1 @ take n buf2\<rparr>));
              w3 = (if we_capacity W > FRAME_BUF_SHRINK_THRESHOLD then w2\<lparr>rw_frame_buf := []\<rparr> else w2)
          in (write_result, w3))"

definition send :: "crc_env \<Rightarrow> block_cipher \<Rightarrow> write_env \<Rightarrow> bytes \<Rightarrow> rpc_writer \<Rightarrow> (proxy_error + unit) \<times> rpc_writer" where
  "send E B W payload w =
     (let w1 = w\<lparr>rw_frame_buf := build_rpc_frame_into E (rw_seq_no w) payload (rw_crc_mode w)\<rparr>;
          w2 = w1\<lparr>rw_seq_no := rw_seq_no w1 + 1\<rparr>
      in encrypt_and_write_frame B W w2)"

definition send_proxy_req ::
  "crc_env \<Rightarrow> block_cipher \<Rightarrow> write_env \<Rightarrow> proxy_req_command \<Rightarrow> rpc_writer \<Rightarrow> (proxy_error + unit) \<times> rpc_writer" where
  "send_proxy_req E B W command w =
     (let payload_len = proxy_req_payload_len (length (pr_payload command)) (pr_proxy_tag command)
                          (pr_proto_flags command);
          total_len = 4 + 4 + payload_len + 4;
          buf = u32_to_le_bytes (word_of_nat total_len) @ u32_to_le_bytes (rw_seq_no w);
          buf1 = append_proxy_req_payload_into buf (pr_conn_id command) (pr_client_addr command)
                   (pr_our_addr command) (pr_payload command) (pr_proxy_tag command) (pr_proto_flags command);
          c = rpc_crc E (rw_crc_mode w) buf1;
          w1 = w\<lparr>rw_frame_buf := buf1 @ u32_to_le_bytes c\<rparr>;
          w2 = w1\<lparr>rw_seq_no := rw_seq_no w1 + 1\<rparr>
      in encrypt_and_write_frame B W w2)"

definition send_and_flush ::
  "crc_env \<Rightarrow> block_cipher \<Rightarrow> write_env \<Rightarrow> bytes \<Rightarrow> rpc_writer \<Rightarrow> (proxy_error + unit) \<times> rpc_writer" where
  "send_and_flush E B W payload w =
     (case send E B W payload w of
        (Inl e, w1) \<Rightarrow> (Inl e, w1)
      | (Inr _, w1) \<Rightarrow>
          (case we_flush W of None \<Rightarrow> (Inr (), w1) | Some e \<Rightarrow> (Inl (Io e), w1)))"

text \<open>
  The command loop over the events of its \<open>select!\<close>: cancellation, or what the command
  channel yields (\<open>None\<close> once it is closed) with the outcome of the write it causes. The
  result is \<open>None\<close> while the loop waits for another event.
\<close>

datatype writer_event = Cancelled | Recv "writer_command option" write_env

fun writer_command_loop ::
  "crc_env \<Rightarrow> block_cipher \<Rightarrow> rpc_writer \<Rightarrow> writer_event list \<Rightarrow> (proxy_error + unit) option \<times> rpc_writer" where
  "writer_command_loop E B w [] = (None, w)"
| "writer_command_loop E B w (Cancelled # evs) = (Some (Inr ()), w)"
| "writer_command_loop E B w (Recv cmd W # evs) =
     (let continue_with = (\<lambda>(res, w1). case res of
            Inl e \<Rightarrow> (Some (Inl e), w1) | Inr _ \<Rightarrow> writer_command_loop E B w1 evs)
      in case cmd of
           Some (Data payload) \<Rightarrow> continue_with (send E B W payload w)
         | Some (DataAndFlush payload) \<Rightarrow> continue_with (send_and_flush E B W payload w)
         | Some (ProxyReq command) \<Rightarrow> continue_with (send_proxy_req E B W command w)
         | Some (ControlAndFlush payload) \<Rightarrow> continue_with (send_and_flush E B W payload w)
         | Some Close \<Rightarrow> (Some (Inr ()), w)
         | None \<Rightarrow> (Some (Inr ()), w))"

subsection \<open>Frame round trip\<close>

definition frame_fits :: "bytes \<Rightarrow> bool" where
  "frame_fits payload \<longleftrightarrow> length payload + 12 \<le> MAX_RPC_FRAME"

lemma frame_len_word: "frame_fits p \<Longrightarrow> unat (word_of_nat (length p + 12) :: u32) = length p + 12"
  by (rule unat_u32_of_nat) (simp add: frame_fits_def)

definition frame_head :: "u32 \<Rightarrow> bytes \<Rightarrow> bytes" where
  "frame_head seq p = u32_to_le_bytes (word_of_nat (length p + 12)) @ u32_to_le_bytes seq @ p"

lemma length_frame_head [simp]: "length (frame_head seq p) = length p + 8"
  by (simp add: frame_head_def)

lemma build_rpc_frame_split:
  "build_rpc_frame_into E seq p mode = frame_head seq p @ u32_to_le_bytes (rpc_crc E mode (frame_head seq p))"
  by (simp add: build_rpc_frame_into_def Let_def frame_head_def add.commute)

lemma length_build_rpc_frame [simp]: "length (build_rpc_frame_into E seq p mode) = length p + 12"
  by (simp add: build_rpc_frame_split)

lemma frame_head_fields:
  "u32_at (frame_head seq p @ r) 0 = word_of_nat (length p + 12)"
  "u32_at (frame_head seq p @ r) 4 = seq"
  "slice (frame_head seq p @ r) 8 (length p + 8) = p"
  using u32_at_append [of "u32_to_le_bytes (word_of_nat (length p + 12))" 4 seq "p @ r"]
    slice_append_exact [of "u32_to_le_bytes (word_of_nat (length p + 12)) @ u32_to_le_bytes seq" 8 "length p + 8" p r]
  by (simp_all add: frame_head_def del: of_nat_add)

text \<open>A byte string whose header announces its length is a frame head followed by four bytes.\<close>

lemma frame_bytes_split:
  assumes "12 \<le> length f" and "from_le (take 4 f) = length f"
  shows "f = frame_head (u32_at f 4) (slice f 8 (length f - 4)) @ u32_to_le_bytes (u32_at f (length f - 4))"
proof -
  let ?p = "slice f 8 (length f - 4)"
  have "length ?p + 12 = length f" using assms(1) by simp
  moreover have "u32_at f 0 = word_of_nat (length f)"
    using assms(2) by (simp add: u32_at_def slice_def)
  ultimately have a: "u32_to_le_bytes (word_of_nat (length ?p + 12)) = slice f 0 4"
    using u32_bytes_at [of 0 f] assms(1) by simp
  have b: "u32_to_le_bytes (u32_at f 4) = slice f 4 8" using u32_bytes_at [of 4 f] assms(1) by simp
  have c: "u32_to_le_bytes (u32_at f (length f - 4)) = slice f (length f - 4) (length f)"
    using u32_bytes_at [of "length f - 4" f] assms(1) by simp
  have cut: "slice f i j @ slice f j k = slice f i k" if "i \<le> j" "j \<le> k" for i j k
    using that take_add [of "j - i" "k - j" "drop i f"] by (simp add: slice_def add.commute)
  have "slice f 0 4 @ slice f 4 8 @ ?p @ slice f (length f - 4) (length f) = slice f 0 (length f)"
    using assms(1) by (simp add: cut)
  then show ?thesis unfolding frame_head_def a b c by (simp add: slice_def)
qed

lemma read_frame_step:
  assumes "length len_buf = 4" and "from_le len_buf = k + 4" and "8 \<le> k" and "k + 4 \<le> MAX_RPC_FRAME"
    and "length tail = k"
  shows "read_rpc_frame_plaintext E (len_buf @ tail @ rest) =
    (if u32_at (len_buf @ tail) k \<noteq> rpc_crc E Crc32 (take k (len_buf @ tail)) then Inl InvalidHandshake
     else Inr ((u32_at (len_buf @ tail) 4, slice (len_buf @ tail) 8 k), rest))"
  using assms by (simp add: read_rpc_frame_plaintext_def Let_def)

text \<open>
  C34. Plaintext frames: what the reader accepts is exactly what the builder writes. Every
  payload that fits the frame limit is read back with its sequence number and leaves the
  following bytes in the stream, and a successful read has taken a frame of the builder.
\<close>

theorem rpc_plaintext_roundtrip:
  "(frame_fits p \<longrightarrow>
     read_rpc_frame_plaintext E (build_rpc_frame E seq p Crc32 @ rest) = Inr ((seq, p), rest)) \<and>
   (read_rpc_frame_plaintext E s = Inr ((seq, p), rest) \<longrightarrow>
     frame_fits p \<and> s = build_rpc_frame E seq p Crc32 @ rest)"
proof (rule conjI; rule impI)
  assume fits: "frame_fits p"
  let ?len = "u32_to_le_bytes (word_of_nat (length p + 12))"
  let ?crc = "u32_to_le_bytes (rpc_crc E Crc32 (frame_head seq p))"
  let ?tail = "u32_to_le_bytes seq @ p @ ?crc"
  have n: "from_le ?len = length p + 12"
    using frame_len_word [OF fits] by (simp del: of_nat_add)
  have full: "?len @ ?tail = frame_head seq p @ ?crc" by (simp add: frame_head_def)
  have "build_rpc_frame E seq p Crc32 @ rest = ?len @ ?tail @ rest"
    using full by (simp add: build_rpc_frame_def build_rpc_frame_split)
  moreover have "u32_at (frame_head seq p @ ?crc) (length p + 8) = rpc_crc E Crc32 (frame_head seq p)"
    using u32_at_append [of "frame_head seq p" "length p + 8" _ "[]"] by simp
  moreover have "take (length p + 8) (frame_head seq p @ ?crc) = frame_head seq p" by simp
  moreover have "read_rpc_frame_plaintext E (?len @ ?tail @ rest) =
      (if u32_at (?len @ ?tail) (length p + 8) \<noteq> rpc_crc E Crc32 (take (length p + 8) (?len @ ?tail))
       then Inl InvalidHandshake
       else Inr ((u32_at (?len @ ?tail) 4, slice (?len @ ?tail) 8 (length p + 8)), rest))"
    using fits n by (intro read_frame_step) (simp_all add: frame_fits_def)
  ultimately show "read_rpc_frame_plaintext E (build_rpc_frame E seq p Crc32 @ rest) = Inr ((seq, p), rest)"
    unfolding full by (simp add: frame_head_fields)
next
  assume ok: "read_rpc_frame_plaintext E s = Inr ((seq, p), rest)"
  then obtain len_buf s1 where h: "read_exact 4 s = Some (len_buf, s1)"
    by (auto simp: read_rpc_frame_plaintext_def split: option.splits)
  define n where "n = from_le len_buf"
  from ok h obtain tail where t: "read_exact (n - 4) s1 = Some (tail, rest)"
    and n: "12 \<le> n" "n \<le> MAX_RPC_FRAME"
    and crc: "u32_at (len_buf @ tail) (n - 4) = rpc_crc E Crc32 (take (n - 4) (len_buf @ tail))"
    and seq: "seq = u32_at (len_buf @ tail) 4" and p: "p = slice (len_buf @ tail) 8 (n - 4)"
    by (auto simp: read_rpc_frame_plaintext_def Let_def n_def [symmetric] split: option.splits if_splits)
  let ?f = "len_buf @ tail"
  have len: "length ?f = n" "length len_buf = 4" and s: "s = ?f @ rest"
    using read_exact_SomeD [OF h] read_exact_SomeD [OF t] n by auto
  have f: "?f = frame_head seq p @ u32_to_le_bytes (u32_at ?f (n - 4))"
    using frame_bytes_split [of ?f, unfolded len(1)] n len(2) seq p by (simp add: n_def [symmetric])
  have lp: "length p = n - 12" using p len n by simp
  then have "take (n - 4) ?f = frame_head seq p" using n by (subst f) simp
  then show "frame_fits p \<and> s = build_rpc_frame E seq p Crc32 @ rest"
    using f crc s lp n by (simp add: frame_fits_def build_rpc_frame_def build_rpc_frame_split)
qed

theorem rpc_plaintext_roundtrip_witness:
  "read_rpc_frame_plaintext \<lparr>crc32_fn = \<lambda>d. word_of_nat (length d), crc32c_fn = \<lambda>d. 0\<rparr>
     (build_rpc_frame \<lparr>crc32_fn = \<lambda>d. word_of_nat (length d), crc32c_fn = \<lambda>d. 0\<rparr> 3 [1, 2, 3, 4] Crc32 @ [9]) =
   Inr ((3, [1, 2, 3, 4]), [9])"
  using rpc_plaintext_roundtrip [of "[1, 2, 3, 4]"] by (simp add: frame_fits_def)

text \<open>
  The two payloads of the key exchange: the parser of a nonce returns the selector, the
  AES schema, the time stamp and the nonce that were put in, and the parser of a handshake
  returns the flags, from which both sides take the same checksum mode.
\<close>

theorem handshake_payload_roundtrip:
  assumes "length nonce = 16" and "length our_ip = 4" and "length peer_ip = 4"
  shows "parse_nonce_payload (build_nonce_payload key_selector crypto_ts nonce) =
      Inr (key_selector, RPC_CRYPTO_AES_U32, crypto_ts, nonce) \<and>
    parse_handshake_flags (build_handshake_payload pid now our_ip our_port peer_ip peer_port flags) = Inr flags \<and>
    from_handshake_flags (advertised_flags mode) = mode"
proof (intro conjI)
  let ?h0 = "u32_to_le_bytes RPC_NONCE_U32" and ?h4 = "u32_to_le_bytes key_selector"
  let ?h8 = "u32_to_le_bytes RPC_CRYPTO_AES_U32" and ?h12 = "u32_to_le_bytes crypto_ts"
  let ?d = "?h0 @ ?h4 @ ?h8 @ ?h12 @ nonce"
  have "u32_at ?d 4 = key_selector" "u32_at ?d 8 = RPC_CRYPTO_AES_U32" "u32_at ?d 12 = crypto_ts"
    "slice ?d 16 32 = nonce"
    using u32_at_append [of ?h0 4 key_selector] u32_at_append [of "?h0 @ ?h4" 8 RPC_CRYPTO_AES_U32]
      u32_at_append [of "?h0 @ ?h4 @ ?h8" 12 crypto_ts]
      slice_append_exact [of "?h0 @ ?h4 @ ?h8 @ ?h12" 16 32 nonce "[]"] assms
    by simp_all
  then show "parse_nonce_payload (build_nonce_payload key_selector crypto_ts nonce) =
      Inr (key_selector, RPC_CRYPTO_AES_U32, crypto_ts, nonce)"
    using assms by (simp add: parse_nonce_payload_def build_nonce_payload_def)
  show "parse_handshake_flags (build_handshake_payload pid now our_ip our_port peer_ip peer_port flags) = Inr flags"
    using assms u32_at_append [of "u32_to_le_bytes RPC_HANDSHAKE_U32" 4 flags]
    by (simp add: parse_handshake_flags_def build_handshake_payload_def)
  show "from_handshake_flags (advertised_flags mode) = mode"
    by (cases mode) (simp_all add: from_handshake_flags_def)
qed

theorem handshake_payload_roundtrip_witness:
  "parse_nonce_payload (build_nonce_payload 1 2 (replicate 16 7)) = Inr (1, RPC_CRYPTO_AES_U32, 2, replicate 16 7)"
  using handshake_payload_roundtrip [of "replicate 16 7" "[1, 2, 3, 4]" "[5, 6, 7, 8]" 1 2] by simp

subsection \<open>The writer as a stream of frames\<close>

lemma length_pad_to_block: "16 dvd length (pad_to_block buf)"
  using pad_dvd [of 16 "length buf"] by (simp add: pad_to_block_def pad_bytes_def)

lemma pad_to_block_prefix: "take (length buf) (pad_to_block buf) = buf"
  by (simp add: pad_to_block_def)

lemma pad_to_block_ne: "buf \<noteq> [] \<Longrightarrow> pad_to_block buf \<noteq> []"
  by (simp add: pad_to_block_def)

text \<open>One call of the cipher on a padded buffer, and the vector it leaves for the next call.\<close>

lemma encrypt_padded_buffer:
  assumes "cbc_ok B (cbc_new key iv)" and "buf \<noteq> []"
  obtains ct where "cbc_encrypt_in_place B (cbc_new key iv) (pad_to_block buf) = Inr ct"
    and "length ct = length (pad_to_block buf)" and "length (last_block d ct) = 16"
    and "last_block d ct = drop (length ct - 16) ct"
    and "cbc_decrypt_in_place B (cbc_new key iv) ct = Inr (pad_to_block buf)"
proof -
  obtain bs where bs: "pad_to_block buf = concat bs" "blocks_ok bs"
    using length_pad_to_block by (rule data_blocks)
  let ?cs = "enc_blocks B (cbc_new key iv) (cbc_iv (cbc_new key iv)) bs"
  have ok: "blocks_ok ?cs" using assms(1) by (rule enc_blocks_ok)
  have "bs \<noteq> []" using bs pad_to_block_ne [OF assms(2)] by auto
  then have "16 \<le> length (concat ?cs)"
    unfolding length_concat_blocks [OF ok] length_enc_blocks by (cases bs) simp_all
  then have "length (last_block d (concat ?cs)) = 16"
    "last_block d (concat ?cs) = drop (length (concat ?cs) - 16) (concat ?cs)"
    by (simp_all add: last_block_def)
  moreover have "length (concat ?cs) = length (pad_to_block buf)"
    using bs ok by (simp add: length_concat_blocks)
  moreover have "cbc_decrypt_in_place B (cbc_new key iv) (concat ?cs) = Inr (pad_to_block buf)"
    using assms(1) bs ok by (simp add: cbc_decrypt_in_place_blocks dec_enc_blocks)
  ultimately show thesis
    using that [of "concat ?cs"] assms(1) bs by (simp add: cbc_encrypt_in_place_blocks)
qed

text \<open>
  The padded helpers stay in step: decrypting what \<open>cbc_encrypt_padded\<close> returned gives the
  plaintext followed by the padding, and both sides carry the same vector to the next call.
\<close>

theorem cbc_padded_roundtrip:
  assumes "block_cipher_ok B" and "length key = 32" and "length iv = 16" and "plaintext \<noteq> []"
  shows "\<exists>ct new_iv. cbc_encrypt_padded B key iv plaintext = Inr (ct, new_iv) \<and> length new_iv = 16 \<and>
    cbc_decrypt_inplace B key iv ct = Inr (pad_to_block plaintext, new_iv) \<and>
    take (length plaintext) (pad_to_block plaintext) = plaintext"
proof -
  have "cbc_ok B (cbc_new key iv)" using assms by (simp add: cbc_ok_def cbc_new_def)
  from encrypt_padded_buffer [OF this assms(4), of "replicate 16 0"] obtain ct where
    "cbc_encrypt_in_place B (cbc_new key iv) (pad_to_block plaintext) = Inr ct"
    "length (last_block (replicate 16 0) ct) = 16"
    "cbc_decrypt_in_place B (cbc_new key iv) ct = Inr (pad_to_block plaintext)" .
  then show ?thesis
    by (simp add: cbc_encrypt_padded_def cbc_decrypt_inplace_def pad_to_block_prefix)
qed

theorem cbc_padded_roundtrip_witness:
  "\<exists>ct new_iv. cbc_encrypt_padded mask_cipher (replicate 32 5) (replicate 16 1) [1, 2, 3] = Inr (ct, new_iv) \<and>
    length new_iv = 16 \<and>
    cbc_decrypt_inplace mask_cipher (replicate 32 5) (replicate 16 1) ct = Inr (pad_to_block [1, 2, 3], new_iv) \<and>
    take (length [1, 2, 3 :: u8]) (pad_to_block [1, 2, 3]) = [1, 2, 3]"
  by (rule cbc_padded_roundtrip) (simp_all add: mask_cipher_ok)

lemma build_req_append:
  "append_proxy_req_payload_into b c ca oa d t f = b @ build_proxy_req_payload c ca oa d t f"
  by (simp add: build_proxy_req_payload_def append_proxy_req_layout)

lemma length_build_req:
  "addr_ok ca \<Longrightarrow> addr_ok oa \<Longrightarrow>
    length (build_proxy_req_payload c ca oa d t f) = proxy_req_payload_len (length d) t f"
  by (auto simp: build_proxy_req_payload_def append_proxy_req_layout proxy_req_payload_len_def addr_ok_def
      length_proxy_extra Let_def)

definition request_payload :: "proxy_req_command \<Rightarrow> bytes" where
  "request_payload c = build_proxy_req_payload (pr_conn_id c) (pr_client_addr c) (pr_our_addr c)
     (pr_payload c) (pr_proxy_tag c) (pr_proto_flags c)"

lemma send_proxy_req_send:
  assumes "addr_ok (pr_client_addr c)" and "addr_ok (pr_our_addr c)"
  shows "send_proxy_req E B W c w = send E B W (request_payload c) w"
  using length_build_req [OF assms, of "pr_conn_id c" "pr_payload c" "pr_proxy_tag c" "pr_proto_flags c"]
  by (simp add: send_proxy_req_def send_def build_rpc_frame_into_def Let_def build_req_append
      request_payload_def)

text \<open>
  C33. Writing a proxy request straight into the frame buffer equals building the payload
  first and sending it: the same result, the same bytes on the socket and the same writer
  state, whatever the socket does.
\<close>

theorem send_proxy_req_equivalent:
  assumes "addr_ok (pr_client_addr command)" and "addr_ok (pr_our_addr command)"
  shows "send_proxy_req E B W command w =
    send E B W (build_proxy_req_payload (pr_conn_id command) (pr_client_addr command) (pr_our_addr command)
      (pr_payload command) (pr_proxy_tag command) (pr_proto_flags command)) w"
  using send_proxy_req_send [OF assms] by (simp add: request_payload_def)

definition demo_command :: proxy_req_command where
  "demo_command = \<lparr>pr_conn_id = 7, pr_client_addr = \<lparr>sa_ip = IpV4 1 2 3 4, sa_port = 5\<rparr>,
     pr_our_addr = \<lparr>sa_ip = IpV4 5 6 7 8, sa_port = 443\<rparr>, pr_proto_flags = 8,
     pr_proxy_tag = Some (replicate 16 9), pr_payload = [1, 2, 3, 4]\<rparr>"

theorem send_proxy_req_equivalent_witness:
  "\<forall>E B W w. send_proxy_req E B W demo_command w =
    send E B W (build_proxy_req_payload 7 \<lparr>sa_ip = IpV4 1 2 3 4, sa_port = 5\<rparr>
      \<lparr>sa_ip = IpV4 5 6 7 8, sa_port = 443\<rparr> [1, 2, 3, 4] (Some (replicate 16 9)) 8) w"
  using send_proxy_req_equivalent [of demo_command] by (simp add: demo_command_def addr_ok_def)

text \<open>What a run of the writer puts on the wire: padded frames with consecutive numbers.\<close>

fun padded_frames :: "crc_env \<Rightarrow> rpc_checksum_mode \<Rightarrow> u32 \<Rightarrow> bytes list \<Rightarrow> bytes" where
  "padded_frames E mode seq [] = []"
| "padded_frames E mode seq (p # ps) =
     pad_to_block (build_rpc_frame_into E seq p mode) @ padded_frames E mode (seq + 1) ps"

fun command_payload :: "writer_command \<Rightarrow> bytes" where
  "command_payload (Data p) = p"
| "command_payload (DataAndFlush p) = p"
| "command_payload (ProxyReq c) = request_payload c"
| "command_payload (ControlAndFlush p) = p"
| "command_payload Close = []"

fun command_ok :: "writer_command \<Rightarrow> bool" where
  "command_ok (ProxyReq c) \<longleftrightarrow> addr_ok (pr_client_addr c) \<and> addr_ok (pr_our_addr c)"
| "command_ok Close = False"
| "command_ok _ = True"

definition write_ok :: "write_env \<Rightarrow> bool" where
  "write_ok W \<longleftrightarrow> we_write W = None \<and> we_flush W = None"

definition writer_ok :: "block_cipher \<Rightarrow> rpc_writer \<Rightarrow> bool" where
  "writer_ok B w \<longleftrightarrow> cbc_ok B (cbc_new (rw_key w) (rw_iv w))"

lemma send_step:
  assumes "writer_ok B w" and "write_ok W"
  obtains ct w' where "send E B W p w = (Inr (), w')" and "rw_out w' = rw_out w @ ct"
    and "16 dvd length ct" and "ct \<noteq> []" and "writer_ok B w'" and "rw_key w' = rw_key w"
    and "rw_seq_no w' = rw_seq_no w + 1" and "rw_crc_mode w' = rw_crc_mode w"
    and "rw_iv w' = drop (length ct - 16) ct"
    and "cbc_decrypt_in_place B (cbc_new (rw_key w) (rw_iv w)) ct =
      Inr (pad_to_block (build_rpc_frame_into E (rw_seq_no w) p (rw_crc_mode w)))"
proof -
  let ?f = "build_rpc_frame_into E (rw_seq_no w) p (rw_crc_mode w)"
  have "0 < length ?f" by simp
  then have "?f \<noteq> []" by (metis length_greater_0_conv)
  from encrypt_padded_buffer [OF assms(1) [unfolded writer_ok_def] this, of "rw_iv w"] obtain ct where
    ct: "cbc_encrypt_in_place B (cbc_new (rw_key w) (rw_iv w)) (pad_to_block ?f) = Inr ct"
      "length ct = length (pad_to_block ?f)" "length (last_block (rw_iv w) ct) = 16"
      "last_block (rw_iv w) ct = drop (length ct - 16) ct"
      "cbc_decrypt_in_place B (cbc_new (rw_key w) (rw_iv w)) ct = Inr (pad_to_block ?f)" .
  have "16 dvd length ct" using ct(2) length_pad_to_block by simp
  moreover have "ct \<noteq> []" using ct(2) pad_to_block_ne [OF \<open>?f \<noteq> []\<close>] by auto
  ultimately show thesis
    using that [of "snd (send E B W p w)" ct] assms ct
    by (simp add: send_def encrypt_and_write_frame_def Let_def write_ok_def writer_ok_def cbc_ok_def cbc_new_def)
qed

lemma loop_step:
  assumes "command_ok c" and "write_ok W" and "send E B W (command_payload c) w = (Inr (), w')"
  shows "writer_command_loop E B w (Recv (Some c) W # evs) = writer_command_loop E B w' evs"
  using assms by (cases c) (simp_all add: send_and_flush_def write_ok_def send_proxy_req_send Let_def)

lemma cbc_decrypt_in_place_append:
  assumes "cbc_ok B (cbc_new key iv)" and "16 dvd length a" and "a \<noteq> []" and "16 dvd length b"
    and "cbc_decrypt_in_place B (cbc_new key iv) a = Inr x"
    and "cbc_decrypt_in_place B (cbc_new key (drop (length a - 16) a)) b = Inr y"
  shows "cbc_decrypt_in_place B (cbc_new key iv) (a @ b) = Inr (x @ y)"
proof -
  obtain as where a: "a = concat as" "blocks_ok as" using assms(2) by (rule data_blocks)
  obtain bs where b: "b = concat bs" "blocks_ok bs" using assms(4) by (rule data_blocks)
  have ne: "as \<noteq> []" using a assms(3) by auto
  have "concat as = concat (butlast as) @ last as"
    using ne by (metis append_butlast_last_id concat.simps(1,2) concat_append append_Nil2)
  moreover have l16: "length (last as) = 16" using a ne by (auto simp: blocks_ok_def)
  ultimately have iv: "drop (length a - 16) a = last as" using a by simp
  have same: "dec_blocks B (cbc_new key v) p ps = dec_blocks B (cbc_new key iv) p ps" for v p ps
    by (induction ps arbitrary: p) (simp_all add: decrypt_block_def cbc_new_def)
  have ok2: "cbc_ok B (cbc_new key (last as))" using assms(1) l16 by (simp add: cbc_ok_def cbc_new_def)
  have x: "x = concat (dec_blocks B (cbc_new key iv) iv as)"
    using assms(5) cbc_decrypt_in_place_blocks [OF assms(1) a(2)] a by (simp add: cbc_new_def)
  have y: "y = concat (dec_blocks B (cbc_new key iv) (last as) bs)"
    using assms(6) cbc_decrypt_in_place_blocks [OF ok2 b(2)] b iv same [of "last as" "last as" bs]
    by (simp add: cbc_new_def)
  have "blocks_ok (as @ bs)" using a b by (auto simp: blocks_ok_def)
  from cbc_decrypt_in_place_blocks [OF assms(1) this] show ?thesis
    using a b ne x y by (simp add: dec_blocks_append cbc_new_def)
qed

lemma cbc_decrypt_in_place_nil: "cbc_decrypt_in_place B c [] = Inr []"
  by (simp add: cbc_decrypt_in_place_def)

lemma writer_loop_stream:
  assumes "writer_ok B w" and "list_all (\<lambda>(c, W). command_ok c \<and> write_ok W) cmds"
  shows "\<exists>ct w'. writer_command_loop E B w (map (\<lambda>(c, W). Recv (Some c) W) cmds) = (None, w') \<and>
    rw_out w' = rw_out w @ ct \<and> 16 dvd length ct \<and> rw_iv w' = last_block (rw_iv w) ct \<and>
    rw_seq_no w' = rw_seq_no w + word_of_nat (length cmds) \<and>
    cbc_decrypt_in_place B (cbc_new (rw_key w) (rw_iv w)) ct =
      Inr (padded_frames E (rw_crc_mode w) (rw_seq_no w) (map (command_payload \<circ> fst) cmds))"
  using assms
proof (induction cmds arbitrary: w)
  case Nil
  then show ?case by (simp add: last_block_def cbc_decrypt_in_place_nil)
next
  case (Cons cW cmds)
  obtain c W where cW: "cW = (c, W)" by (cases cW)
  with Cons.prems have ok: "command_ok c" "write_ok W" by auto
  obtain ct1 w1 where s: "send E B W (command_payload c) w = (Inr (), w1)" "rw_out w1 = rw_out w @ ct1"
    "16 dvd length ct1" "ct1 \<noteq> []" "writer_ok B w1" "rw_key w1 = rw_key w"
    "rw_seq_no w1 = rw_seq_no w + 1" "rw_crc_mode w1 = rw_crc_mode w" "rw_iv w1 = drop (length ct1 - 16) ct1"
    "cbc_decrypt_in_place B (cbc_new (rw_key w) (rw_iv w)) ct1 =
      Inr (pad_to_block (build_rpc_frame_into E (rw_seq_no w) (command_payload c) (rw_crc_mode w)))"
    using Cons.prems(1) ok(2) by (rule send_step)
  have "list_all (\<lambda>(c, W). command_ok c \<and> write_ok W) cmds" using Cons.prems by simp
  from Cons.IH [OF s(5) this] obtain ct2 w2 where
    r: "writer_command_loop E B w1 (map (\<lambda>(c, W). Recv (Some c) W) cmds) = (None, w2)"
      "rw_out w2 = rw_out w1 @ ct2" "16 dvd length ct2" "rw_iv w2 = last_block (rw_iv w1) ct2"
      "rw_seq_no w2 = rw_seq_no w1 + word_of_nat (length cmds)"
      "cbc_decrypt_in_place B (cbc_new (rw_key w1) (rw_iv w1)) ct2 =
        Inr (padded_frames E (rw_crc_mode w1) (rw_seq_no w1) (map (command_payload \<circ> fst) cmds))"
    by blast
  have "16 \<le> length ct1" using s(3,4) by (auto intro: dvd_imp_le)
  moreover have "length ct2 = 0 \<or> 16 \<le> length ct2" using r(3) by (auto intro: dvd_imp_le)
  ultimately have iv: "rw_iv w2 = last_block (rw_iv w) (ct1 @ ct2)"
    using r(4) s(9) by (auto simp: last_block_def)
  have "cbc_decrypt_in_place B (cbc_new (rw_key w) (rw_iv w)) (ct1 @ ct2) =
      Inr (padded_frames E (rw_crc_mode w) (rw_seq_no w) (map (command_payload \<circ> fst) (cW # cmds)))"
    using cbc_decrypt_in_place_append [OF Cons.prems(1) [unfolded writer_ok_def] s(3,4) r(3) s(10)] r(6) s cW
    by simp
  moreover have "writer_command_loop E B w (map (\<lambda>(c, W). Recv (Some c) W) (cW # cmds)) = (None, w2)"
    using loop_step [OF ok s(1)] r(1) cW by simp
  moreover have "rw_out w2 = rw_out w @ ct1 @ ct2" using r(2) s(2) by simp
  moreover have "16 dvd length (ct1 @ ct2)" using r(3) s(3) by simp
  moreover have "rw_seq_no w2 = rw_seq_no w + word_of_nat (length (cW # cmds))"
    using r(5) s(7) by (simp add: algebra_simps)
  ultimately show ?case using iv by blast
qed

text \<open>
  C18. The writer's stream: while the socket accepts everything, the command loop keeps
  running, and what it has added to the socket decrypts, as one CBC stream under the key
  and vector it started with, to the padded frames of the commands in order, with
  consecutive sequence numbers; the vector it keeps is the last ciphertext block.
\<close>

theorem writer_stream:
  assumes "writer_ok B w" and "list_all (\<lambda>(c, W). command_ok c \<and> write_ok W) cmds"
  shows "\<exists>ct w'. writer_command_loop E B w (map (\<lambda>(c, W). Recv (Some c) W) cmds) = (None, w') \<and>
    rw_out w' = rw_out w @ ct \<and> 16 dvd length ct \<and> rw_iv w' = last_block (rw_iv w) ct \<and>
    rw_seq_no w' = rw_seq_no w + word_of_nat (length cmds) \<and>
    cbc_decrypt_in_place B (cbc_new (rw_key w) (rw_iv w)) ct =
      Inr (padded_frames E (rw_crc_mode w) (rw_seq_no w) (map (command_payload \<circ> fst) cmds))"
  using assms by (rule writer_loop_stream)

definition demo_writer :: rpc_writer where
  "demo_writer = \<lparr>rw_out = [], rw_key = replicate 32 5, rw_iv = replicate 16 1, rw_seq_no = 0,
     rw_crc_mode = Crc32, rw_frame_buf = []\<rparr>"

definition demo_write :: write_env where
  "demo_write = \<lparr>we_write = None, we_capacity = 128, we_flush = None\<rparr>"

theorem writer_stream_witness:
  "\<exists>ct w'. writer_command_loop \<lparr>crc32_fn = \<lambda>d. 0, crc32c_fn = \<lambda>d. 0\<rparr> mask_cipher demo_writer
      (map (\<lambda>(c, W). Recv (Some c) W) [(Data [1, 2, 3, 4], demo_write), (ProxyReq demo_command, demo_write)]) =
      (None, w') \<and>
    rw_out w' = rw_out demo_writer @ ct \<and> 16 dvd length ct \<and> rw_iv w' = last_block (rw_iv demo_writer) ct \<and>
    rw_seq_no w' = rw_seq_no demo_writer +
      word_of_nat (length [(Data [1, 2, 3, 4], demo_write), (ProxyReq demo_command, demo_write)]) \<and>
    cbc_decrypt_in_place mask_cipher (cbc_new (rw_key demo_writer) (rw_iv demo_writer)) ct =
      Inr (padded_frames \<lparr>crc32_fn = \<lambda>d. 0, crc32c_fn = \<lambda>d. 0\<rparr> (rw_crc_mode demo_writer) (rw_seq_no demo_writer)
        (map (command_payload \<circ> fst) [(Data [1, 2, 3, 4], demo_write), (ProxyReq demo_command, demo_write)]))"
  by (rule writer_stream)
     (simp_all add: writer_ok_def cbc_ok_def cbc_new_def demo_writer_def demo_write_def demo_command_def
       write_ok_def mask_cipher_ok addr_ok_def)

end
