(* ===== verification/Conn_Registry.thy ===== *)
theory Conn_Registry
  imports Proxy_Error
begin

section \<open>The connection registry\<close>

text \<open>
  \<^verbatim>\<open>src/src/transport/middle_proxy/registry.rs\<close> and \<^verbatim>\<open>registry/writer.rs\<close>: which client connection is
  bound to which middle-proxy writer, the counters kept beside that relation, and the
  bounded queues through which responses reach the clients. Every map of the source is an
  association list with distinct keys; a hash set is a list without repetition. The wall
  clock, the identifiers drawn at random and what a client does while a route call waits
  are inputs. A sender is known by a number.
\<close>

subsection \<open>State\<close>

datatype route_result = Rt_Routed | Rt_NoConn | Rt_ChannelClosed | Rt_QueueFullBase | Rt_QueueFullHigh

record conn_meta =
  cm_target_dc :: int
  cm_client_addr :: socket_addr
  cm_our_addr :: socket_addr
  cm_proto_flags :: u32

record bound_conn =
  bc_conn_id :: nat
  bc_meta :: conn_meta

record conn_writer =
  cw_writer_id :: nat
  cw_tx :: nat

record hot_conn_binding =
  hb_writer_id :: nat
  hb_meta :: conn_meta

text \<open>
  A response; the permits that a data response holds are \<open>Some n\<close> for \<open>n\<close> units of the
  connection's byte budget.
\<close>

datatype me_response = MR_Data u32 bytes "nat option" | MR_Ack u32 | MR_Close

text \<open>The channel behind a routing entry: what is queued, and whether the receiver is gone.\<close>

record route_channel =
  rc_queue :: "me_response list"
  rc_closed :: bool

record conn_registry =
  rg_routing :: "(nat \<times> route_channel) list"
  rg_byte_budget :: "(nat \<times> nat) list"
  rg_writers :: "(nat \<times> nat) list"
  rg_hot :: "(nat \<times> hot_conn_binding) list"
  rg_writer_for_conn :: "(nat \<times> nat) list"
  rg_conns_for_writer :: "(nat \<times> nat list) list"
  rg_meta :: "(nat \<times> conn_meta) list"
  rg_idle_since :: "(nat \<times> nat) list"
  rg_bound_clients :: "(nat \<times> nat) list"
  rg_active_dc :: "(int \<times> nat) list"
  rg_last_meta :: "(nat \<times> conn_meta) list"
  rg_next_id :: nat
  rg_capacity :: nat
  rg_base_timeout_ms :: nat
  rg_high_timeout_ms :: nat
  rg_high_watermark_pct :: nat
  rg_permits_per_conn :: nat

abbreviation (input) "ROUTE_QUEUED_BYTE_PERMIT_UNIT \<equiv> (16384 :: nat)"
abbreviation (input) "ROUTE_QUEUED_PERMITS_PER_SLOT \<equiv> (4 :: nat)"
abbreviation (input) "ROUTE_QUEUED_MAX_FRAME_PERMITS \<equiv> (1024 :: nat)"

definition or_insert :: "'k \<Rightarrow> 'v \<Rightarrow> ('k \<times> 'v) list \<Rightarrow> ('k \<times> 'v) list" where
  "or_insert k v m = (if map_of m k = None then AList.update k v m else m)"

subsection \<open>Construction and policy\<close>

definition route_data_permits :: "nat \<Rightarrow> nat" where
  "route_data_permits data_len =
     min ((max data_len 1 + (ROUTE_QUEUED_BYTE_PERMIT_UNIT - 1)) div ROUTE_QUEUED_BYTE_PERMIT_UNIT) U32_MAX"

definition route_byte_permit_budget :: "nat \<Rightarrow> nat" where
  "route_byte_permit_budget route_channel_capacity =
     max (max (sat_mul U64_MAX route_channel_capacity ROUTE_QUEUED_PERMITS_PER_SLOT)
           ROUTE_QUEUED_MAX_FRAME_PERMITS) 1"

text \<open>\<open>seed\<close> is the random 64-bit number from which the identifiers start.\<close>

definition with_route_limits :: "nat \<Rightarrow> nat \<Rightarrow> nat \<Rightarrow> conn_registry" where
  "with_route_limits seed route_channel_capacity route_byte_permits_per_conn =
     \<lparr>rg_routing = [], rg_byte_budget = [], rg_writers = [], rg_hot = [], rg_writer_for_conn = [],
      rg_conns_for_writer = [], rg_meta = [], rg_idle_since = [], rg_bound_clients = [],
      rg_active_dc = [], rg_last_meta = [], rg_next_id = seed OR 1,
      rg_capacity = max route_channel_capacity 1, rg_base_timeout_ms = 25, rg_high_timeout_ms = 120,
      rg_high_watermark_pct = 80, rg_permits_per_conn = max route_byte_permits_per_conn 1\<rparr>"

definition with_route_channel_capacity :: "nat \<Rightarrow> nat \<Rightarrow> conn_registry" where
  "with_route_channel_capacity seed route_channel_capacity =
     (let cap = max route_channel_capacity 1
      in with_route_limits seed cap (route_byte_permit_budget cap))"

definition update_route_backpressure_policy :: "nat \<Rightarrow> nat \<Rightarrow> nat \<Rightarrow> conn_registry \<Rightarrow> conn_registry" where
  "update_route_backpressure_policy base_timeout_ms high_timeout_ms high_watermark_pct r =
     (let base = max base_timeout_ms 1;
          high = max high_timeout_ms base;
          watermark = min (max high_watermark_pct 1) 100
      in r\<lparr>rg_base_timeout_ms := base, rg_high_timeout_ms := high, rg_high_watermark_pct := watermark\<rparr>)"

definition register :: "conn_registry \<Rightarrow> nat \<times> conn_registry" where
  "register r =
     (let cid = rg_next_id r
      in (cid, r\<lparr>rg_next_id := (rg_next_id r + 1) mod (U64_MAX + 1),
                rg_routing := AList.update cid \<lparr>rc_queue = [], rc_closed = False\<rparr> (rg_routing r),
                rg_byte_budget := AList.update cid (rg_permits_per_conn r) (rg_byte_budget r)\<rparr>))"

subsection \<open>Bindings\<close>

definition set_writer_bound_count :: "nat \<Rightarrow> nat \<Rightarrow> nat \<Rightarrow> conn_registry \<Rightarrow> conn_registry" where
  "set_writer_bound_count now writer_id count r =
     (let r1 = r\<lparr>rg_bound_clients := AList.update writer_id count (rg_bound_clients r)\<rparr>
      in if count = 0 then r1\<lparr>rg_idle_since := or_insert writer_id now (rg_idle_since r1)\<rparr>
         else r1\<lparr>rg_idle_since := AList.delete writer_id (rg_idle_since r1)\<rparr>)"

definition adjust_active_target_dc :: "int \<Rightarrow> int \<Rightarrow> conn_registry \<Rightarrow> conn_registry" where
  "adjust_active_target_dc target_dc delta r =
     (if target_dc = 0 \<or> delta = 0 then r
      else if delta > 0 then
        (case map_of (rg_active_dc r) target_dc of
           Some count \<Rightarrow>
             r\<lparr>rg_active_dc := AList.update target_dc (sat_add U64_MAX count (nat delta)) (rg_active_dc r)\<rparr>
         | None \<Rightarrow> r\<lparr>rg_active_dc := AList.update target_dc (nat delta) (rg_active_dc r)\<rparr>)
      else
        (case map_of (rg_active_dc r) target_dc of
           Some count \<Rightarrow>
             let count1 = count - nat (- delta);
                 r1 = r\<lparr>rg_active_dc := AList.update target_dc count1 (rg_active_dc r)\<rparr>
             in if count1 = 0 then r1\<lparr>rg_active_dc := AList.delete target_dc (rg_active_dc r1)\<rparr> else r1
         | None \<Rightarrow> r))"

definition register_writer :: "nat \<Rightarrow> nat \<Rightarrow> nat \<Rightarrow> conn_registry \<Rightarrow> conn_registry" where
  "register_writer now writer_id tx r =
     r\<lparr>rg_conns_for_writer := or_insert writer_id [] (rg_conns_for_writer r),
       rg_bound_clients := or_insert writer_id 0 (rg_bound_clients r),
       rg_idle_since := or_insert writer_id now (rg_idle_since r),
       rg_writers := AList.update writer_id tx (rg_writers r)\<rparr>"

text \<open>
  Removing a connection from the set of a writer, and how many remain; both \<open>unregister\<close> and
  \<open>bind_writer\<close> do this.
\<close>

definition drop_conn_of_writer :: "nat \<Rightarrow> nat \<Rightarrow> conn_registry \<Rightarrow> nat \<times> conn_registry" where
  "drop_conn_of_writer conn_id writer_id r =
     (case map_of (rg_conns_for_writer r) writer_id of
        Some conns \<Rightarrow>
          let conns1 = removeAll conn_id conns
          in (length conns1, r\<lparr>rg_conns_for_writer := AList.update writer_id conns1 (rg_conns_for_writer r)\<rparr>)
      | None \<Rightarrow> (0, r))"

text \<open>
  \<open>unregister\<close> first clears the tables that are read without a lock, and then takes the
  lock of the binding state.
\<close>

definition unregister_routes :: "nat \<Rightarrow> conn_registry \<Rightarrow> conn_registry" where
  "unregister_routes cid r =
     r\<lparr>rg_routing := AList.delete cid (rg_routing r),
       rg_byte_budget := AList.delete cid (rg_byte_budget r),
       rg_hot := AList.delete cid (rg_hot r)\<rparr>"

definition unregister_binding :: "nat \<Rightarrow> nat \<Rightarrow> conn_registry \<Rightarrow> nat option \<times> conn_registry" where
  "unregister_binding now cid r =
     (let previous_meta = map_of (rg_meta r) cid;
          r1 = r\<lparr>rg_meta := AList.delete cid (rg_meta r)\<rparr>;
          r2 = (case previous_meta of
                  Some meta \<Rightarrow> adjust_active_target_dc (cm_target_dc meta) (- 1) r1
                | None \<Rightarrow> r1)
      in case map_of (rg_writer_for_conn r2) cid of
           Some writer_id \<Rightarrow>
             let r3 = r2\<lparr>rg_writer_for_conn := AList.delete cid (rg_writer_for_conn r2)\<rparr>;
                 (next_count, r4) = drop_conn_of_writer cid writer_id r3
             in (Some writer_id, set_writer_bound_count now writer_id next_count r4)
         | None \<Rightarrow> (None, r2))"

definition unregister :: "nat \<Rightarrow> nat \<Rightarrow> conn_registry \<Rightarrow> nat option \<times> conn_registry" where
  "unregister now cid r = unregister_binding now cid (unregister_routes cid r)"

definition bind_guard :: "nat \<Rightarrow> nat \<Rightarrow> conn_registry \<Rightarrow> bool" where
  "bind_guard conn_id writer_id r \<longleftrightarrow>
     map_of (rg_routing r) conn_id \<noteq> None \<and> map_of (rg_writers r) writer_id \<noteq> None"

definition bind_commit :: "nat \<Rightarrow> nat \<Rightarrow> nat \<Rightarrow> conn_meta \<Rightarrow> conn_registry \<Rightarrow> conn_registry" where
  "bind_commit now conn_id writer_id meta r =
     (let previous_writer_id = map_of (rg_writer_for_conn r) conn_id;
          r1 = r\<lparr>rg_writer_for_conn := AList.update conn_id writer_id (rg_writer_for_conn r)\<rparr>;
          r2 = (case previous_writer_id of
                  Some previous \<Rightarrow>
                    if previous \<noteq> writer_id then
                      let (next_count, r') = drop_conn_of_writer conn_id previous r1
                      in set_writer_bound_count now previous next_count r'
                    else r1
                | None \<Rightarrow> r1);
          previous_meta = map_of (rg_meta r2) conn_id;
          r3 = r2\<lparr>rg_meta := AList.update conn_id meta (rg_meta r2)\<rparr>;
          r4 = (case previous_meta of
                  Some pm \<Rightarrow> adjust_active_target_dc (cm_target_dc pm) (- 1) r3
                | None \<Rightarrow> r3);
          r5 = adjust_active_target_dc (cm_target_dc meta) 1 r4;
          r6 = r5\<lparr>rg_last_meta := AList.update writer_id meta (rg_last_meta r5)\<rparr>;
          conns = (case map_of (rg_conns_for_writer r6) writer_id of Some cs \<Rightarrow> cs | None \<Rightarrow> []);
          conns1 = List.insert conn_id conns;
          r7 = r6\<lparr>rg_conns_for_writer := AList.update writer_id conns1 (rg_conns_for_writer r6)\<rparr>;
          r8 = set_writer_bound_count now writer_id (length conns1) r7
      in r8\<lparr>rg_hot := AList.update conn_id \<lparr>hb_writer_id = writer_id, hb_meta = meta\<rparr> (rg_hot r8)\<rparr>)"

definition bind_writer :: "nat \<Rightarrow> nat \<Rightarrow> nat \<Rightarrow> conn_meta \<Rightarrow> conn_registry \<Rightarrow> bool \<times> conn_registry" where
  "bind_writer now conn_id writer_id meta r =
     (if bind_guard conn_id writer_id r then (True, bind_commit now conn_id writer_id meta r)
      else (False, r))"

definition mark_writer_idle :: "nat \<Rightarrow> nat \<Rightarrow> conn_registry \<Rightarrow> conn_registry" where
  "mark_writer_idle now writer_id r =
     (let r1 = r\<lparr>rg_conns_for_writer := or_insert writer_id [] (rg_conns_for_writer r)\<rparr>;
          count = (case map_of (rg_conns_for_writer r1) writer_id of Some cs \<Rightarrow> length cs | None \<Rightarrow> 0)
      in set_writer_bound_count now writer_id count r1)"

definition lose_conn :: "nat \<Rightarrow> nat \<Rightarrow> conn_registry \<times> bound_conn list \<Rightarrow> conn_registry \<times> bound_conn list" where
  "lose_conn writer_id conn_id st =
     (case st of (r, out) \<Rightarrow>
        if map_of (rg_writer_for_conn r) conn_id \<noteq> Some writer_id then (r, out)
        else
          let r1 = r\<lparr>rg_writer_for_conn := AList.delete conn_id (rg_writer_for_conn r)\<rparr>;
              meta = map_of (rg_meta r1) conn_id;
              r2 = r1\<lparr>rg_meta := AList.delete conn_id (rg_meta r1)\<rparr>;
              r3 = (case meta of
                      Some m \<Rightarrow> adjust_active_target_dc (cm_target_dc m) (- 1) r2
                    | None \<Rightarrow> r2);
              remove_hot = (case map_of (rg_hot r3) conn_id of
                              Some hot \<Rightarrow> hb_writer_id hot = writer_id
                            | None \<Rightarrow> False);
              r4 = (if remove_hot then r3\<lparr>rg_hot := AList.delete conn_id (rg_hot r3)\<rparr> else r3)
          in (r4, case meta of
                    Some m \<Rightarrow> out @ [\<lparr>bc_conn_id = conn_id, bc_meta = m\<rparr>]
                  | None \<Rightarrow> out))"

definition forget_writer :: "nat \<Rightarrow> conn_registry \<Rightarrow> conn_registry" where
  "forget_writer writer_id r =
     r\<lparr>rg_writers := AList.delete writer_id (rg_writers r),
       rg_last_meta := AList.delete writer_id (rg_last_meta r),
       rg_idle_since := AList.delete writer_id (rg_idle_since r),
       rg_bound_clients := AList.delete writer_id (rg_bound_clients r),
       rg_conns_for_writer := AList.delete writer_id (rg_conns_for_writer r)\<rparr>"

definition writer_lost :: "nat \<Rightarrow> conn_registry \<Rightarrow> bound_conn list \<times> conn_registry" where
  "writer_lost writer_id r =
     (let conns = (case map_of (rg_conns_for_writer r) writer_id of Some cs \<Rightarrow> cs | None \<Rightarrow> []);
          (r1, out) = fold (lose_conn writer_id) conns (forget_writer writer_id r, [])
      in (out, r1))"

definition unregister_writer_if_empty :: "nat \<Rightarrow> conn_registry \<Rightarrow> bool \<times> conn_registry" where
  "unregister_writer_if_empty writer_id r =
     (case map_of (rg_conns_for_writer r) writer_id of
        None \<Rightarrow> (True, r)
      | Some conn_ids \<Rightarrow>
          if conn_ids \<noteq> [] then (False, r) else (True, forget_writer writer_id r))"

subsection \<open>Queries\<close>

definition get_last_writer_meta :: "nat \<Rightarrow> conn_registry \<Rightarrow> conn_meta option" where
  "get_last_writer_meta writer_id r = map_of (rg_last_meta r) writer_id"

definition writer_idle_since_snapshot :: "conn_registry \<Rightarrow> (nat \<times> nat) list" where
  "writer_idle_since_snapshot r = rg_idle_since r"

definition writer_idle_since_for_writer_ids :: "nat list \<Rightarrow> conn_registry \<Rightarrow> (nat \<times> nat) list" where
  "writer_idle_since_for_writer_ids writer_ids r =
     fold (\<lambda>w out. case map_of (rg_idle_since r) w of
             Some idle_since \<Rightarrow> AList.update w idle_since out | None \<Rightarrow> out) writer_ids []"

definition writer_activity_snapshot :: "conn_registry \<Rightarrow> (nat \<times> nat) list \<times> (int \<times> nat) list" where
  "writer_activity_snapshot r = (rg_bound_clients r, rg_active_dc r)"

definition get_writer :: "nat \<Rightarrow> conn_registry \<Rightarrow> conn_writer option" where
  "get_writer conn_id r =
     (if map_of (rg_routing r) conn_id = None then None
      else case map_of (rg_hot r) conn_id of
             None \<Rightarrow> None
           | Some entry \<Rightarrow>
               (case map_of (rg_writers r) (hb_writer_id entry) of
                  None \<Rightarrow> None
                | Some writer \<Rightarrow> Some \<lparr>cw_writer_id = hb_writer_id entry, cw_tx = writer\<rparr>))"

definition get_writer_with_meta :: "nat \<Rightarrow> conn_registry \<Rightarrow> (conn_writer \<times> conn_meta) option" where
  "get_writer_with_meta conn_id r =
     (if map_of (rg_routing r) conn_id = None then None
      else case map_of (rg_hot r) conn_id of
             None \<Rightarrow> None
           | Some hot \<Rightarrow>
               (case map_of (rg_writers r) (hb_writer_id hot) of
                  None \<Rightarrow> None
                | Some writer \<Rightarrow> Some (\<lparr>cw_writer_id = hb_writer_id hot, cw_tx = writer\<rparr>, hb_meta hot)))"

definition active_conn_ids :: "conn_registry \<Rightarrow> nat list" where
  "active_conn_ids r = map fst (rg_writer_for_conn r)"

definition get_meta :: "nat \<Rightarrow> conn_registry \<Rightarrow> conn_meta option" where
  "get_meta conn_id r = map_option hb_meta (map_of (rg_hot r) conn_id)"

definition is_writer_empty :: "nat \<Rightarrow> conn_registry \<Rightarrow> bool" where
  "is_writer_empty writer_id r =
     (case map_of (rg_bound_clients r) writer_id of Some count \<Rightarrow> count = 0 | None \<Rightarrow> True)"

definition non_empty_writer_ids :: "nat list \<Rightarrow> conn_registry \<Rightarrow> nat list" where
  "non_empty_writer_ids writer_ids r =
     fold (\<lambda>w out. case map_of (rg_bound_clients r) w of
             Some count \<Rightarrow> if count > 0 then List.insert w out else out | None \<Rightarrow> out) writer_ids []"

subsection \<open>Routing\<close>

text \<open>
  What the client of a connection does while a call waits: how many responses it takes
  from its queue, and whether it goes away.
\<close>

record client_act =
  ca_recv :: nat
  ca_closes :: bool

definition release_permits :: "nat \<Rightarrow> me_response \<Rightarrow> conn_registry \<Rightarrow> conn_registry" where
  "release_permits cid resp r =
     (case resp of
        MR_Data flags data (Some n) \<Rightarrow>
          (case map_of (rg_byte_budget r) cid of
             Some avail \<Rightarrow> r\<lparr>rg_byte_budget := AList.update cid (avail + n) (rg_byte_budget r)\<rparr>
           | None \<Rightarrow> r)
      | _ \<Rightarrow> r)"

definition client_recv :: "nat \<Rightarrow> conn_registry \<Rightarrow> conn_registry" where
  "client_recv cid r =
     (case map_of (rg_routing r) cid of
        Some ch \<Rightarrow>
          (case rc_queue ch of
             [] \<Rightarrow> r
           | resp # rest \<Rightarrow>
               release_permits cid resp
                 (r\<lparr>rg_routing := AList.update cid (ch\<lparr>rc_queue := rest\<rparr>) (rg_routing r)\<rparr>))
      | None \<Rightarrow> r)"

definition client_close :: "nat \<Rightarrow> conn_registry \<Rightarrow> conn_registry" where
  "client_close cid r =
     (case map_of (rg_routing r) cid of
        Some ch \<Rightarrow> r\<lparr>rg_routing := AList.update cid (ch\<lparr>rc_closed := True\<rparr>) (rg_routing r)\<rparr>
      | None \<Rightarrow> r)"

definition client_acts :: "nat \<Rightarrow> client_act \<Rightarrow> conn_registry \<Rightarrow> conn_registry" where
  "client_acts cid act r =
     (let r1 = (client_recv cid ^^ ca_recv act) r
      in if ca_closes act then client_close cid r1 else r1)"

datatype send_outcome = SendOk | SendClosed | SendFull

definition try_send :: "nat \<Rightarrow> me_response \<Rightarrow> conn_registry \<Rightarrow> send_outcome \<times> conn_registry" where
  "try_send cid resp r =
     (case map_of (rg_routing r) cid of
        None \<Rightarrow> (SendClosed, r)
      | Some ch \<Rightarrow>
          if rc_closed ch then (SendClosed, r)
          else if length (rc_queue ch) \<ge> rg_capacity r then (SendFull, r)
          else (SendOk, r\<lparr>rg_routing := AList.update cid (ch\<lparr>rc_queue := rc_queue ch @ [resp]\<rparr>) (rg_routing r)\<rparr>))"

text \<open>
  The permit for a data response. An acquisition that may wait lets the client act first
  and succeeds when the units are free by then. Every caller passes a time limit, and no
  code closes a semaphore, so those two branches of the source do not arise.
\<close>

definition attach_route_byte_permit ::
  "nat \<Rightarrow> me_response \<Rightarrow> nat \<Rightarrow> client_act \<Rightarrow> conn_registry \<Rightarrow> (route_result + me_response) \<times> conn_registry" where
  "attach_route_byte_permit cid resp timeout_ms act r =
     (case resp of
        MR_Data flags data None \<Rightarrow>
          (case map_of (rg_byte_budget r) cid of
             None \<Rightarrow> (Inl Rt_NoConn, r)
           | Some _ \<Rightarrow>
               let permits = route_data_permits (length data);
                   r1 = (if timeout_ms = 0 then r else client_acts cid act r)
               in case map_of (rg_byte_budget r1) cid of
                    None \<Rightarrow> (Inl Rt_NoConn, r1)
                  | Some avail \<Rightarrow>
                      if permits \<le> avail then
                        (Inr (MR_Data flags data (Some permits)),
                         r1\<lparr>rg_byte_budget := AList.update cid (avail - permits) (rg_byte_budget r1)\<rparr>)
                      else (Inl Rt_QueueFullHigh, r1))
      | _ \<Rightarrow> (Inr resp, r))"

definition route_nowait :: "nat \<Rightarrow> me_response \<Rightarrow> conn_registry \<Rightarrow> route_result \<times> conn_registry" where
  "route_nowait cid resp r =
     (if map_of (rg_routing r) cid = None then (Rt_NoConn, r)
      else case attach_route_byte_permit cid resp 0 \<lparr>ca_recv = 0, ca_closes = False\<rparr> r of
             (Inl result, r1) \<Rightarrow> (result, r1)
           | (Inr resp1, r1) \<Rightarrow>
               (case try_send cid resp1 r1 of
                  (SendOk, r2) \<Rightarrow> (Rt_Routed, r2)
                | (SendClosed, r2) \<Rightarrow> (Rt_ChannelClosed, release_permits cid resp1 r2)
                | (SendFull, r2) \<Rightarrow> (Rt_QueueFullBase, release_permits cid resp1 r2)))"

text \<open>
  The wait for a slot in a full queue: the client may act between the failed \<open>try_send\<close> and
  the reading of the fill level, and again during the wait.
\<close>

definition used_pct :: "nat \<Rightarrow> conn_registry \<Rightarrow> nat" where
  "used_pct cid r =
     (let free = (case map_of (rg_routing r) cid of
                    Some ch \<Rightarrow> rg_capacity r - length (rc_queue ch) | None \<Rightarrow> 0);
          used = rg_capacity r - free
      in if rg_capacity r = 0 then 100 else (sat_mul U64_MAX used 100 div rg_capacity r) mod 256)"

definition send_or_wait ::
  "nat \<Rightarrow> me_response \<Rightarrow> client_act \<Rightarrow> client_act \<Rightarrow> conn_registry \<Rightarrow> route_result \<times> conn_registry" where
  "send_or_wait cid resp between during r =
     (case try_send cid resp r of
        (SendOk, r1) \<Rightarrow> (Rt_Routed, r1)
      | (SendClosed, r1) \<Rightarrow> (Rt_ChannelClosed, release_permits cid resp r1)
      | (SendFull, r1) \<Rightarrow>
          let high_watermark_pct = min (max (rg_high_watermark_pct r1) 1) 100;
              r2 = client_acts cid between r1;
              high_profile = (used_pct cid r2 \<ge> high_watermark_pct);
              r3 = client_acts cid during r2
          in case try_send cid resp r3 of
               (SendOk, r4) \<Rightarrow> (Rt_Routed, r4)
             | (SendClosed, r4) \<Rightarrow> (Rt_ChannelClosed, release_permits cid resp r4)
             | (SendFull, r4) \<Rightarrow>
                 (if high_profile then Rt_QueueFullHigh else Rt_QueueFullBase, release_permits cid resp r4))"

record route_acts =
  ra_acquire :: client_act
  ra_between :: client_act
  ra_during :: client_act

definition route :: "nat \<Rightarrow> me_response \<Rightarrow> route_acts \<Rightarrow> conn_registry \<Rightarrow> route_result \<times> conn_registry" where
  "route cid resp acts r =
     (if map_of (rg_routing r) cid = None then (Rt_NoConn, r)
      else
        let base_timeout_ms = max (rg_base_timeout_ms r) 1
        in case attach_route_byte_permit cid resp base_timeout_ms (ra_acquire acts) r of
             (Inl result, r1) \<Rightarrow> (result, r1)
           | (Inr resp1, r1) \<Rightarrow> send_or_wait cid resp1 (ra_between acts) (ra_during acts) r1)"

definition route_with_timeout ::
  "nat \<Rightarrow> me_response \<Rightarrow> nat \<Rightarrow> route_acts \<Rightarrow> conn_registry \<Rightarrow> route_result \<times> conn_registry" where
  "route_with_timeout cid resp timeout_ms acts r =
     (if timeout_ms = 0 then route_nowait cid resp r
      else if map_of (rg_routing r) cid = None then (Rt_NoConn, r)
      else case attach_route_byte_permit cid resp timeout_ms (ra_acquire acts) r of
             (Inl result, r1) \<Rightarrow> (result, r1)
           | (Inr resp1, r1) \<Rightarrow> send_or_wait cid resp1 (ra_between acts) (ra_during acts) r1)"

end
