(* ===== verification/Registry_Invariant.thy ===== *)
theory Registry_Invariant
  imports Conn_Registry
begin

section \<open>Consistency of the connection registry\<close>

text \<open>
  The registry keeps the same relation in several tables. This theory states how they
  agree, shows that every operation keeps them in agreement, and derives what the clients
  of the registry rely on: the bindings a lost writer returns, the lookups after a bind, and
  the bound on the bytes queued for a connection.
\<close>

subsection \<open>Parts of the invariant\<close>

definition conns :: "(nat \<times> nat list) list \<Rightarrow> nat \<Rightarrow> nat list" where
  "conns cfw w = (case map_of cfw w of Some cs \<Rightarrow> cs | None \<Rightarrow> [])"

definition conns_ok :: "(nat \<times> nat) list \<Rightarrow> (nat \<times> nat list) list \<Rightarrow> bool" where
  "conns_ok wfc cfw \<longleftrightarrow>
     (\<forall>c w. map_of wfc c = Some w \<longleftrightarrow> c \<in> set (conns cfw w)) \<and> (\<forall>w. distinct (conns cfw w))"

definition counts_ok :: "(nat \<times> nat list) list \<Rightarrow> (nat \<times> nat) list \<Rightarrow> (nat \<times> nat) list \<Rightarrow> bool" where
  "counts_ok cfw bound idle \<longleftrightarrow>
     (\<forall>w. map_of bound w = map_option length (map_of cfw w)) \<and>
     (\<forall>w. map_of idle w \<noteq> None \<longleftrightarrow> map_of cfw w = Some [])"

definition dc_sessions :: "int \<Rightarrow> (nat \<times> conn_meta) list \<Rightarrow> nat" where
  "dc_sessions dc meta = map_weight (\<lambda>_ m. if cm_target_dc m = dc then 1 else 0) meta"

definition active_ok :: "(int \<times> nat) list \<Rightarrow> (nat \<times> conn_meta) list \<Rightarrow> bool" where
  "active_ok active meta \<longleftrightarrow>
     (\<forall>dc. map_of active dc = (if dc = 0 \<or> dc_sessions dc meta = 0 then None else Some (dc_sessions dc meta)))"

definition hot_ok :: "(nat \<times> hot_conn_binding) list \<Rightarrow> (nat \<times> nat) list \<Rightarrow> (nat \<times> conn_meta) list \<Rightarrow> bool" where
  "hot_ok hot wfc meta \<longleftrightarrow>
     (\<forall>c. map_of hot c =
        (case (map_of wfc c, map_of meta c) of
           (Some w, Some m) \<Rightarrow> Some \<lparr>hb_writer_id = w, hb_meta = m\<rparr> | _ \<Rightarrow> None)) \<and>
     (\<forall>c. map_of meta c = None \<longleftrightarrow> map_of wfc c = None)"

definition tables_wf :: "conn_registry \<Rightarrow> bool" where
  "tables_wf r \<longleftrightarrow> map_wf (rg_writer_for_conn r) \<and> map_wf (rg_conns_for_writer r) \<and> map_wf (rg_meta r) \<and>
     map_wf (rg_active_dc r) \<and> map_wf (rg_hot r) \<and> map_wf (rg_writers r) \<and> map_wf (rg_bound_clients r) \<and>
     map_wf (rg_idle_since r) \<and> map_wf (rg_last_meta r)"

definition binding_inv :: "conn_registry \<Rightarrow> bool" where
  "binding_inv r \<longleftrightarrow> tables_wf r \<and>
     conns_ok (rg_writer_for_conn r) (rg_conns_for_writer r) \<and>
     counts_ok (rg_conns_for_writer r) (rg_bound_clients r) (rg_idle_since r) \<and>
     active_ok (rg_active_dc r) (rg_meta r) \<and>
     hot_ok (rg_hot r) (rg_writer_for_conn r) (rg_meta r) \<and>
     (\<forall>c. map_of (rg_hot r) c \<noteq> None \<longrightarrow> map_of (rg_routing r) c \<noteq> None) \<and>
     (\<forall>w. map_of (rg_writers r) w \<noteq> None \<longrightarrow> map_of (rg_conns_for_writer r) w \<noteq> None) \<and>
     (\<forall>w. map_of (rg_last_meta r) w \<noteq> None \<longrightarrow> map_of (rg_writers r) w \<noteq> None)"

named_theorems reg_simps \<open>the operations as updates of single tables\<close>

subsection \<open>Operations as updates of single tables\<close>

definition adjust_dc :: "int \<Rightarrow> int \<Rightarrow> (int \<times> nat) list \<Rightarrow> (int \<times> nat) list" where
  "adjust_dc dc delta act = rg_active_dc (adjust_active_target_dc dc delta
     ((with_route_limits 0 1 1)\<lparr>rg_active_dc := act\<rparr>))"

lemma adjust_active [reg_simps]:
  "adjust_active_target_dc dc delta r = r\<lparr>rg_active_dc := adjust_dc dc delta (rg_active_dc r)\<rparr>"
  by (auto simp: adjust_active_target_dc_def adjust_dc_def Let_def split: option.splits)

definition set_idle :: "nat \<Rightarrow> nat \<Rightarrow> nat \<Rightarrow> (nat \<times> nat) list \<Rightarrow> (nat \<times> nat) list" where
  "set_idle now w n idle = (if n = 0 then or_insert w now idle else AList.delete w idle)"

lemma set_writer_bound [reg_simps]:
  "set_writer_bound_count now w n r =
    r\<lparr>rg_bound_clients := AList.update w n (rg_bound_clients r), rg_idle_since := set_idle now w n (rg_idle_since r)\<rparr>"
  by (simp add: set_writer_bound_count_def set_idle_def Let_def)

lemma drop_conn [reg_simps]:
  "map_of (rg_conns_for_writer r) w \<noteq> None \<Longrightarrow> drop_conn_of_writer c w r =
    (length (removeAll c (conns (rg_conns_for_writer r) w)),
     r\<lparr>rg_conns_for_writer := AList.update w (removeAll c (conns (rg_conns_for_writer r) w)) (rg_conns_for_writer r)\<rparr>)"
  by (auto simp: drop_conn_of_writer_def conns_def Let_def)

lemma or_insert_lookup:
  "map_of (or_insert k v m) k' = (if k' = k \<and> map_of m k = None then Some v else map_of m k')"
  by (auto simp: or_insert_def hm.lookup_insert)

lemma or_insert_wf: "map_wf m \<Longrightarrow> map_wf (or_insert k v m)"
  by (simp add: or_insert_def hm.wf_insert)

lemma set_idle_wf: "map_wf m \<Longrightarrow> map_wf (set_idle now w n m)"
  by (simp add: set_idle_def or_insert_wf hm.wf_remove)

lemma adjust_dc_wf: "map_wf act \<Longrightarrow> map_wf (adjust_dc dc delta act)"
  by (auto simp: adjust_dc_def adjust_active_target_dc_def Let_def hm.wf_insert hm.wf_remove split: option.splits)

lemmas table_wf = hm.wf_insert hm.wf_remove or_insert_wf set_idle_wf adjust_dc_wf

subsection \<open>Bindings and counters\<close>

lemma conns_update [simp]:
  "conns (AList.update w cs cfw) w' = (if w' = w then cs else conns cfw w')"
  by (simp add: conns_def hm.lookup_insert)

lemma conns_delete [simp]:
  "conns (AList.delete w cfw) w' = (if w' = w then [] else conns cfw w')"
  by (simp add: conns_def hm.lookup_remove)

lemma conns_cong: "conns_ok wfc cfw \<Longrightarrow> map_of wfc' = map_of wfc \<Longrightarrow> conns_ok wfc' cfw"
  by (simp add: conns_ok_def)

lemma conns_mem: "conns_ok wfc cfw \<Longrightarrow> c \<in> set (conns cfw w) \<longleftrightarrow> map_of wfc c = Some w"
  by (simp add: conns_ok_def)

lemma conns_present: "conns_ok wfc cfw \<Longrightarrow> map_of wfc c = Some w \<Longrightarrow> map_of cfw w \<noteq> None"
  using conns_mem [of wfc cfw c w] by (cases "map_of cfw w") (simp_all add: conns_def)

lemma conns_distinct: "conns_ok wfc cfw \<Longrightarrow> distinct (conns cfw w)"
  by (simp add: conns_ok_def)

lemma conns_drop:
  assumes "conns_ok wfc cfw" and "map_of wfc c = Some w"
  shows "conns_ok (AList.delete c wfc) (AList.update w (removeAll c (conns cfw w)) cfw)"
  using assms(2) unfolding conns_ok_def
  by (auto simp: hm.lookup_remove conns_mem [OF assms(1)] distinct_removeAll conns_distinct [OF assms(1)])

lemma conns_add:
  assumes "conns_ok wfc cfw" and "map_of wfc c = None"
  shows "conns_ok (AList.update c w wfc) (AList.update w (List.insert c (conns cfw w)) cfw)"
  using assms(2) unfolding conns_ok_def
  by (auto simp: hm.lookup_insert conns_mem [OF assms(1)] conns_distinct [OF assms(1)])

lemma counts_set:
  "counts_ok cfw bound idle \<Longrightarrow>
    counts_ok (AList.update w cs cfw) (AList.update w (length cs) bound) (set_idle now w (length cs) idle)"
  by (auto simp: counts_ok_def set_idle_def hm.lookup_insert hm.lookup_remove or_insert_lookup)

lemma counts_forget:
  "counts_ok cfw bound idle \<Longrightarrow>
    counts_ok (AList.delete w cfw) (AList.delete w bound) (AList.delete w idle)"
  by (auto simp: counts_ok_def hm.lookup_remove)

lemma dc_sessions_le: "dc_sessions dc meta \<le> length meta"
  unfolding dc_sessions_def by (rule hm.weight_le_size) simp

lemma dc_sessions_delete:
  "map_wf meta \<Longrightarrow> map_of meta c = Some m \<Longrightarrow>
    dc_sessions dc meta = dc_sessions dc (AList.delete c meta) + (if cm_target_dc m = dc then 1 else 0)"
  unfolding dc_sessions_def by (rule hm.weight_remove [symmetric])

lemma dc_sessions_insert:
  "map_of meta c = None \<Longrightarrow>
    dc_sessions dc (AList.update c m meta) = dc_sessions dc meta + (if cm_target_dc m = dc then 1 else 0)"
  unfolding dc_sessions_def by (rule hm.weight_insert_fresh)

lemma dc_sessions_replace:
  assumes "map_wf meta" and "map_of meta c = Some m"
  shows "dc_sessions dc (AList.update c m' meta) = dc_sessions dc (AList.update c m' (AList.delete c meta))"
proof -
  have "dc_sessions dc (AList.update c m' meta) + (if cm_target_dc m = dc then 1 else 0) =
      dc_sessions dc meta + (if cm_target_dc m' = dc then 1 else 0)"
    unfolding dc_sessions_def by (rule hm.weight_insert [OF assms])
  then show ?thesis
    using dc_sessions_delete [OF assms, of dc] dc_sessions_insert [of "AList.delete c meta" c dc m']
    by (simp add: hm.lookup_remove)
qed

lemma adjust_dc_dec:
  "map_of (adjust_dc dc (- 1) act) dc' =
    (if dc' = dc \<and> dc \<noteq> 0 then
       (case map_of act dc of None \<Rightarrow> None | Some n \<Rightarrow> if n - 1 = 0 then None else Some (n - 1))
     else map_of act dc')"
  by (auto simp: adjust_dc_def adjust_active_target_dc_def Let_def hm.lookup_insert hm.lookup_remove
      split: option.splits)

lemma adjust_dc_inc:
  "map_of (adjust_dc dc 1 act) dc' =
    (if dc' = dc \<and> dc \<noteq> 0 then
       (case map_of act dc of None \<Rightarrow> Some 1 | Some n \<Rightarrow> Some (sat_add U64_MAX n 1))
     else map_of act dc')"
  by (auto simp: adjust_dc_def adjust_active_target_dc_def Let_def hm.lookup_insert split: option.splits)

lemma active_dec:
  assumes "active_ok act meta" and "map_wf meta" and "map_of meta c = Some m"
  shows "active_ok (adjust_dc (cm_target_dc m) (- 1) act) (AList.delete c meta)"
  unfolding active_ok_def
proof
  fix dc
  show "map_of (adjust_dc (cm_target_dc m) (- 1) act) dc =
      (if dc = 0 \<or> dc_sessions dc (AList.delete c meta) = 0 then None
       else Some (dc_sessions dc (AList.delete c meta)))"
    using assms(1) dc_sessions_delete [OF assms(2,3), of dc]
    by (auto simp: active_ok_def adjust_dc_dec)
qed

lemma active_inc:
  assumes "active_ok act meta" and "map_of meta c = None" and "length meta < mx" and "mx = U64_MAX"
  shows "active_ok (adjust_dc (cm_target_dc m) 1 act) (AList.update c m meta)"
  unfolding active_ok_def
proof
  fix dc
  have "dc_sessions dc meta < mx" using dc_sessions_le [of dc meta] assms(3) by (rule order_le_less_trans)
  then have "sat_add mx (dc_sessions dc meta) 1 = dc_sessions dc meta + 1" by (simp add: sat_add_def)
  then show "map_of (adjust_dc (cm_target_dc m) 1 act) dc =
      (if dc = 0 \<or> dc_sessions dc (AList.update c m meta) = 0 then None
       else Some (dc_sessions dc (AList.update c m meta)))"
    using assms(1) dc_sessions_insert [OF assms(2), of dc m]
    by (auto simp: active_ok_def adjust_dc_inc assms(4) [symmetric])
qed

lemma active_cong: "active_ok act meta \<Longrightarrow> (\<And>dc. dc_sessions dc meta' = dc_sessions dc meta) \<Longrightarrow> active_ok act meta'"
  by (simp add: active_ok_def)

lemma hot_delete:
  "hot_ok hot wfc meta \<Longrightarrow> hot_ok (AList.delete c hot) (AList.delete c wfc) (AList.delete c meta)"
  by (auto simp: hot_ok_def hm.lookup_remove split: option.splits)

lemma hot_insert:
  "hot_ok hot wfc meta \<Longrightarrow>
    hot_ok (AList.update c \<lparr>hb_writer_id = w, hb_meta = m\<rparr> hot) (AList.update c w wfc) (AList.update c m meta)"
  by (auto simp: hot_ok_def hm.lookup_insert split: option.splits)

subsection \<open>Every operation keeps the bindings consistent\<close>

lemma binding_inv_new: "binding_inv (with_route_limits seed cap permits)"
  by (simp add: binding_inv_def tables_wf_def with_route_limits_def conns_ok_def conns_def counts_ok_def
      active_ok_def dc_sessions_def hot_ok_def)

lemma binding_inv_register: "binding_inv r \<Longrightarrow> binding_inv (snd (register r))"
  by (simp add: binding_inv_def tables_wf_def register_def Let_def hm.lookup_insert)

lemma binding_inv_register_writer:
  assumes "binding_inv r" and "conns (rg_conns_for_writer r) w = []"
  shows "binding_inv (register_writer now w tx r)"
proof -
  have c: "conns_ok (rg_writer_for_conn r) (or_insert w [] (rg_conns_for_writer r))"
    using assms by (auto simp: binding_inv_def conns_ok_def conns_def or_insert_lookup)
  have n: "map_of (rg_conns_for_writer r) w = None \<or> map_of (rg_conns_for_writer r) w = Some []"
    using assms(2) by (cases "map_of (rg_conns_for_writer r) w") (simp_all add: conns_def)
  have "counts_ok (or_insert w [] (rg_conns_for_writer r)) (or_insert w 0 (rg_bound_clients r))
      (or_insert w now (rg_idle_since r))"
    using assms(1) n by (auto simp: binding_inv_def counts_ok_def or_insert_lookup)
  with c show ?thesis
    using assms(1)
    by (auto simp: binding_inv_def tables_wf_def register_writer_def table_wf hm.lookup_insert or_insert_lookup)
qed

lemma binding_inv_mark_idle:
  assumes "binding_inv r"
  shows "binding_inv (mark_writer_idle now w r)"
proof -
  let ?cfw = "or_insert w [] (rg_conns_for_writer r)"
  have look: "map_of ?cfw w = Some (conns (rg_conns_for_writer r) w)"
    by (simp add: or_insert_lookup conns_def split: option.splits)
  have c: "conns_ok (rg_writer_for_conn r) ?cfw"
    using assms by (auto simp: binding_inv_def conns_ok_def conns_def or_insert_lookup)
  have same: "map_of (AList.update w (conns (rg_conns_for_writer r) w) (rg_conns_for_writer r)) = map_of ?cfw"
    by (rule ext) (simp add: hm.lookup_insert or_insert_lookup conns_def split: option.splits)
  have "counts_ok (rg_conns_for_writer r) (rg_bound_clients r) (rg_idle_since r)"
    using assms by (simp add: binding_inv_def)
  from counts_set [OF this, of w "conns (rg_conns_for_writer r) w" now]
  have "counts_ok ?cfw (AList.update w (length (conns (rg_conns_for_writer r) w)) (rg_bound_clients r))
      (set_idle now w (length (conns (rg_conns_for_writer r) w)) (rg_idle_since r))"
    unfolding counts_ok_def same .
  moreover have "mark_writer_idle now w r = r\<lparr>rg_conns_for_writer := ?cfw,
      rg_bound_clients := AList.update w (length (conns (rg_conns_for_writer r) w)) (rg_bound_clients r),
      rg_idle_since := set_idle now w (length (conns (rg_conns_for_writer r) w)) (rg_idle_since r)\<rparr>"
    by (simp add: mark_writer_idle_def Let_def reg_simps look)
  ultimately show ?thesis
    using assms c by (auto simp: binding_inv_def tables_wf_def table_wf or_insert_lookup)
qed

lemma unregister_unbound:
  assumes "binding_inv r" and "map_of (rg_writer_for_conn r) c = None"
  shows "unregister now c r = (None, (unregister_routes c r)\<lparr>rg_meta := AList.delete c (rg_meta r)\<rparr>)"
proof -
  have "map_of (rg_meta r) c = None" using assms by (simp add: binding_inv_def hot_ok_def)
  then show ?thesis
    using assms(2) by (simp add: unregister_def unregister_binding_def unregister_routes_def Let_def)
qed

lemma unregister_bound:
  assumes "binding_inv r" and "map_of (rg_writer_for_conn r) c = Some w" and "map_of (rg_meta r) c = Some m"
  defines "cs \<equiv> removeAll c (conns (rg_conns_for_writer r) w)"
  shows "unregister now c r = (Some w, (unregister_routes c r)\<lparr>
      rg_meta := AList.delete c (rg_meta r),
      rg_active_dc := adjust_dc (cm_target_dc m) (- 1) (rg_active_dc r),
      rg_writer_for_conn := AList.delete c (rg_writer_for_conn r),
      rg_conns_for_writer := AList.update w cs (rg_conns_for_writer r),
      rg_bound_clients := AList.update w (length cs) (rg_bound_clients r),
      rg_idle_since := set_idle now w (length cs) (rg_idle_since r)\<rparr>)"
proof -
  have "map_of (rg_conns_for_writer r) w \<noteq> None"
    using assms by (intro conns_present) (auto simp: binding_inv_def)
  then show ?thesis
    using assms by (simp add: unregister_def unregister_binding_def unregister_routes_def Let_def reg_simps)
qed

lemma binding_inv_conns: "binding_inv r \<Longrightarrow> conns_ok (rg_writer_for_conn r) (rg_conns_for_writer r)"
  by (simp add: binding_inv_def)

lemma bound_meta:
  assumes "binding_inv r" and "map_of (rg_writer_for_conn r) c = Some w"
  obtains m where "map_of (rg_meta r) c = Some m"
  using assms by (cases "map_of (rg_meta r) c") (auto simp: binding_inv_def hot_ok_def)

lemma binding_inv_unregister:
  assumes "binding_inv r"
  shows "binding_inv (snd (unregister now c r))"
proof (cases "map_of (rg_writer_for_conn r) c")
  case None
  then have m: "map_of (rg_meta r) c = None" using assms by (simp add: binding_inv_def hot_ok_def)
  have "AList.delete c (rg_meta r) = rg_meta r"
    using m by (simp add: AList.delete_id map_of_eq_None_iff)
  moreover have "map_of (AList.delete c (rg_hot r)) = map_of (rg_hot r)"
    using assms None by (intro ext) (simp add: hm.lookup_remove binding_inv_def hot_ok_def)
  then have "hot_ok (AList.delete c (rg_hot r)) (rg_writer_for_conn r) (rg_meta r)"
    using assms unfolding binding_inv_def hot_ok_def by simp
  ultimately show ?thesis
    using assms unfolding unregister_unbound [OF assms None] binding_inv_def tables_wf_def
    by (auto simp: unregister_routes_def table_wf hm.lookup_remove)
next
  case (Some w)
  with assms obtain m where m: "map_of (rg_meta r) c = Some m" by (rule bound_meta)
  have i: "tables_wf r" "conns_ok (rg_writer_for_conn r) (rg_conns_for_writer r)"
    "counts_ok (rg_conns_for_writer r) (rg_bound_clients r) (rg_idle_since r)"
    "active_ok (rg_active_dc r) (rg_meta r)" "hot_ok (rg_hot r) (rg_writer_for_conn r) (rg_meta r)"
    using assms by (simp_all add: binding_inv_def)
  have "map_wf (rg_meta r)" using i(1) by (simp add: tables_wf_def)
  note act = active_dec [OF i(4) this m] and con = conns_drop [OF i(2) Some]
    and cnt = counts_set [OF i(3), of w "removeAll c (conns (rg_conns_for_writer r) w)" now]
    and ht = hot_delete [OF i(5), of c]
  show ?thesis
    using assms act con cnt ht i(1) unfolding unregister_bound [OF assms Some m] binding_inv_def
    by (auto simp: unregister_routes_def tables_wf_def table_wf hm.lookup_remove hm.lookup_insert)
qed

lemma binding_inv_unregister_size: "length (rg_meta (snd (unregister now c r))) \<le> length (rg_meta r)"
proof -
  have "length (AList.delete c m) \<le> length m" for m :: "(nat \<times> conn_meta) list"
    by (rule AList.length_delete_le)
  then show ?thesis
    by (auto simp: unregister_def unregister_binding_def unregister_routes_def Let_def reg_simps
        drop_conn_of_writer_def split: option.splits)
qed

text \<open>A bind as one update of every table, for a new connection and for one that moves.\<close>

lemma bind_commit_tables:
  fixes now c w m r
  defines "old \<equiv> map_of (rg_writer_for_conn r) c"
  defines "cfw1 \<equiv> (case old of Some p \<Rightarrow> if p \<noteq> w then
      AList.update p (removeAll c (conns (rg_conns_for_writer r) p)) (rg_conns_for_writer r)
      else rg_conns_for_writer r | None \<Rightarrow> rg_conns_for_writer r)"
  defines "bound1 \<equiv> (case old of Some p \<Rightarrow> if p \<noteq> w then
      AList.update p (length (removeAll c (conns (rg_conns_for_writer r) p))) (rg_bound_clients r)
      else rg_bound_clients r | None \<Rightarrow> rg_bound_clients r)"
  defines "idle1 \<equiv> (case old of Some p \<Rightarrow> if p \<noteq> w then
      set_idle now p (length (removeAll c (conns (rg_conns_for_writer r) p))) (rg_idle_since r)
      else rg_idle_since r | None \<Rightarrow> rg_idle_since r)"
  defines "act1 \<equiv> (case map_of (rg_meta r) c of Some pm \<Rightarrow> adjust_dc (cm_target_dc pm) (- 1) (rg_active_dc r)
      | None \<Rightarrow> rg_active_dc r)"
  assumes "conns_ok (rg_writer_for_conn r) (rg_conns_for_writer r)"
  shows "bind_commit now c w m r = r\<lparr>
      rg_writer_for_conn := AList.update c w (rg_writer_for_conn r),
      rg_meta := AList.update c m (rg_meta r),
      rg_active_dc := adjust_dc (cm_target_dc m) 1 act1,
      rg_last_meta := AList.update w m (rg_last_meta r),
      rg_conns_for_writer := AList.update w (List.insert c (conns cfw1 w)) cfw1,
      rg_bound_clients := AList.update w (length (List.insert c (conns cfw1 w))) bound1,
      rg_idle_since := set_idle now w (length (List.insert c (conns cfw1 w))) idle1,
      rg_hot := AList.update c \<lparr>hb_writer_id = w, hb_meta = m\<rparr> (rg_hot r)\<rparr>"
proof (cases old)
  case None
  then show ?thesis
    unfolding bind_commit_def old_def [symmetric] cfw1_def bound1_def idle1_def act1_def
    by (cases "map_of (rg_meta r) c") (simp_all add: Let_def reg_simps conns_def)
next
  case (Some p)
  then have "map_of (rg_conns_for_writer r) p \<noteq> None"
    unfolding old_def by (rule conns_present [OF assms(6)])
  then show ?thesis
    using Some unfolding bind_commit_def old_def [symmetric] cfw1_def bound1_def idle1_def act1_def
    by (cases "map_of (rg_meta r) c"; cases "p = w")
       (simp_all add: Let_def drop_conn set_writer_bound adjust_active conns_def [symmetric])
qed

lemma conns_ok_fun: "conns_ok wfc cfw \<Longrightarrow> (\<And>w. conns cfw' w = conns cfw w) \<Longrightarrow> conns_ok wfc cfw'"
  by (simp add: conns_ok_def)

lemma conns_move:
  assumes "conns_ok wfc cfw" and "map_of wfc c = Some p" and "p \<noteq> w"
  defines "cfw1 \<equiv> AList.update p (removeAll c (conns cfw p)) cfw"
  shows "conns_ok (AList.update c w wfc) (AList.update w (List.insert c (conns cfw1 w)) cfw1)"
proof -
  have "conns_ok (AList.delete c wfc) cfw1" unfolding cfw1_def using assms(1,2) by (rule conns_drop)
  then have "conns_ok (AList.update c w (AList.delete c wfc)) (AList.update w (List.insert c (conns cfw1 w)) cfw1)"
    by (rule conns_add) (simp add: hm.lookup_remove)
  moreover have "map_of (AList.update c w wfc) = map_of (AList.update c w (AList.delete c wfc))"
    by (simp add: hm.lookup_insert hm.lookup_remove)
  ultimately show ?thesis by (rule conns_cong)
qed

lemma conns_stay:
  assumes "conns_ok wfc cfw" and "map_of wfc c = Some w"
  shows "conns_ok (AList.update c w wfc) (AList.update w (List.insert c (conns cfw w)) cfw)"
proof -
  have "conns_ok (AList.update c w wfc) cfw"
    using assms(1) by (rule conns_cong) (use assms(2) in \<open>auto simp: hm.lookup_insert\<close>)
  then show ?thesis
    by (rule conns_ok_fun) (use assms in \<open>simp add: conns_mem\<close>)
qed

lemma active_replace:
  assumes "active_ok act meta" and "map_wf meta" and "length meta < mx" and "mx = U64_MAX"
  shows "active_ok (adjust_dc (cm_target_dc m) 1 (case map_of meta c of
      Some pm \<Rightarrow> adjust_dc (cm_target_dc pm) (- 1) act | None \<Rightarrow> act)) (AList.update c m meta)"
proof (cases "map_of meta c")
  case None
  then show ?thesis using active_inc [OF assms(1) None assms(3,4)] by simp
next
  case (Some pm)
  have "length (AList.delete c meta) < mx"
    using AList.length_delete_le [of c meta] assms(3) by (rule order_le_less_trans)
  from active_inc [OF active_dec [OF assms(1,2) Some] _ this assms(4), of c m]
  have "active_ok (adjust_dc (cm_target_dc m) 1 (adjust_dc (cm_target_dc pm) (- 1) act))
      (AList.update c m (AList.delete c meta))" by (simp add: hm.lookup_remove)
  then have "active_ok (adjust_dc (cm_target_dc m) 1 (adjust_dc (cm_target_dc pm) (- 1) act)) (AList.update c m meta)"
    by (rule active_cong) (rule dc_sessions_replace [OF assms(2) Some])
  then show ?thesis using Some by simp
qed

lemma binding_inv_bind:
  assumes "binding_inv r" and "bind_guard c w r" and "length (rg_meta r) < U64_MAX"
  shows "binding_inv (bind_commit now c w m r)"
proof -
  have i: "tables_wf r" "conns_ok (rg_writer_for_conn r) (rg_conns_for_writer r)"
    "counts_ok (rg_conns_for_writer r) (rg_bound_clients r) (rg_idle_since r)"
    "active_ok (rg_active_dc r) (rg_meta r)" "hot_ok (rg_hot r) (rg_writer_for_conn r) (rg_meta r)"
    using assms by (simp_all add: binding_inv_def)
  have wf: "map_wf (rg_meta r)" using i(1) by (simp add: tables_wf_def)
  note act = active_replace [OF i(4) wf assms(3) refl, of m c] and ht = hot_insert [OF i(5), of c w m]
  note tables = bind_commit_tables [OF i(2), of now c w m]
  show ?thesis
  proof (cases "map_of (rg_writer_for_conn r) c")
    case None
    from conns_add [OF i(2) None, of w] counts_set [OF i(3)] act ht show ?thesis
      using assms(1,2) i(1) None unfolding tables binding_inv_def
      by (auto simp: bind_guard_def tables_wf_def table_wf hm.lookup_insert split: option.splits)
  next
    case (Some p)
    show ?thesis
    proof (cases "p = w")
      case True
      with conns_stay [OF i(2)] Some counts_set [OF i(3)] act ht show ?thesis
        using assms(1,2) i(1) unfolding tables binding_inv_def
        by (auto simp: bind_guard_def tables_wf_def table_wf hm.lookup_insert split: option.splits)
    next
      case False
      from conns_move [OF i(2) Some False] counts_set [OF counts_set [OF i(3)]] act ht show ?thesis
        using assms(1,2) i(1) Some False unfolding tables binding_inv_def
        by (auto simp: bind_guard_def tables_wf_def table_wf hm.lookup_insert split: option.splits)
    qed
  qed
qed

subsection \<open>A lost writer\<close>

text \<open>
  The state inside the loop of \<open>writer_lost\<close>: the writer is forgotten, and the connections
  still to be released are \<open>cs\<close>.
\<close>

definition losing :: "nat \<Rightarrow> nat list \<Rightarrow> conn_registry \<Rightarrow> bool" where
  "losing w cs r \<longleftrightarrow> map_of (rg_conns_for_writer r) w = None \<and>
     conns_ok (rg_writer_for_conn r) (AList.update w cs (rg_conns_for_writer r)) \<and> tables_wf r \<and>
     counts_ok (rg_conns_for_writer r) (rg_bound_clients r) (rg_idle_since r) \<and>
     active_ok (rg_active_dc r) (rg_meta r) \<and>
     hot_ok (rg_hot r) (rg_writer_for_conn r) (rg_meta r) \<and>
     (\<forall>c. map_of (rg_hot r) c \<noteq> None \<longrightarrow> map_of (rg_routing r) c \<noteq> None) \<and>
     (\<forall>w. map_of (rg_writers r) w \<noteq> None \<longrightarrow> map_of (rg_conns_for_writer r) w \<noteq> None) \<and>
     (\<forall>w. map_of (rg_last_meta r) w \<noteq> None \<longrightarrow> map_of (rg_writers r) w \<noteq> None)"

lemma losing_start:
  assumes "binding_inv r"
  shows "losing w (conns (rg_conns_for_writer r) w) (forget_writer w r)"
proof -
  have "conns_ok (rg_writer_for_conn r) (rg_conns_for_writer r)" using assms by (simp add: binding_inv_def)
  then have "conns_ok (rg_writer_for_conn r)
      (AList.update w (conns (rg_conns_for_writer r) w) (AList.delete w (rg_conns_for_writer r)))"
    by (rule conns_ok_fun) simp
  then show ?thesis
    using assms unfolding losing_def binding_inv_def
    by (auto simp: forget_writer_def tables_wf_def table_wf hm.lookup_remove intro: counts_forget)
qed

lemma losing_end: "losing w [] r \<Longrightarrow> binding_inv r"
proof -
  assume l: "losing w [] r"
  then have "conns_ok (rg_writer_for_conn r) (AList.update w [] (rg_conns_for_writer r))"
    and "map_of (rg_conns_for_writer r) w = None" by (simp_all add: losing_def)
  then have "conns_ok (rg_writer_for_conn r) (rg_conns_for_writer r)"
    by (elim conns_ok_fun) (simp add: conns_def hm.lookup_insert)
  with l show ?thesis by (simp add: losing_def binding_inv_def)
qed

lemma losing_step:
  assumes "losing w (c # cs) r"
  obtains m where "map_of (rg_meta r) c = Some m"
    and "lose_conn w c (r, out) = (r\<lparr>
        rg_writer_for_conn := AList.delete c (rg_writer_for_conn r),
        rg_meta := AList.delete c (rg_meta r),
        rg_active_dc := adjust_dc (cm_target_dc m) (- 1) (rg_active_dc r),
        rg_hot := AList.delete c (rg_hot r)\<rparr>, out @ [\<lparr>bc_conn_id = c, bc_meta = m\<rparr>])"
    and "losing w cs (fst (lose_conn w c (r, out)))"
proof -
  let ?cfw = "AList.update w (c # cs) (rg_conns_for_writer r)"
  have con: "conns_ok (rg_writer_for_conn r) ?cfw" and ht: "hot_ok (rg_hot r) (rg_writer_for_conn r) (rg_meta r)"
    and act: "active_ok (rg_active_dc r) (rg_meta r)" and wf: "map_wf (rg_meta r)"
    using assms by (simp_all add: losing_def tables_wf_def)
  have cw: "map_of (rg_writer_for_conn r) c = Some w" using conns_mem [OF con, of c w] by simp
  then obtain m where m: "map_of (rg_meta r) c = Some m"
    using ht by (cases "map_of (rg_meta r) c") (auto simp: hot_ok_def)
  have hc: "map_of (rg_hot r) c = Some \<lparr>hb_writer_id = w, hb_meta = m\<rparr>"
    using ht cw m by (simp add: hot_ok_def)
  have eq: "lose_conn w c (r, out) = (r\<lparr>
        rg_writer_for_conn := AList.delete c (rg_writer_for_conn r),
        rg_meta := AList.delete c (rg_meta r),
        rg_active_dc := adjust_dc (cm_target_dc m) (- 1) (rg_active_dc r),
        rg_hot := AList.delete c (rg_hot r)\<rparr>, out @ [\<lparr>bc_conn_id = c, bc_meta = m\<rparr>])"
    using cw m hc by (simp add: lose_conn_def Let_def adjust_active)
  have "removeAll c cs = cs" using conns_distinct [OF con, of w] by simp
  then have "conns_ok (AList.delete c (rg_writer_for_conn r)) (AList.update w cs (rg_conns_for_writer r))"
    using conns_drop [OF con cw] by (elim conns_ok_fun) simp
  then have "losing w cs (fst (lose_conn w c (r, out)))"
    using assms active_dec [OF act wf m] hot_delete [OF ht, of c] unfolding eq losing_def
    by (auto simp: tables_wf_def table_wf hm.lookup_remove)
  with m eq show thesis by (rule that)
qed

lemma losing_loop:
  assumes "losing w cs r"
  shows "\<exists>r' ms. fold (lose_conn w) cs (r, out) = (r', out @ ms) \<and> binding_inv r' \<and>
    map bc_conn_id ms = cs \<and> (\<forall>b\<in>set ms. map_of (rg_meta r) (bc_conn_id b) = Some (bc_meta b)) \<and>
    (\<forall>c. map_of (rg_writer_for_conn r') c = (if c \<in> set cs then None else map_of (rg_writer_for_conn r) c)) \<and>
    (\<forall>c. map_of (rg_meta r') c = (if c \<in> set cs then None else map_of (rg_meta r) c)) \<and>
    rg_writers r' = rg_writers r \<and> rg_routing r' = rg_routing r"
  using assms
proof (induction cs arbitrary: r out)
  case Nil
  then show ?case using losing_end by auto
next
  case (Cons c cs)
  have "distinct (c # cs)"
    using Cons.prems conns_distinct [of "rg_writer_for_conn r" "AList.update w (c # cs) (rg_conns_for_writer r)" w]
    by (simp add: losing_def)
  obtain m where m: "map_of (rg_meta r) c = Some m" and eq: "lose_conn w c (r, out) = (r\<lparr>
        rg_writer_for_conn := AList.delete c (rg_writer_for_conn r),
        rg_meta := AList.delete c (rg_meta r),
        rg_active_dc := adjust_dc (cm_target_dc m) (- 1) (rg_active_dc r),
        rg_hot := AList.delete c (rg_hot r)\<rparr>, out @ [\<lparr>bc_conn_id = c, bc_meta = m\<rparr>])"
    and l: "losing w cs (fst (lose_conn w c (r, out)))"
    using Cons.prems by (rule losing_step)
  let ?r1 = "fst (lose_conn w c (r, out))" and ?b = "\<lparr>bc_conn_id = c, bc_meta = m\<rparr>"
  from Cons.IH [OF l, of "out @ [?b]"] obtain r' ms where
    f: "fold (lose_conn w) cs (?r1, out @ [?b]) = (r', (out @ [?b]) @ ms)" "binding_inv r'"
      "map bc_conn_id ms = cs" "\<forall>b\<in>set ms. map_of (rg_meta ?r1) (bc_conn_id b) = Some (bc_meta b)"
      "\<forall>c. map_of (rg_writer_for_conn r') c = (if c \<in> set cs then None else map_of (rg_writer_for_conn ?r1) c)"
      "\<forall>c. map_of (rg_meta r') c = (if c \<in> set cs then None else map_of (rg_meta ?r1) c)"
      "rg_writers r' = rg_writers ?r1" "rg_routing r' = rg_routing ?r1" by blast
  have step: "lose_conn w c (r, out) = (?r1, out @ [?b])" using eq by simp
  have "fold (lose_conn w) (c # cs) (r, out) = (r', out @ ?b # ms)" using f(1) step by simp
  moreover have "\<forall>b\<in>set (?b # ms). map_of (rg_meta r) (bc_conn_id b) = Some (bc_meta b)"
    using f(4) m eq by (auto simp: hm.lookup_remove split: if_splits)
  ultimately show ?case
    using f eq by (intro exI [of _ r'] exI [of _ "?b # ms"]) (auto simp: hm.lookup_remove)
qed

lemma writer_lost_loop:
  assumes "binding_inv r"
  obtains out r' where "writer_lost w r = (out, r')" and "binding_inv r'"
    and "map bc_conn_id out = conns (rg_conns_for_writer r) w"
    and "\<And>b. b \<in> set out \<Longrightarrow> map_of (rg_meta r) (bc_conn_id b) = Some (bc_meta b)"
    and "\<And>c. map_of (rg_writer_for_conn r') c =
      (if map_of (rg_writer_for_conn r) c = Some w then None else map_of (rg_writer_for_conn r) c)"
    and "\<And>c. map_of (rg_meta r') c =
      (if map_of (rg_writer_for_conn r) c = Some w then None else map_of (rg_meta r) c)"
    and "map_of (rg_writers r') w = None" and "rg_routing r' = rg_routing r"
    and "\<And>w'. w' \<noteq> w \<Longrightarrow> map_of (rg_writers r') w' = map_of (rg_writers r) w'"
proof -
  let ?cs = "conns (rg_conns_for_writer r) w" and ?r0 = "forget_writer w r"
  have mem: "c \<in> set ?cs \<longleftrightarrow> map_of (rg_writer_for_conn r) c = Some w" for c
    using assms by (intro conns_mem) (simp add: binding_inv_def)
  from losing_loop [OF losing_start [OF assms, of w], of "[]"] obtain r' ms where
    f: "fold (lose_conn w) ?cs (?r0, []) = (r', ms)" "binding_inv r'" "map bc_conn_id ms = ?cs"
      "\<forall>b\<in>set ms. map_of (rg_meta ?r0) (bc_conn_id b) = Some (bc_meta b)"
      "\<forall>c. map_of (rg_writer_for_conn r') c = (if c \<in> set ?cs then None else map_of (rg_writer_for_conn ?r0) c)"
      "\<forall>c. map_of (rg_meta r') c = (if c \<in> set ?cs then None else map_of (rg_meta ?r0) c)"
      "rg_writers r' = rg_writers ?r0" "rg_routing r' = rg_routing ?r0" by auto
  have "writer_lost w r = (ms, r')"
    using f(1) by (simp add: writer_lost_def conns_def [symmetric])
  then show thesis
    by (rule that) (use f mem in \<open>simp_all add: forget_writer_def hm.lookup_remove\<close>)
qed

end
