(* ===== verification/Registry_Routing.thy ===== *)
theory Registry_Routing
  imports Registry_Invariant
begin

section \<open>Response queues, runs of the registry, and its properties\<close>

text \<open>
  The budget of permits behind each response queue, the registry as a state machine over
  its calls and the clients' receives, and the properties of \<^verbatim>\<open>registry.rs\<close>.
\<close>

subsection \<open>Permits\<close>

fun resp_permits :: "me_response \<Rightarrow> nat" where
  "resp_permits (MR_Data _ _ (Some n)) = n"
| "resp_permits _ = 0"

fun queued_ok :: "me_response \<Rightarrow> bool" where
  "queued_ok (MR_Data _ d p) \<longleftrightarrow> p = Some (route_data_permits (length d))"
| "queued_ok _ = True"

text \<open>
  The state of one connection: units free, units held by the queue and units \<open>h\<close> held by a
  response on its way add up to the budget.
\<close>

fun chan_ok :: "nat \<Rightarrow> nat \<Rightarrow> nat \<Rightarrow> route_channel option \<Rightarrow> nat option \<Rightarrow> bool" where
  "chan_ok h cap per (Some ch) (Some avail) \<longleftrightarrow>
     avail + sum_list (map resp_permits (rc_queue ch)) + h = per \<and> length (rc_queue ch) \<le> cap \<and>
     list_all queued_ok (rc_queue ch)"
| "chan_ok h cap per None None = True"
| "chan_ok h cap per _ _ = False"

definition route_inv :: "(nat \<Rightarrow> nat) \<Rightarrow> conn_registry \<Rightarrow> bool" where
  "route_inv held r \<longleftrightarrow> 0 < rg_capacity r \<and>
     (\<forall>c. chan_ok (held c) (rg_capacity r) (rg_permits_per_conn r) (map_of (rg_routing r) c) (map_of (rg_byte_budget r) c))"

text \<open>Routing calls touch the queues and budgets only, and remove no routing entry.\<close>

definition route_frame :: "conn_registry \<Rightarrow> conn_registry \<Rightarrow> bool" where
  "route_frame r r' \<longleftrightarrow> r' = r\<lparr>rg_routing := rg_routing r', rg_byte_budget := rg_byte_budget r'\<rparr> \<and>
     (\<forall>c. map_of (rg_routing r') c = None \<longleftrightarrow> map_of (rg_routing r) c = None)"

lemma route_frame_refl: "route_frame r r"
  by (simp add: route_frame_def)

lemma route_frame_trans: "route_frame r1 r2 \<Longrightarrow> route_frame r2 r3 \<Longrightarrow> route_frame r1 r3"
  by (cases r1; cases r2; cases r3) (simp add: route_frame_def)

lemma frame_binding_inv: "route_frame r r' \<Longrightarrow> binding_inv r \<Longrightarrow> binding_inv r'"
  by (cases r; cases r') (auto simp: route_frame_def binding_inv_def tables_wf_def)

lemma frame_meta: "route_frame r r' \<Longrightarrow> rg_meta r' = rg_meta r"
  by (cases r; cases r') (simp add: route_frame_def)

lemma frame_permits:
  "route_frame r r' \<Longrightarrow> rg_permits_per_conn r' = rg_permits_per_conn r \<and> rg_capacity r' = rg_capacity r"
  by (cases r; cases r') (simp add: route_frame_def)

lemma route_inv_entry:
  assumes "route_inv held r" and "map_of (rg_routing r) c = Some ch"
  obtains avail where "map_of (rg_byte_budget r) c = Some avail"
    and "chan_ok (held c) (rg_capacity r) (rg_permits_per_conn r) (Some ch) (Some avail)"
proof -
  have "chan_ok (held c) (rg_capacity r) (rg_permits_per_conn r) (Some ch) (map_of (rg_byte_budget r) c)"
    using assms by (auto simp: route_inv_def dest: spec [of _ c])
  then show thesis using that by (cases "map_of (rg_byte_budget r) c") auto
qed

text \<open>Replacing the two entries of a connection.\<close>

lemma route_inv_update:
  assumes "route_inv held r" and "chan_ok h (rg_capacity r) (rg_permits_per_conn r) (Some ch) (Some avail)"
  shows "route_inv (held(c := h)) (r\<lparr>rg_routing := AList.update c ch (rg_routing r),
    rg_byte_budget := AList.update c avail (rg_byte_budget r)\<rparr>)"
  using assms by (auto simp: route_inv_def hm.lookup_insert)

lemma update_same_lookup: "map_of m c = Some v \<Longrightarrow> map_of (AList.update c v m) = map_of m"
  by (auto simp: hm.lookup_insert)

lemma route_inv_cong:
  assumes "route_inv held r" and "map_of (rg_routing r') = map_of (rg_routing r)"
    and "map_of (rg_byte_budget r') = map_of (rg_byte_budget r)"
    and "rg_capacity r' = rg_capacity r" and "rg_permits_per_conn r' = rg_permits_per_conn r"
  shows "route_inv held r'"
  using assms by (simp add: route_inv_def)

lemma release_inv:
  assumes "route_inv held r" and "held c = h + resp_permits resp"
  shows "route_inv (held(c := h)) (release_permits c resp r) \<and> route_frame r (release_permits c resp r)"
proof (cases "map_of (rg_routing r) c")
  case None
  moreover have "chan_ok (held c) (rg_capacity r) (rg_permits_per_conn r) None (map_of (rg_byte_budget r) c)"
    using assms(1) None by (auto simp: route_inv_def dest: spec [of _ c])
  then have "map_of (rg_byte_budget r) c = None" by (cases "map_of (rg_byte_budget r) c") auto
  ultimately show ?thesis
    using assms(1) by (auto simp: release_permits_def route_inv_def route_frame_refl
      split: me_response.splits option.splits)
next
  case (Some ch)
  with assms(1) obtain avail where b: "map_of (rg_byte_budget r) c = Some avail"
    and ok: "chan_ok (held c) (rg_capacity r) (rg_permits_per_conn r) (Some ch) (Some avail)"
    by (rule route_inv_entry)
  have "chan_ok h (rg_capacity r) (rg_permits_per_conn r) (Some ch) (Some (avail + resp_permits resp))"
    using ok assms(2) by simp
  from route_inv_update [OF assms(1) this, of c]
  have inv: "route_inv (held(c := h)) (r\<lparr>rg_routing := AList.update c ch (rg_routing r),
      rg_byte_budget := AList.update c (avail + resp_permits resp) (rg_byte_budget r)\<rparr>)" .
  have cases: "release_permits c resp r = r \<and> resp_permits resp = 0 \<or>
      release_permits c resp r =
        r\<lparr>rg_byte_budget := AList.update c (avail + resp_permits resp) (rg_byte_budget r)\<rparr>"
    using b by (auto simp: release_permits_def split: me_response.splits option.splits)
  then have "route_inv (held(c := h)) (release_permits c resp r)"
    by (elim disjE conjE) (rule route_inv_cong [OF inv]; simp add: update_same_lookup [OF Some] update_same_lookup [OF b])+
  moreover have "route_frame r (release_permits c resp r)"
    using cases by (auto simp: route_frame_def)
  ultimately show ?thesis ..
qed

lemma client_recv_inv:
  assumes "route_inv held r"
  shows "route_inv held (client_recv c r) \<and> route_frame r (client_recv c r)"
proof (cases "map_of (rg_routing r) c")
  case None
  then show ?thesis using assms by (simp add: client_recv_def route_frame_refl)
next
  case (Some ch)
  show ?thesis
  proof (cases "rc_queue ch")
    case Nil
    then show ?thesis using assms Some by (simp add: client_recv_def route_frame_refl)
  next
    case (Cons resp rest)
    from assms Some obtain avail where b: "map_of (rg_byte_budget r) c = Some avail"
      and ok: "chan_ok (held c) (rg_capacity r) (rg_permits_per_conn r) (Some ch) (Some avail)"
      by (rule route_inv_entry)
    let ?r1 = "r\<lparr>rg_routing := AList.update c (ch\<lparr>rc_queue := rest\<rparr>) (rg_routing r)\<rparr>"
    have "chan_ok (held c + resp_permits resp) (rg_capacity r) (rg_permits_per_conn r)
        (Some (ch\<lparr>rc_queue := rest\<rparr>)) (Some avail)" using ok Cons by simp
    from route_inv_update [OF assms this, of c]
    have "route_inv (held(c := held c + resp_permits resp)) ?r1"
      by (rule route_inv_cong) (simp_all add: update_same_lookup [OF b])
    from release_inv [OF this, of c "held c" resp]
    have "route_inv held (release_permits c resp ?r1) \<and> route_frame ?r1 (release_permits c resp ?r1)" by simp
    moreover have "route_frame r ?r1" using Some by (auto simp: route_frame_def hm.lookup_insert)
    ultimately show ?thesis
      using Some Cons by (auto simp: client_recv_def intro: route_frame_trans)
  qed
qed

lemma client_close_inv:
  assumes "route_inv held r"
  shows "route_inv held (client_close c r) \<and> route_frame r (client_close c r)"
proof (cases "map_of (rg_routing r) c")
  case None
  then show ?thesis using assms by (simp add: client_close_def route_frame_refl)
next
  case (Some ch)
  with assms obtain avail where b: "map_of (rg_byte_budget r) c = Some avail"
    and ok: "chan_ok (held c) (rg_capacity r) (rg_permits_per_conn r) (Some ch) (Some avail)"
    by (rule route_inv_entry)
  have "chan_ok (held c) (rg_capacity r) (rg_permits_per_conn r) (Some (ch\<lparr>rc_closed := True\<rparr>)) (Some avail)"
    using ok by simp
  from route_inv_update [OF assms this, of c]
  have "route_inv held (r\<lparr>rg_routing := AList.update c (ch\<lparr>rc_closed := True\<rparr>) (rg_routing r)\<rparr>)"
    by (simp, elim route_inv_cong) (simp_all add: update_same_lookup [OF b])
  then show ?thesis
    using Some by (auto simp: client_close_def route_frame_def hm.lookup_insert)
qed

lemma client_acts_inv:
  assumes "route_inv held r"
  shows "route_inv held (client_acts c act r) \<and> route_frame r (client_acts c act r)"
proof -
  have rec: "route_inv held ((client_recv c ^^ n) r) \<and> route_frame r ((client_recv c ^^ n) r)" for n
  proof (induction n)
    case (Suc n)
    then show ?case using client_recv_inv route_frame_trans by fastforce
  qed (simp add: assms route_frame_refl)
  then show ?thesis
    using client_close_inv route_frame_trans unfolding client_acts_def Let_def by (auto; blast)
qed

lemma try_send_inv:
  assumes "route_inv held r" and "held c = resp_permits resp" and "queued_ok resp"
    and "try_send c resp r = (res, r')"
  shows "route_frame r r' \<and>
    (if res = SendOk then route_inv (held(c := 0)) r' else r' = r)"
proof (cases "map_of (rg_routing r) c")
  case None
  then show ?thesis using assms(4) by (auto simp: try_send_def route_frame_refl)
next
  case (Some ch)
  with assms(1) obtain avail where b: "map_of (rg_byte_budget r) c = Some avail"
    and ok: "chan_ok (held c) (rg_capacity r) (rg_permits_per_conn r) (Some ch) (Some avail)"
    by (rule route_inv_entry)
  show ?thesis
  proof (cases "rc_closed ch \<or> rg_capacity r \<le> length (rc_queue ch)")
    case True
    then show ?thesis using assms(4) Some by (auto simp: try_send_def route_frame_refl split: if_splits)
  next
    case False
    let ?ch = "ch\<lparr>rc_queue := rc_queue ch @ [resp]\<rparr>"
    have "chan_ok 0 (rg_capacity r) (rg_permits_per_conn r) (Some ?ch) (Some avail)"
      using ok assms(2,3) False by simp
    from route_inv_update [OF assms(1) this, of c]
    have "route_inv (held(c := 0)) (r\<lparr>rg_routing := AList.update c ?ch (rg_routing r)\<rparr>)"
      by (rule route_inv_cong) (simp_all add: update_same_lookup [OF b])
    then show ?thesis
      using assms(4) Some False
      by (auto simp: try_send_def route_frame_def hm.lookup_insert split: if_splits)
  qed
qed

fun fresh_resp :: "me_response \<Rightarrow> bool" where
  "fresh_resp (MR_Data _ _ p) \<longleftrightarrow> p = None"
| "fresh_resp _ = True"

abbreviation (input) "idle \<equiv> (\<lambda>_ :: nat. 0 :: nat)"

lemma attach_inv:
  assumes "route_inv idle r" and "fresh_resp resp"
    and "attach_route_byte_permit c resp t act r = (res, r1)"
  shows "route_frame r r1 \<and> (case res of
      Inl _ \<Rightarrow> route_inv idle r1
    | Inr resp1 \<Rightarrow> queued_ok resp1 \<and> route_inv (idle(c := resp_permits resp1)) r1)"
proof (cases "\<exists>flags data. resp = MR_Data flags data None")
  case False
  with assms(2) have "\<forall>f d p. resp \<noteq> MR_Data f d p" by (cases resp) auto
  then have "res = Inr resp" "r1 = r" "queued_ok resp" "resp_permits resp = 0"
    using assms(3) by (cases resp; simp add: attach_route_byte_permit_def)+
  then show ?thesis using assms(1) by (simp add: route_frame_refl fun_upd_idem)
next
  case True
  then obtain flags data where resp: "resp = MR_Data flags data None" by blast
  show ?thesis
  proof (cases "map_of (rg_byte_budget r) c")
    case None
    then show ?thesis using assms resp by (auto simp: attach_route_byte_permit_def route_frame_refl)
  next
    case (Some a0)
    define r0 where "r0 = (if t = 0 then r else client_acts c act r)"
    have inv: "route_inv idle r0" and fr: "route_frame r r0"
      using client_acts_inv [OF assms(1), of c act] assms(1) route_frame_refl [of r] by (auto simp: r0_def)
    let ?n = "route_data_permits (length data)"
    show ?thesis
    proof (cases "map_of (rg_routing r0) c")
      case None
      have "chan_ok 0 (rg_capacity r0) (rg_permits_per_conn r0) None (map_of (rg_byte_budget r0) c)"
        using inv None by (auto simp: route_inv_def dest: spec [of _ c])
      then have "map_of (rg_byte_budget r0) c = None" by (cases "map_of (rg_byte_budget r0) c") auto
      then show ?thesis
        using assms(3) resp Some inv fr by (auto simp: attach_route_byte_permit_def Let_def r0_def [symmetric])
    next
      case (Some ch)
      with inv obtain avail where b: "map_of (rg_byte_budget r0) c = Some avail"
        and ok: "chan_ok 0 (rg_capacity r0) (rg_permits_per_conn r0) (Some ch) (Some avail)"
        by (rule route_inv_entry)
      show ?thesis
      proof (cases "?n \<le> avail")
        case True
        let ?r1 = "r0\<lparr>rg_byte_budget := AList.update c (avail - ?n) (rg_byte_budget r0)\<rparr>"
        have "chan_ok ?n (rg_capacity r0) (rg_permits_per_conn r0) (Some ch) (Some (avail - ?n))"
          using ok True by simp
        from route_inv_update [OF inv this, of c] have "route_inv (idle(c := ?n)) ?r1"
          by (rule route_inv_cong) (simp_all add: update_same_lookup [OF Some])
        moreover have "route_frame r0 ?r1" by (simp add: route_frame_def)
        ultimately show ?thesis
          using assms(3) resp \<open>map_of (rg_byte_budget r) c = Some a0\<close> b True fr
          by (auto simp: attach_route_byte_permit_def Let_def r0_def [symmetric] intro: route_frame_trans)
      next
        case False
        then show ?thesis
          using assms(3) resp \<open>map_of (rg_byte_budget r) c = Some a0\<close> b inv fr
          by (auto simp: attach_route_byte_permit_def Let_def r0_def [symmetric])
      qed
    qed
  qed
qed

lemma release_idle:
  assumes "route_inv (idle(c := resp_permits resp)) r"
  shows "route_inv idle (release_permits c resp r) \<and> route_frame r (release_permits c resp r)"
  using release_inv [OF assms, of c 0 resp] by (simp add: fun_upd_idem)

lemma try_send_idle:
  assumes "route_inv (idle(c := resp_permits resp)) r" and "queued_ok resp" and "try_send c resp r = (res, r')"
  shows "route_frame r r' \<and> (if res = SendOk then route_inv idle r' else r' = r)"
proof -
  have "route_frame r r' \<and>
      (if res = SendOk then route_inv (idle(c := resp_permits resp, c := 0)) r' else r' = r)"
    by (rule try_send_inv [OF assms(1) _ assms(2,3)]) simp
  moreover have "idle(c := resp_permits resp, c := 0) = idle" by auto
  ultimately show ?thesis by (cases "res = SendOk") (auto simp: route_frame_refl)
qed

lemma route_nowait_inv:
  assumes "route_inv idle r" and "fresh_resp resp"
  shows "route_inv idle (snd (route_nowait c resp r)) \<and> route_frame r (snd (route_nowait c resp r))"
proof (cases "map_of (rg_routing r) c = None")
  case True
  then show ?thesis using assms by (simp add: route_nowait_def route_frame_refl)
next
  case False
  obtain res r1 where a: "attach_route_byte_permit c resp 0 \<lparr>ca_recv = 0, ca_closes = False\<rparr> r = (res, r1)"
    by (cases "attach_route_byte_permit c resp 0 \<lparr>ca_recv = 0, ca_closes = False\<rparr> r")
  note inv = attach_inv [OF assms a]
  show ?thesis
  proof (cases res)
    case (Inl e)
    then show ?thesis using inv a False by (auto simp: route_nowait_def)
  next
    case (Inr resp1)
    obtain out r2 where t: "try_send c resp1 r1 = (out, r2)" by (cases "try_send c resp1 r1")
    have i1: "queued_ok resp1" "route_inv (idle(c := resp_permits resp1)) r1" "route_frame r r1"
      using inv Inr by auto
    show ?thesis
      using try_send_idle [OF i1(2,1) t] release_idle [OF i1(2)] i1(3) a t Inr False
      by (cases out) (auto simp: route_nowait_def intro: route_frame_trans)
  qed
qed

lemma send_or_wait_inv:
  assumes "route_inv (idle(c := resp_permits resp)) r" and "queued_ok resp"
  shows "route_inv idle (snd (send_or_wait c resp between during r)) \<and>
    route_frame r (snd (send_or_wait c resp between during r))"
proof -
  obtain out r1 where t: "try_send c resp r = (out, r1)" by (cases "try_send c resp r")
  note s1 = try_send_idle [OF assms(1,2) t]
  show ?thesis
  proof (cases "out = SendFull")
    case False
    then show ?thesis
      using s1 t release_idle [OF assms(1)] by (cases out) (auto simp: send_or_wait_def intro: route_frame_trans)
  next
    case True
    then have r1: "r1 = r" using s1 by simp
    let ?r2 = "client_acts c between r" and ?r3 = "client_acts c during (client_acts c between r)"
    have i2: "route_inv (idle(c := resp_permits resp)) ?r2" "route_frame r ?r2"
      using client_acts_inv [OF assms(1)] by auto
    have i3: "route_inv (idle(c := resp_permits resp)) ?r3" "route_frame r ?r3"
      using client_acts_inv [OF i2(1)] i2(2) by (auto intro: route_frame_trans)
    obtain out2 r4 where t2: "try_send c resp ?r3 = (out2, r4)" by (cases "try_send c resp ?r3")
    show ?thesis
      using try_send_idle [OF i3(1) assms(2) t2] release_idle [OF i3(1)] i3(2) t t2 True r1
      by (cases out2) (auto simp: send_or_wait_def Let_def intro: route_frame_trans)
  qed
qed

lemma route_inv_route:
  assumes "route_inv idle r" and "fresh_resp resp"
  shows "route_inv idle (snd (route c resp acts r)) \<and> route_frame r (snd (route c resp acts r))"
proof -
  obtain res r1 where a: "attach_route_byte_permit c resp (max (rg_base_timeout_ms r) 1) (ra_acquire acts) r = (res, r1)"
    by (cases "attach_route_byte_permit c resp (max (rg_base_timeout_ms r) 1) (ra_acquire acts) r")
  show ?thesis
    using attach_inv [OF assms a] a assms(1) route_frame_refl [of r]
      send_or_wait_inv [of c _ r1 "ra_between acts" "ra_during acts"]
    by (cases res) (auto simp: route_def Let_def intro: route_frame_trans)
qed

lemma route_inv_route_timeout:
  assumes "route_inv idle r" and "fresh_resp resp"
  shows "route_inv idle (snd (route_with_timeout c resp t acts r)) \<and>
    route_frame r (snd (route_with_timeout c resp t acts r))"
proof -
  obtain res r1 where a: "attach_route_byte_permit c resp t (ra_acquire acts) r = (res, r1)"
    by (cases "attach_route_byte_permit c resp t (ra_acquire acts) r")
  show ?thesis
    using attach_inv [OF assms a] a assms(1) route_frame_refl [of r] route_nowait_inv [OF assms, of c]
      send_or_wait_inv [of c _ r1 "ra_between acts" "ra_during acts"]
    by (cases res) (auto simp: route_with_timeout_def intro: route_frame_trans)
qed

subsection \<open>Runs\<close>

datatype reg_event =
    Ev_Register
  | Ev_RegisterWriter nat nat
  | Ev_Bind nat nat conn_meta
  | Ev_Unregister nat
  | Ev_WriterLost nat
  | Ev_MarkIdle nat
  | Ev_UnregisterWriterIfEmpty nat
  | Ev_Route nat me_response route_acts
  | Ev_RouteNowait nat me_response
  | Ev_RouteTimeout nat me_response nat route_acts
  | Ev_ClientActs nat client_act
  | Ev_Policy nat nat nat

fun reg_step :: "nat \<Rightarrow> reg_event \<Rightarrow> conn_registry \<Rightarrow> conn_registry" where
  "reg_step now Ev_Register r = snd (register r)"
| "reg_step now (Ev_RegisterWriter w tx) r = register_writer now w tx r"
| "reg_step now (Ev_Bind c w m) r = snd (bind_writer now c w m r)"
| "reg_step now (Ev_Unregister c) r = snd (unregister now c r)"
| "reg_step now (Ev_WriterLost w) r = snd (writer_lost w r)"
| "reg_step now (Ev_MarkIdle w) r = mark_writer_idle now w r"
| "reg_step now (Ev_UnregisterWriterIfEmpty w) r = snd (unregister_writer_if_empty w r)"
| "reg_step now (Ev_Route c resp acts) r = snd (route c resp acts r)"
| "reg_step now (Ev_RouteNowait c resp) r = snd (route_nowait c resp r)"
| "reg_step now (Ev_RouteTimeout c resp t acts) r = snd (route_with_timeout c resp t acts r)"
| "reg_step now (Ev_ClientActs c act) r = client_acts c act r"
| "reg_step now (Ev_Policy b h p) r = update_route_backpressure_policy b h p r"

text \<open>
  What the callers guarantee: a writer identifier is registered while nothing is bound to
  it, and a response handed to a route call holds no permit yet.
\<close>

fun event_ok :: "conn_registry \<Rightarrow> reg_event \<Rightarrow> bool" where
  "event_ok r (Ev_RegisterWriter w tx) \<longleftrightarrow> conns (rg_conns_for_writer r) w = []"
| "event_ok r (Ev_Route c resp acts) \<longleftrightarrow> fresh_resp resp"
| "event_ok r (Ev_RouteNowait c resp) \<longleftrightarrow> fresh_resp resp"
| "event_ok r (Ev_RouteTimeout c resp t acts) \<longleftrightarrow> fresh_resp resp"
| "event_ok r _ = True"

inductive reg_reach :: "conn_registry \<Rightarrow> nat \<Rightarrow> conn_registry \<Rightarrow> bool" for r0 where
  start: "reg_reach r0 0 r0"
| step: "reg_reach r0 n r \<Longrightarrow> event_ok r ev \<Longrightarrow> reg_reach r0 (Suc n) (reg_step now ev r)"

lemma chan_new: "route_inv idle r \<Longrightarrow> route_inv idle (snd (register r))"
  by (simp add: route_inv_def register_def Let_def hm.lookup_insert)

lemma route_inv_tables:
  assumes "route_inv idle r" and "rg_routing r' = rg_routing r" and "rg_byte_budget r' = rg_byte_budget r"
    and "rg_capacity r' = rg_capacity r" and "rg_permits_per_conn r' = rg_permits_per_conn r"
  shows "route_inv idle r'"
  using assms by (simp add: route_inv_def)

lemma unregister_route_fields:
  "rg_routing (snd (unregister now c r)) = AList.delete c (rg_routing r)"
  "rg_byte_budget (snd (unregister now c r)) = AList.delete c (rg_byte_budget r)"
  "rg_capacity (snd (unregister now c r)) = rg_capacity r"
  "rg_permits_per_conn (snd (unregister now c r)) = rg_permits_per_conn r"
  by (simp_all add: unregister_def unregister_binding_def unregister_routes_def Let_def reg_simps
      drop_conn_of_writer_def split: option.splits)

lemma bind_route_fields:
  assumes "binding_inv r"
  shows "rg_routing (bind_commit now c w m r) = rg_routing r"
  "rg_byte_budget (bind_commit now c w m r) = rg_byte_budget r"
  "rg_capacity (bind_commit now c w m r) = rg_capacity r"
  "rg_permits_per_conn (bind_commit now c w m r) = rg_permits_per_conn r"
  unfolding bind_commit_tables [OF binding_inv_conns [OF assms]] by simp_all

lemma lose_route_fields:
  "rg_routing (fst (lose_conn w c st)) = rg_routing (fst st)"
  "rg_byte_budget (fst (lose_conn w c st)) = rg_byte_budget (fst st)"
  "rg_capacity (fst (lose_conn w c st)) = rg_capacity (fst st)"
  "rg_permits_per_conn (fst (lose_conn w c st)) = rg_permits_per_conn (fst st)"
  by (cases st; simp add: lose_conn_def Let_def reg_simps split: option.splits)+

lemma writer_lost_snd:
  "snd (writer_lost w r) = fst (fold (lose_conn w) (conns (rg_conns_for_writer r) w) (forget_writer w r, []))"
  by (simp add: writer_lost_def conns_def Let_def split: prod.splits)

lemma lost_route_fields:
  "rg_routing (snd (writer_lost w r)) = rg_routing r"
  "rg_byte_budget (snd (writer_lost w r)) = rg_byte_budget r"
  "rg_capacity (snd (writer_lost w r)) = rg_capacity r"
  "rg_permits_per_conn (snd (writer_lost w r)) = rg_permits_per_conn r"
proof -
  have *: "rg_routing (fst (fold (lose_conn w) cs st)) = rg_routing (fst st) \<and>
      rg_byte_budget (fst (fold (lose_conn w) cs st)) = rg_byte_budget (fst st) \<and>
      rg_capacity (fst (fold (lose_conn w) cs st)) = rg_capacity (fst st) \<and>
      rg_permits_per_conn (fst (fold (lose_conn w) cs st)) = rg_permits_per_conn (fst st)" for cs st
    by (induction cs arbitrary: st) (simp_all add: lose_route_fields)
  show "rg_routing (snd (writer_lost w r)) = rg_routing r"
    "rg_byte_budget (snd (writer_lost w r)) = rg_byte_budget r"
    "rg_capacity (snd (writer_lost w r)) = rg_capacity r"
    "rg_permits_per_conn (snd (writer_lost w r)) = rg_permits_per_conn r"
    unfolding writer_lost_snd by (simp_all add: *) (simp_all add: forget_writer_def)
qed

definition reg_inv :: "nat \<Rightarrow> conn_registry \<Rightarrow> bool" where
  "reg_inv n r \<longleftrightarrow> binding_inv r \<and> route_inv idle r \<and> length (rg_meta r) \<le> n"

lemma lose_meta_size: "length (rg_meta (fst (lose_conn w c st))) \<le> length (rg_meta (fst st))"
  by (cases st) (auto simp: lose_conn_def Let_def reg_simps AList.length_delete_le split: option.splits)

lemma lost_meta_size: "length (rg_meta (snd (writer_lost w r))) \<le> length (rg_meta r)"
proof -
  have "length (rg_meta (fst (fold (lose_conn w) cs st))) \<le> length (rg_meta (fst st))" for cs st
  proof (induction cs arbitrary: st)
    case (Cons c cs)
    show ?case using order_trans [OF Cons.IH lose_meta_size] by simp
  qed simp
  from this [of "conns (rg_conns_for_writer r) w" "(forget_writer w r, [])"]
  show ?thesis unfolding writer_lost_snd by (simp add: forget_writer_def)
qed

lemma update_size: "length (AList.update k v m) \<le> Suc (length m)"
  by (induction m) auto

lemma bind_meta_size:
  assumes "binding_inv r"
  shows "length (rg_meta (bind_commit now c w m r)) \<le> Suc (length (rg_meta r))"
  unfolding bind_commit_tables [OF binding_inv_conns [OF assms]] by (simp add: update_size)

lemma forget_unbound_inv:
  assumes "binding_inv r" and "conns (rg_conns_for_writer r) w = []"
  shows "binding_inv (forget_writer w r)"
  using losing_end [of w] losing_start [OF assms(1), of w] assms(2) by simp

lemma reg_step_inv:
  assumes "reg_inv n r" and "event_ok r ev" and "n < mx" and "mx = U64_MAX"
  shows "reg_inv (Suc n) (reg_step now ev r)"
proof (cases ev)
  case Ev_Register
  then show ?thesis
    using assms(1) binding_inv_register chan_new by (auto simp: reg_inv_def register_def Let_def)
next
  case (Ev_RegisterWriter w tx)
  then show ?thesis
    using assms(1,2) binding_inv_register_writer [of r w now tx] route_inv_tables [of r "register_writer now w tx r"]
    by (simp add: reg_inv_def register_writer_def)
next
  case (Ev_Bind c w m)
  have "length (rg_meta r) \<le> n" using assms(1) by (simp add: reg_inv_def)
  then have small: "length (rg_meta r) < mx" using assms(3) by (rule order_le_less_trans)
  have "route_inv idle (bind_commit now c w m r)"
    using assms(1) by - (rule route_inv_tables [of r], simp_all add: reg_inv_def bind_route_fields)
  moreover have "binding_inv r" using assms(1) by (simp add: reg_inv_def)
  moreover have "bind_guard c w r \<Longrightarrow> binding_inv (bind_commit now c w m r)"
    using \<open>binding_inv r\<close> small unfolding assms(4) by (intro binding_inv_bind)
  ultimately show ?thesis
    using Ev_Bind assms(1) bind_meta_size [of r now c w m]
    by (auto simp: reg_inv_def bind_writer_def)
next
  case (Ev_Unregister c)
  have "route_inv idle (snd (unregister now c r))"
    using assms(1) by (simp add: reg_inv_def route_inv_def unregister_route_fields hm.lookup_remove)
  then show ?thesis
    using Ev_Unregister assms(1) binding_inv_unregister [of r now c] binding_inv_unregister_size [of now c r]
    by (auto simp: reg_inv_def)
next
  case (Ev_WriterLost w)
  have "route_inv idle (snd (writer_lost w r))"
    using assms(1) by - (rule route_inv_tables [of r], simp_all add: reg_inv_def lost_route_fields)
  moreover have "binding_inv (snd (writer_lost w r))"
    using assms(1) by (auto simp: reg_inv_def elim: writer_lost_loop [of r w])
  ultimately show ?thesis
    using Ev_WriterLost assms(1) lost_meta_size [of w r] by (simp add: reg_inv_def)
next
  case (Ev_MarkIdle w)
  have "route_inv idle (mark_writer_idle now w r)"
    using assms(1) by - (rule route_inv_tables [of r], simp_all add: reg_inv_def mark_writer_idle_def Let_def reg_simps)
  moreover have "rg_meta (mark_writer_idle now w r) = rg_meta r"
    by (simp add: mark_writer_idle_def Let_def reg_simps)
  ultimately show ?thesis
    using Ev_MarkIdle assms(1) binding_inv_mark_idle [of r now w] by (simp add: reg_inv_def)
next
  case (Ev_UnregisterWriterIfEmpty w)
  have "route_inv idle (forget_writer w r)"
    using assms(1) by - (rule route_inv_tables [of r], simp_all add: reg_inv_def forget_writer_def)
  moreover have "rg_meta (forget_writer w r) = rg_meta r" by (simp add: forget_writer_def)
  ultimately show ?thesis
    using Ev_UnregisterWriterIfEmpty assms(1) forget_unbound_inv [of r w]
    by (auto simp: reg_inv_def unregister_writer_if_empty_def conns_def split: option.splits)
next
  case (Ev_Route c resp acts)
  then show ?thesis
    using assms(1,2) route_inv_route [of r resp c acts] by (auto simp: reg_inv_def frame_meta intro: frame_binding_inv)
next
  case (Ev_RouteNowait c resp)
  then show ?thesis
    using assms(1,2) route_nowait_inv [of r resp c] by (auto simp: reg_inv_def frame_meta intro: frame_binding_inv)
next
  case (Ev_RouteTimeout c resp t acts)
  then show ?thesis
    using assms(1,2) route_inv_route_timeout [of r resp c t acts]
    by (auto simp: reg_inv_def frame_meta intro: frame_binding_inv)
next
  case (Ev_ClientActs c act)
  then show ?thesis
    using assms(1,2) client_acts_inv [of idle r c act] by (auto simp: reg_inv_def frame_meta intro: frame_binding_inv)
next
  case (Ev_Policy b h p)
  have "binding_inv (update_route_backpressure_policy b h p r)"
    using assms(1) by (simp add: reg_inv_def binding_inv_def tables_wf_def update_route_backpressure_policy_def Let_def)
  moreover have "route_inv idle (update_route_backpressure_policy b h p r)"
    using assms(1) by (simp add: reg_inv_def route_inv_def update_route_backpressure_policy_def Let_def)
  ultimately show ?thesis
    using Ev_Policy assms(1) by (simp add: reg_inv_def update_route_backpressure_policy_def Let_def)
qed

lemma reg_reach_inv:
  "reg_reach r0 n r \<Longrightarrow> r0 = with_route_limits seed cap permits \<Longrightarrow> n \<le> mx \<Longrightarrow> mx = U64_MAX \<Longrightarrow> reg_inv n r"
proof (induction rule: reg_reach.induct)
  case start
  then show ?case
    by (simp add: reg_inv_def binding_inv_new) (simp add: route_inv_def with_route_limits_def)
next
  case (step n r ev now)
  then have "reg_inv n r" and "n < mx" by simp_all
  then show ?case using step.hyps(2) step.prems(3) by (intro reg_step_inv)
qed

lemma reg_step_consts:
  assumes "reg_inv n r" and "event_ok r ev"
  shows "rg_permits_per_conn (reg_step now ev r) = rg_permits_per_conn r \<and> rg_capacity (reg_step now ev r) = rg_capacity r"
proof -
  have i: "binding_inv r" "route_inv idle r" using assms(1) by (simp_all add: reg_inv_def)
  show ?thesis
  proof (cases ev)
    case (Ev_Bind c w m)
    then show ?thesis by (simp add: bind_writer_def bind_route_fields [OF i(1)])
  next
    case (Ev_Route c resp acts)
    then show ?thesis using route_inv_route [OF i(2), of resp c acts] assms(2) frame_permits by simp
  next
    case (Ev_RouteNowait c resp)
    then show ?thesis using route_nowait_inv [OF i(2), of resp c] assms(2) frame_permits by simp
  next
    case (Ev_RouteTimeout c resp t acts)
    then show ?thesis using route_inv_route_timeout [OF i(2), of resp c t acts] assms(2) frame_permits by simp
  next
    case (Ev_ClientActs c act)
    then show ?thesis using client_acts_inv [OF i(2), of c act] frame_permits by simp
  qed (simp_all add: register_def register_writer_def unregister_route_fields lost_route_fields
      mark_writer_idle_def unregister_writer_if_empty_def forget_writer_def update_route_backpressure_policy_def
      Let_def reg_simps split: option.splits)
qed

lemma reg_reach_consts:
  "reg_reach r0 n r \<Longrightarrow> r0 = with_route_limits seed cap permits \<Longrightarrow> n \<le> mx \<Longrightarrow> mx = U64_MAX \<Longrightarrow>
    rg_permits_per_conn r = max permits 1 \<and> rg_capacity r = max cap 1"
proof (induction rule: reg_reach.induct)
  case start
  then show ?case by (simp add: with_route_limits_def)
next
  case (step n r ev now)
  have "reg_inv n r" using step.hyps(1) step.prems by (intro reg_reach_inv [where mx = mx]) simp_all
  from reg_step_consts [OF this step.hyps(2), of now] show ?case using step.IH step.prems by simp
qed

subsection \<open>Properties\<close>


definition demo_meta :: conn_meta where
  "demo_meta = \<lparr>cm_target_dc = 2, cm_client_addr = \<lparr>sa_ip = IpV4 1 2 3 4, sa_port = 5\<rparr>,
     cm_our_addr = \<lparr>sa_ip = IpV4 5 6 7 8, sa_port = 443\<rparr>, cm_proto_flags = 0\<rparr>"

definition demo_start :: conn_registry where
  "demo_start = reg_step 100 (Ev_RegisterWriter 5 50) (reg_step 100 Ev_Register (with_route_limits 6 4 8))"

lemma demo_start_reach: "reg_reach (with_route_limits 6 4 8) 2 demo_start"
proof -
  have "reg_reach (with_route_limits 6 4 8) (Suc 0) (reg_step 100 Ev_Register (with_route_limits 6 4 8))"
    by (rule reg_reach.step [OF reg_reach.start]) simp
  then have "reg_reach (with_route_limits 6 4 8) (Suc (Suc 0)) demo_start"
    unfolding demo_start_def
    by (rule reg_reach.step) (simp add: register_def Let_def with_route_limits_def conns_def)
  then show ?thesis by (simp add: numeral_2_eq_2)
qed

lemma demo_bind_reach: "reg_reach (with_route_limits 6 4 8) 3 (reg_step 100 (Ev_Bind 7 5 demo_meta) demo_start)"
  using reg_reach.step [OF demo_start_reach, of "Ev_Bind 7 5 demo_meta" 100] by (simp add: numeral_3_eq_3)

lemma demo_start_state:
  "map_of (rg_routing demo_start) 7 = Some \<lparr>rc_queue = [], rc_closed = False\<rparr>"
  "map_of (rg_writers demo_start) 5 = Some 50"
  "rg_capacity demo_start = 4" "rg_permits_per_conn demo_start = 8"
  "map_of (rg_byte_budget demo_start) 7 = Some 8"
  by (simp_all add: demo_start_def register_def register_writer_def with_route_limits_def Let_def or_insert_def)


fun resp_bytes :: "me_response \<Rightarrow> nat" where
  "resp_bytes (MR_Data _ d _) = length d"
| "resp_bytes _ = 0"

lemma permits_cover:
  assumes "route_data_permits n < U32_MAX"
  shows "n \<le> route_data_permits n * ROUTE_QUEUED_BYTE_PERMIT_UNIT"
proof -
  let ?q = "(max n 1 + 16383) div 16384"
  have "route_data_permits n = ?q" using assms by (auto simp: route_data_permits_def min_def split: if_splits)
  moreover have "n \<le> ?q * 16384"
  proof -
    have "(max n 1 + 16383) mod 16384 \<le> 16383" using mod_less_divisor [of 16384 "max n 1 + 16383"] by linarith
    then show ?thesis using div_mult_mod_eq [of "max n 1 + 16383" 16384] by linarith
  qed
  ultimately show ?thesis by simp
qed

lemma queue_bytes_le:
  assumes "list_all queued_ok q" and "sum_list (map resp_permits q) < mx" and "mx = U32_MAX"
  shows "sum_list (map resp_bytes q) \<le> sum_list (map resp_permits q) * ROUTE_QUEUED_BYTE_PERMIT_UNIT"
  using assms
proof (induction q)
  case (Cons resp q)
  have "resp_permits resp < U32_MAX" using Cons.prems by simp
  then have "resp_bytes resp \<le> resp_permits resp * ROUTE_QUEUED_BYTE_PERMIT_UNIT"
    using Cons.prems(1) permits_cover by (cases resp) auto
  with Cons show ?case by (simp add: add_mult_distrib add_mono)
qed simp



text \<open>
  C32. A lost writer returns exactly the connections bound to it, each once and with its
  metadata; afterwards none of them is bound, every other binding is as before, and the
  tables still agree.
\<close>

theorem writer_lost_exact:
  assumes "binding_inv r"
  shows "\<exists>out r'. writer_lost w r = (out, r') \<and> binding_inv r' \<and> distinct (map bc_conn_id out) \<and>
    (\<forall>c m. \<lparr>bc_conn_id = c, bc_meta = m\<rparr> \<in> set out \<longleftrightarrow>
      map_of (rg_writer_for_conn r) c = Some w \<and> map_of (rg_meta r) c = Some m) \<and>
    (\<forall>c. map_of (rg_writer_for_conn r') c =
      (if map_of (rg_writer_for_conn r) c = Some w then None else map_of (rg_writer_for_conn r) c)) \<and>
    map_of (rg_writers r') w = None \<and> rg_routing r' = rg_routing r"
proof -
  obtain out r' where lost: "writer_lost w r = (out, r')" "binding_inv r'"
    and ids: "map bc_conn_id out = conns (rg_conns_for_writer r) w"
    and metas: "\<And>b. b \<in> set out \<Longrightarrow> map_of (rg_meta r) (bc_conn_id b) = Some (bc_meta b)"
    and wfc: "\<And>c. map_of (rg_writer_for_conn r') c =
      (if map_of (rg_writer_for_conn r) c = Some w then None else map_of (rg_writer_for_conn r) c)"
    and wr: "map_of (rg_writers r') w = None" "rg_routing r' = rg_routing r"
    using writer_lost_loop [OF assms, of w] by metis
  have con: "conns_ok (rg_writer_for_conn r) (rg_conns_for_writer r)" using assms by (simp add: binding_inv_def)
  have "\<lparr>bc_conn_id = c, bc_meta = m\<rparr> \<in> set out \<longleftrightarrow>
      map_of (rg_writer_for_conn r) c = Some w \<and> map_of (rg_meta r) c = Some m" for c m
  proof
    assume b: "\<lparr>bc_conn_id = c, bc_meta = m\<rparr> \<in> set out"
    then have "c \<in> set (map bc_conn_id out)" by force
    then show "map_of (rg_writer_for_conn r) c = Some w \<and> map_of (rg_meta r) c = Some m"
      using metas [OF b] conns_mem [OF con, of c w] ids by simp
  next
    assume c: "map_of (rg_writer_for_conn r) c = Some w \<and> map_of (rg_meta r) c = Some m"
    then have "c \<in> set (map bc_conn_id out)" using conns_mem [OF con, of c w] ids by simp
    then obtain b where b: "b \<in> set out" "bc_conn_id b = c" by auto
    then have "bc_meta b = m" using metas [OF b(1)] c by simp
    then show "\<lparr>bc_conn_id = c, bc_meta = m\<rparr> \<in> set out" using b by (metis bound_conn.surjective unit.exhaust)
  qed
  moreover have "distinct (map bc_conn_id out)" using conns_distinct [OF con, of w] ids by simp
  ultimately show ?thesis using lost wfc wr by blast
qed

theorem writer_lost_exact_witness:
  "\<exists>out r'. writer_lost 5 (reg_step 100 (Ev_Bind 7 5 demo_meta) demo_start) = (out, r') \<and> binding_inv r'"
proof -
  have "binding_inv (reg_step 100 (Ev_Bind 7 5 demo_meta) demo_start)"
    using reg_reach_inv [OF demo_bind_reach refl, of U64_MAX] by (simp add: reg_inv_def)
  from writer_lost_exact [OF this, of 5] show ?thesis by blast
qed

text \<open>
  Lookups after an operation: a bind succeeds exactly when the connection is routed and
  the writer registered, after which the lookup returns that writer and that metadata; an
  unregistered connection has no writer and no metadata; and both leave the lookups of
  every other connection as they were.
\<close>

theorem registry_lookup:
  assumes "binding_inv r"
  shows "bind_writer now c w m r = (bind_guard c w r, if bind_guard c w r then bind_commit now c w m r else r) \<and>
    (bind_guard c w r \<longrightarrow>
      get_writer_with_meta c (bind_commit now c w m r) =
        Some (\<lparr>cw_writer_id = w, cw_tx = the (map_of (rg_writers r) w)\<rparr>, m)) \<and>
    (c' \<noteq> c \<longrightarrow> get_writer_with_meta c' (bind_commit now c w m r) = get_writer_with_meta c' r) \<and>
    get_writer_with_meta c (snd (unregister now c r)) = None \<and> get_meta c (snd (unregister now c r)) = None \<and>
    (c' \<noteq> c \<longrightarrow> get_writer_with_meta c' (snd (unregister now c r)) = get_writer_with_meta c' r)"
proof -
  have b: "rg_routing (bind_commit now c w m r) = rg_routing r" "rg_writers (bind_commit now c w m r) = rg_writers r"
    "rg_hot (bind_commit now c w m r) = AList.update c \<lparr>hb_writer_id = w, hb_meta = m\<rparr> (rg_hot r)"
    unfolding bind_commit_tables [OF binding_inv_conns [OF assms]] by simp_all
  have u: "rg_hot (snd (unregister now c r)) = AList.delete c (rg_hot r)"
    "rg_writers (snd (unregister now c r)) = rg_writers r"
    by (simp_all add: unregister_def unregister_binding_def unregister_routes_def Let_def reg_simps
        drop_conn_of_writer_def split: option.splits)
  have "bind_guard c w r \<longrightarrow> get_writer_with_meta c (bind_commit now c w m r) =
      Some (\<lparr>cw_writer_id = w, cw_tx = the (map_of (rg_writers r) w)\<rparr>, m)"
    by (auto simp: get_writer_with_meta_def b bind_guard_def hm.lookup_insert)
  moreover have "c' \<noteq> c \<longrightarrow> get_writer_with_meta c' (bind_commit now c w m r) = get_writer_with_meta c' r"
    by (cases "map_of (rg_hot r) c'") (simp_all add: get_writer_with_meta_def b hm.lookup_insert)
  moreover have "get_writer_with_meta c (snd (unregister now c r)) = None"
    by (simp add: get_writer_with_meta_def unregister_route_fields hm.lookup_remove)
  moreover have "get_meta c (snd (unregister now c r)) = None"
    by (simp add: get_meta_def u hm.lookup_remove)
  moreover have "c' \<noteq> c \<longrightarrow> get_writer_with_meta c' (snd (unregister now c r)) = get_writer_with_meta c' r"
    by (cases "map_of (rg_hot r) c'")
       (simp_all add: get_writer_with_meta_def u unregister_route_fields hm.lookup_remove)
  ultimately show ?thesis by (simp add: bind_writer_def)
qed

theorem registry_lookup_witness:
  "get_writer_with_meta 7 (bind_commit 100 7 5 demo_meta demo_start) =
     Some (\<lparr>cw_writer_id = 5, cw_tx = 50\<rparr>, demo_meta)"
proof -
  have "binding_inv demo_start"
    using reg_reach_inv [OF demo_start_reach refl, of U64_MAX] by (simp add: reg_inv_def)
  then have "bind_guard 7 5 demo_start \<longrightarrow> get_writer_with_meta 7 (bind_commit 100 7 5 demo_meta demo_start) =
      Some (\<lparr>cw_writer_id = 5, cw_tx = the (map_of (rg_writers demo_start) 5)\<rparr>, demo_meta)"
    using registry_lookup [of demo_start 100 7 5 demo_meta 2] by blast
  then show ?thesis by (simp add: bind_guard_def demo_start_state)
qed

text \<open>
  C39. A stale entry can remain in the lock-free table: when the tables that \<open>unregister\<close>
  clears before it takes the lock are cleared between the check and the commit of a
  \<open>bind_writer\<close> for the same connection, the connection ends unrouted and unbound, and yet its
  metadata stays in the lookup table.
\<close>

theorem unregister_bind_race:
  assumes "binding_inv r" and "bind_guard c w r"
    and r'_def: "r' = snd (unregister_binding now c (bind_commit now c w m (unregister_routes c r)))"
  shows "map_of (rg_routing r') c = None \<and> map_of (rg_writer_for_conn r') c = None \<and>
    map_of (rg_meta r') c = None \<and> get_meta c r' = Some m"
proof -
  have unreg: "rg_hot (snd (unregister_binding now c x)) = rg_hot x"
    "rg_routing (snd (unregister_binding now c x)) = rg_routing x"
    "map_of (rg_meta (snd (unregister_binding now c x))) c = None" for x
    by (simp_all add: unregister_binding_def Let_def reg_simps drop_conn_of_writer_def hm.lookup_remove
        split: option.splits)
  have gone: "map_of (rg_writer_for_conn (snd (unregister_binding now c x))) c = None" for x
    by (cases "map_of (rg_meta x) c"; cases "map_of (rg_writer_for_conn x) c")
       (simp_all add: unregister_binding_def Let_def reg_simps drop_conn_of_writer_def hm.lookup_remove
        split: option.splits)
  have "conns_ok (rg_writer_for_conn (unregister_routes c r)) (rg_conns_for_writer (unregister_routes c r))"
    using binding_inv_conns [OF assms(1)] by (simp add: unregister_routes_def)
  from bind_commit_tables [OF this, of now c w m]
  have "map_of (rg_hot (bind_commit now c w m (unregister_routes c r))) c = Some \<lparr>hb_writer_id = w, hb_meta = m\<rparr>"
    "map_of (rg_routing (bind_commit now c w m (unregister_routes c r))) c = None"
    by (simp_all add: hm.lookup_insert) (simp add: unregister_routes_def hm.lookup_remove)
  then show ?thesis
    unfolding r'_def by (simp add: unreg gone get_meta_def)
qed

theorem unregister_bind_race_witness:
  "get_meta 7 (snd (unregister_binding 100 7 (bind_commit 100 7 5 demo_meta (unregister_routes 7 demo_start)))) =
     Some demo_meta"
proof -
  have "binding_inv demo_start"
    using reg_reach_inv [OF demo_start_reach refl, of U64_MAX] by (simp add: reg_inv_def)
  from unregister_bind_race [OF this _ refl, of 7 5 100 demo_meta] show ?thesis
    by (simp add: bind_guard_def demo_start_state)
qed

text \<open>
  The watermark never selects the short profile by itself: a route call that finds the
  queue full reports \<open>QueueFullBase\<close> only if the client took a response between the failed
  send and the reading of the fill level, whatever the configured watermark.
\<close>

theorem route_full_is_high:
  assumes "route_inv (idle(c := resp_permits resp)) r" and "rg_capacity r * 100 \<le> U64_MAX"
    and "ca_recv between = 0"
  shows "fst (send_or_wait c resp between during r) \<noteq> Rt_QueueFullBase"
proof (cases "fst (try_send c resp r) = SendFull")
  case False
  then show ?thesis
    by (cases "try_send c resp r"; cases "fst (try_send c resp r)") (simp_all add: send_or_wait_def)
next
  case True
  then obtain ch where ch: "map_of (rg_routing r) c = Some ch" "rg_capacity r \<le> length (rc_queue ch)"
    and t: "try_send c resp r = (SendFull, r)"
    by (auto simp: try_send_def split: option.splits if_splits)
  let ?r2 = "client_acts c between r"
  have "\<exists>ch2. map_of (rg_routing ?r2) c = Some ch2 \<and> rc_queue ch2 = rc_queue ch"
    using ch assms(3) by (auto simp: client_acts_def client_close_def hm.lookup_insert)
  then obtain ch2 where ch2: "map_of (rg_routing ?r2) c = Some ch2" "rc_queue ch2 = rc_queue ch" by blast
  have cap: "rg_capacity ?r2 = rg_capacity r" "0 < rg_capacity r"
    using client_acts_inv [OF assms(1), of c between] frame_permits assms(1) by (auto simp: route_inv_def)
  have "sat_mul U64_MAX (rg_capacity r) 100 = rg_capacity r * 100"
    using assms(2) unfolding sat_mul_def by (rule min_absorb1)
  then have "used_pct c ?r2 = 100"
    using ch2 ch(2) cap by (simp add: used_pct_def Let_def)
  then show ?thesis
    using t by (simp add: send_or_wait_def Let_def split: prod.split send_outcome.split)
qed

theorem route_full_is_high_witness:
  "fst (send_or_wait 7 (MR_Ack 0) \<lparr>ca_recv = 0, ca_closes = False\<rparr> \<lparr>ca_recv = 0, ca_closes = False\<rparr> demo_start) \<noteq>
     Rt_QueueFullBase"
proof -
  have "route_inv idle demo_start"
    using reg_reach_inv [OF demo_start_reach refl, of U64_MAX] by (simp add: reg_inv_def)
  then have "route_inv (idle(7 := resp_permits (MR_Ack 0))) demo_start" by (simp add: fun_upd_idem)
  from route_full_is_high [OF this] show ?thesis by (simp add: demo_start_state)
qed

end
