(* ===== verification/Rpc_Reader.thy ===== *)
theory Rpc_Reader
  imports Rpc_Codec Registry_Routing Fair_Properties
begin

section \<open>The reader of a middle-proxy connection\<close>

text \<open>
  \<^verbatim>\<open>src/src/transport/middle_proxy/reader.rs\<close>: the loop that reads one middle-proxy socket, decrypts
  and cuts the stream into frames, and hands each payload on: data through the fairness worker
  or straight to the registry, acknowledgements and closes to the registry, pings back to the
  writer. The loop is a function over the events of its \<open>select!\<close>. Clocks, runtime switches, what a
  client does while a route call waits and how many commands the writer has taken from its
  channel are inputs. Telemetry counters and the floating-point round-trip average are not kept.
\<close>

abbreviation (input) "RPC_PROXY_ANS_U32 \<equiv> (0x4403da0d :: u32)"
abbreviation (input) "RPC_CLOSE_CONN_U32 \<equiv> (0x1fcf425d :: u32)"
abbreviation (input) "RPC_CLOSE_EXT_U32 \<equiv> (0x5eb634a2 :: u32)"
abbreviation (input) "RPC_SIMPLE_ACK_U32 \<equiv> (0x3bac409b :: u32)"
abbreviation (input) "RPC_PING_U32 \<equiv> (0x5730a2df :: u32)"
abbreviation (input) "RPC_PONG_U32 \<equiv> (0x8430eaa7 :: u32)"

abbreviation (input) "DATA_ROUTE_MAX_ATTEMPTS \<equiv> (3 :: nat)"
abbreviation (input) "DATA_ROUTE_QUEUE_FULL_STARVATION_THRESHOLD \<equiv> (3 :: nat)"
abbreviation (input) "FAIRNESS_DRAIN_BUDGET_PER_LOOP \<equiv> (128 :: nat)"

subsection \<open>Policy\<close>

definition should_close_on_route_result_for_data :: "route_result \<Rightarrow> bool" where
  "should_close_on_route_result_for_data result \<longleftrightarrow> result = Rt_NoConn \<or> result = Rt_ChannelClosed"

definition should_close_on_route_result_for_ack :: "route_result \<Rightarrow> bool" where
  "should_close_on_route_result_for_ack result \<longleftrightarrow> result = Rt_NoConn \<or> result = Rt_ChannelClosed"

definition is_data_route_queue_full :: "route_result \<Rightarrow> bool" where
  "is_data_route_queue_full result \<longleftrightarrow> result = Rt_QueueFullBase \<or> result = Rt_QueueFullHigh"

definition should_close_on_queue_full_streak_with_policy :: "nat \<Rightarrow> pressure_state \<Rightarrow> bool \<Rightarrow> bool" where
  "should_close_on_queue_full_streak_with_policy streak pressure_state backpressure_enabled =
     (if \<not> backpressure_enabled then False
      else if pressure_state < Shedding then False
      else streak \<ge> DATA_ROUTE_QUEUE_FULL_STARVATION_THRESHOLD)"

definition should_schedule_fairness_retry :: "worker_snapshot \<Rightarrow> bool" where
  "should_schedule_fairness_retry sn \<longleftrightarrow> sn_total_queued_bytes sn > 0"

definition fairness_retry_delay :: "nat \<Rightarrow> duration" where
  "fairness_retry_delay route_wait_ms = duration_from_millis (max route_wait_ms 1)"

fun route_feedback :: "route_result \<Rightarrow> dispatch_feedback" where
  "route_feedback Rt_Routed = Routed"
| "route_feedback Rt_NoConn = NoConn"
| "route_feedback Rt_ChannelClosed = ChannelClosed"
| "route_feedback Rt_QueueFullBase = QueueFull"
| "route_feedback Rt_QueueFullHigh = QueueFull"

text \<open>
  The retry loop: \<open>n\<close> attempts are left, and \<open>acts\<close> says what the client does during attempt
  number \<open>attempt\<close>.
\<close>

primrec route_attempts ::
  "nat \<Rightarrow> nat \<Rightarrow> u32 \<Rightarrow> bytes \<Rightarrow> nat \<Rightarrow> (nat \<Rightarrow> route_acts) \<Rightarrow> nat \<Rightarrow> conn_registry \<Rightarrow> route_result \<times> conn_registry" where
  "route_attempts 0 conn_id flags data timeout_ms acts attempt r =
     route_with_timeout conn_id (MR_Data flags data None) timeout_ms (acts attempt) r"
| "route_attempts (Suc n) conn_id flags data timeout_ms acts attempt r =
     (case route_with_timeout conn_id (MR_Data flags data None) timeout_ms (acts attempt) r of
        (routed, r1) \<Rightarrow>
          if is_data_route_queue_full routed
          then route_attempts n conn_id flags data timeout_ms acts (attempt + 1) r1
          else (routed, r1))"

definition route_data_with_retry ::
  "nat \<Rightarrow> u32 \<Rightarrow> bytes \<Rightarrow> nat \<Rightarrow> (nat \<Rightarrow> route_acts) \<Rightarrow> conn_registry \<Rightarrow> route_result \<times> conn_registry" where
  "route_data_with_retry conn_id flags data timeout_ms acts r =
     route_attempts (DATA_ROUTE_MAX_ATTEMPTS - 1) conn_id flags data timeout_ms acts 0 r"

subsection \<open>State\<close>

text \<open>The bounded channel to the writer task.\<close>

record command_channel =
  tx_queue :: "writer_command list"
  tx_capacity :: nat
  tx_closed :: bool

text \<open>Before a command is offered, the writer has taken \<open>taken\<close> commands from the channel.\<close>

definition tx_try_send :: "nat \<Rightarrow> writer_command \<Rightarrow> command_channel \<Rightarrow> send_outcome \<times> command_channel" where
  "tx_try_send taken cmd tx =
     (let tx1 = tx\<lparr>tx_queue := drop taken (tx_queue tx)\<rparr>
      in if tx_closed tx1 then (SendClosed, tx1)
         else if length (tx_queue tx1) \<ge> tx_capacity tx1 then (SendFull, tx1)
         else (SendOk, tx1\<lparr>tx_queue := tx_queue tx1 @ [cmd]\<rparr>))"

text \<open>The decrypting side of the stream, and what the reader does with the payloads.\<close>

record rpc_input =
  in_key :: bytes
  in_crc_mode :: rpc_checksum_mode
  in_raw :: bytes
  in_div :: bytes
  in_dec :: bytes
  in_expected_seq :: u32

record reader =
  rd_fairness :: worker
  rd_snapshot :: worker_snapshot
  rd_streak :: "(nat \<times> nat) list"
  rd_reg :: conn_registry
  rd_tx :: command_channel
  rd_pings :: "(nat \<times> instant) list"

record drain_env =
  de_now :: instant
  de_acts :: "nat \<Rightarrow> route_acts"
  de_epoch :: nat
  de_taken :: nat

record frame_env =
  fv_now :: instant
  fv_wait_ms :: nat
  fv_acts :: "nat \<Rightarrow> route_acts"
  fv_epoch :: nat
  fv_taken :: nat
  fv_drain_wait_ms :: nat
  fv_drain :: "nat \<Rightarrow> drain_env"

record loop_env =
  lv_now :: instant
  lv_backpressure :: bool
  lv_fairshare :: bool
  lv_retry_wait_ms :: nat
  lv_retry_drain :: "nat \<Rightarrow> drain_env"
  lv_frames :: "nat \<Rightarrow> frame_env"

definition reader_config :: "nat \<Rightarrow> bool \<Rightarrow> conn_registry \<Rightarrow> worker_config" where
  "reader_config writer_id backpressure_enabled reg =
     worker_config_default
       \<lparr>wc_worker_id := sat_add U16_MAX (writer_id mod 65536) 1,
        wc_max_active_flows := max (sat_mul U64_MAX (rg_capacity reg) 4) 256,
        wc_max_total_queued_bytes := max (sat_mul U64_MAX (rg_capacity reg) (16 * 1024)) (4 * 1024 * 1024),
        wc_max_flow_queued_bytes :=
          min (max (sat_mul U64_MAX (rg_capacity reg) (2 * 1024)) (64 * 1024)) (2 * 1024 * 1024),
        wc_backpressure_enabled := backpressure_enabled\<rparr>"

definition reader_new ::
  "nat \<Rightarrow> bool \<Rightarrow> instant \<Rightarrow> conn_registry \<Rightarrow> command_channel \<Rightarrow> (nat \<times> instant) list \<Rightarrow> reader" where
  "reader_new writer_id backpressure_enabled now reg tx pings =
     (let fairness = worker_new (reader_config writer_id backpressure_enabled reg) now
      in \<lparr>rd_fairness = fairness, rd_snapshot = snapshot fairness, rd_streak = [], rd_reg = reg,
          rd_tx = tx, rd_pings = pings\<rparr>)"

definition input_new :: "bytes \<Rightarrow> bytes \<Rightarrow> rpc_checksum_mode \<Rightarrow> bytes \<Rightarrow> bytes \<Rightarrow> rpc_input" where
  "input_new dk iv crc_mode enc_leftover dec =
     \<lparr>in_key = dk, in_crc_mode = crc_mode, in_raw = enc_leftover, in_div = iv, in_dec = dec,
      in_expected_seq = 0\<rparr>"

subsection \<open>Closing a connection\<close>

definition send_close_conn :: "nat \<Rightarrow> nat \<Rightarrow> command_channel \<Rightarrow> command_channel" where
  "send_close_conn taken conn_id tx =
     snd (tx_try_send taken (ControlAndFlush (build_control_payload RPC_CLOSE_CONN_U32 conn_id)) tx)"

text \<open>
  What the reader does at every place where it gives up a connection: forget its flow and its
  streak, unregister it and tell the middle proxy.
\<close>

definition give_up_conn :: "nat \<Rightarrow> nat \<Rightarrow> nat \<Rightarrow> reader \<Rightarrow> reader" where
  "give_up_conn epoch taken cid s =
     s\<lparr>rd_fairness := remove_flow cid (rd_fairness s),
       rd_streak := AList.delete cid (rd_streak s),
       rd_reg := snd (unregister epoch cid (rd_reg s)),
       rd_tx := send_close_conn taken cid (rd_tx s)\<rparr>"

definition bump_streak :: "nat \<Rightarrow> reader \<Rightarrow> nat \<times> reader" where
  "bump_streak cid s =
     (let old = (case map_of (rd_streak s) cid of Some n \<Rightarrow> n | None \<Rightarrow> 0);
          streak = sat_add U8_MAX old 1
      in (streak, s\<lparr>rd_streak := AList.update cid streak (rd_streak s)\<rparr>))"

subsection \<open>Draining the scheduler\<close>

definition drain_candidate :: "bool \<Rightarrow> nat \<Rightarrow> drain_env \<Rightarrow> dispatch_candidate \<Rightarrow> reader \<Rightarrow> reader" where
  "drain_candidate backpressure_enabled route_wait_ms D candidate s =
     (let cid = qf_conn_id (dc_frame candidate);
          pressure_state = dc_pressure_state candidate;
          (routed, reg1) = route_data_with_retry cid (qf_flags (dc_frame candidate))
             (qf_data (dc_frame candidate)) route_wait_ms (de_acts D) (rd_reg s);
          s1 = s\<lparr>rd_reg := reg1\<rparr>;
          s2 = (if routed = Rt_Routed then s1\<lparr>rd_streak := AList.delete cid (rd_streak s1)\<rparr> else s1);
          (fairness1, action) = apply_dispatch_feedback cid candidate (route_feedback routed) (de_now D)
             (rd_fairness s2);
          s3 = s2\<lparr>rd_fairness := fairness1\<rparr>;
          (closed, s4) = (if is_data_route_queue_full routed
             then (let (streak, t) = bump_streak cid s3
                   in if should_close_on_queue_full_streak_with_policy streak pressure_state backpressure_enabled
                      then (True, give_up_conn (de_epoch D) (de_taken D) cid t)
                      else (False, t))
             else (False, s3))
      in if closed then s4
         else if action = DA_CloseFlow \<or> should_close_on_route_result_for_data routed
         then give_up_conn (de_epoch D) (de_taken D) cid s4
         else s4)"

primrec drain_steps :: "nat \<Rightarrow> bool \<Rightarrow> nat \<Rightarrow> (nat \<Rightarrow> drain_env) \<Rightarrow> nat \<Rightarrow> reader \<Rightarrow> reader" where
  "drain_steps 0 backpressure_enabled route_wait_ms envs i s = s"
| "drain_steps (Suc n) backpressure_enabled route_wait_ms envs i s =
     (case next_decision (de_now (envs i)) (rd_fairness s) of
        (fairness1, SD_Idle) \<Rightarrow> s\<lparr>rd_fairness := fairness1\<rparr>
      | (fairness1, SD_Dispatch candidate) \<Rightarrow>
          drain_steps n backpressure_enabled route_wait_ms envs (i + 1)
            (drain_candidate backpressure_enabled route_wait_ms (envs i) candidate
               (s\<lparr>rd_fairness := fairness1\<rparr>)))"

definition drain_fairness_scheduler :: "bool \<Rightarrow> nat \<Rightarrow> (nat \<Rightarrow> drain_env) \<Rightarrow> reader \<Rightarrow> reader" where
  "drain_fairness_scheduler backpressure_enabled route_wait_ms envs s =
     drain_steps FAIRNESS_DRAIN_BUDGET_PER_LOOP backpressure_enabled route_wait_ms envs 0 s"

text \<open>The drain and the new snapshot that end a handled frame and a retry.\<close>

definition drain_and_snapshot :: "bool \<Rightarrow> nat \<Rightarrow> (nat \<Rightarrow> drain_env) \<Rightarrow> reader \<Rightarrow> reader" where
  "drain_and_snapshot backpressure_enabled route_wait_ms envs s =
     (let s1 = drain_fairness_scheduler backpressure_enabled route_wait_ms envs s
      in s1\<lparr>rd_snapshot := snapshot (rd_fairness s1)\<rparr>)"

subsection \<open>Payloads\<close>

text \<open>
  How the body of the frame loop ends: on to the drain, \<open>continue\<close>, or \<open>break\<close>.
\<close>

datatype frame_outcome = Handled | Skipped | Stopped

definition handle_data_fair :: "loop_env \<Rightarrow> frame_env \<Rightarrow> nat \<Rightarrow> u32 \<Rightarrow> bytes \<Rightarrow> reader \<Rightarrow> reader" where
  "handle_data_fair L F cid flags data s =
     (let (fairness1, admission) = enqueue_data cid flags data (fv_now F) (rd_fairness s);
          s1 = s\<lparr>rd_fairness := fairness1\<rparr>
      in if admission \<noteq> Admit then
           (let (streak, s2) = bump_streak cid s1;
                pressure_state = worker_pressure_state (rd_fairness s2)
            in if should_close_on_queue_full_streak_with_policy streak pressure_state (lv_backpressure L) \<or>
                  (lv_backpressure L \<and> admission = RejectSaturated)
               then give_up_conn (fv_epoch F) (fv_taken F) cid s2
               else s2)
         else s1)"

definition handle_data_direct ::
  "loop_env \<Rightarrow> frame_env \<Rightarrow> nat \<Rightarrow> u32 \<Rightarrow> bytes \<Rightarrow> reader \<Rightarrow> frame_outcome \<times> reader" where
  "handle_data_direct L F cid flags data s =
     (let (routed, reg1) = route_data_with_retry cid flags data (fv_wait_ms F) (fv_acts F) (rd_reg s);
          s1 = s\<lparr>rd_reg := reg1\<rparr>
      in if routed = Rt_Routed then (Skipped, s1\<lparr>rd_streak := AList.delete cid (rd_streak s1)\<rparr>)
         else if should_close_on_route_result_for_data routed
         then (Skipped, give_up_conn (fv_epoch F) (fv_taken F) cid s1)
         else if is_data_route_queue_full routed then
           (let (streak, s2) = bump_streak cid s1
            in if should_close_on_queue_full_streak_with_policy streak Shedding (lv_backpressure L)
               then (Handled, give_up_conn (fv_epoch F) (fv_taken F) cid s2)
               else (Handled, s2))
         else (Handled, s1))"

definition handle_ack :: "frame_env \<Rightarrow> nat \<Rightarrow> u32 \<Rightarrow> reader \<Rightarrow> reader" where
  "handle_ack F cid cfm s =
     (let (routed, reg1) = route_nowait cid (MR_Ack cfm) (rd_reg s);
          s1 = s\<lparr>rd_reg := reg1\<rparr>
      in if routed \<noteq> Rt_Routed \<and> should_close_on_route_result_for_ack routed
         then s1\<lparr>rd_reg := snd (unregister (fv_epoch F) cid (rd_reg s1)),
                 rd_tx := send_close_conn (fv_taken F) cid (rd_tx s1)\<rparr>
         else s1)"

definition handle_close :: "frame_env \<Rightarrow> nat \<Rightarrow> reader \<Rightarrow> reader" where
  "handle_close F cid s =
     (let reg1 = snd (route_nowait cid MR_Close (rd_reg s))
      in s\<lparr>rd_reg := snd (unregister (fv_epoch F) cid reg1),
           rd_streak := AList.delete cid (rd_streak s),
           rd_fairness := remove_flow cid (rd_fairness s)\<rparr>)"

definition handle_ping :: "frame_env \<Rightarrow> nat \<Rightarrow> reader \<Rightarrow> frame_outcome \<times> reader" where
  "handle_ping F ping_id s =
     (let pong = build_control_payload RPC_PONG_U32 ping_id
      in case tx_try_send (fv_taken F) (ControlAndFlush pong) (rd_tx s) of
           (SendOk, tx1) \<Rightarrow> (Handled, s\<lparr>rd_tx := tx1\<rparr>)
         | (SendFull, tx1) \<Rightarrow> (Handled, s\<lparr>rd_tx := tx1\<rparr>)
         | (SendClosed, tx1) \<Rightarrow> (Stopped, s\<lparr>rd_tx := tx1\<rparr>))"

definition handle_pong :: "nat \<Rightarrow> reader \<Rightarrow> reader" where
  "handle_pong ping_id s = s\<lparr>rd_pings := AList.delete ping_id (rd_pings s)\<rparr>"

definition handle_payload :: "loop_env \<Rightarrow> frame_env \<Rightarrow> bytes \<Rightarrow> reader \<Rightarrow> frame_outcome \<times> reader" where
  "handle_payload L F payload s =
     (if length payload < 4 then (Skipped, s)
      else
        let pt = u32_at payload 0; body = drop 4 payload in
        if pt = RPC_PROXY_ANS_U32 \<and> length body \<ge> 12 then
          (let flags = u32_at body 0; cid = u64_at body 4; data = drop 12 body
           in if lv_fairshare L then (Handled, handle_data_fair L F cid flags data s)
              else handle_data_direct L F cid flags data s)
        else if pt = RPC_SIMPLE_ACK_U32 \<and> length body \<ge> 12 then
          (Handled, handle_ack F (u64_at body 0) (u32_at body 8) s)
        else if pt = RPC_CLOSE_EXT_U32 \<and> length body \<ge> 8 then (Handled, handle_close F (u64_at body 0) s)
        else if pt = RPC_CLOSE_CONN_U32 \<and> length body \<ge> 8 then (Handled, handle_close F (u64_at body 0) s)
        else if pt = RPC_PING_U32 \<and> length body \<ge> 8 then handle_ping F (u64_at body 0) s
        else if pt = RPC_PONG_U32 \<and> length body \<ge> 8 then (Handled, handle_pong (u64_at body 0) s)
        else (Handled, s))"

text \<open>One turn of the frame loop for a payload: its handling, and the drain unless it was skipped.\<close>

definition payload_turn :: "loop_env \<Rightarrow> frame_env \<Rightarrow> bytes \<Rightarrow> reader \<Rightarrow> bool \<times> reader" where
  "payload_turn L F payload s =
     (case handle_payload L F payload s of
        (Stopped, s1) \<Rightarrow> (True, s1)
      | (Skipped, s1) \<Rightarrow> (False, s1)
      | (Handled, s1) \<Rightarrow> (False, drain_and_snapshot (lv_backpressure L) (fv_drain_wait_ms F) (fv_drain F) s1))"

subsection \<open>The stream\<close>

definition absorb_read :: "block_cipher \<Rightarrow> bytes \<Rightarrow> rpc_input \<Rightarrow> proxy_error + rpc_input" where
  "absorb_read B bs i =
     (let raw = in_raw i @ bs;
          blocks = length raw div 16 * 16
      in if blocks > 0 then
           (let chunk = take blocks raw;
                new_iv = slice chunk (blocks - 16) blocks
            in case cbc_decrypt_in_place B (cbc_new (in_key i) (in_div i)) chunk of
                 Inl e \<Rightarrow> Inl Crypto
               | Inr p \<Rightarrow> Inr (i\<lparr>in_raw := drop blocks raw, in_div := new_iv, in_dec := in_dec i @ p\<rparr>))
         else Inr (i\<lparr>in_raw := raw\<rparr>))"

text \<open>The head of the frame loop: wait for more, drop a filler word, give up the buffer, or cut a frame.\<close>

datatype frame_scan = Scan_Wait | Scan_Filler | Scan_Invalid | Scan_Frame nat

definition scan_frame :: "bytes \<Rightarrow> frame_scan" where
  "scan_frame dec =
     (if length dec < 12 then Scan_Wait
      else let fl = unat (u32_at dec 0) in
        if fl = 4 then Scan_Filler
        else if \<not> (12 \<le> fl \<and> fl \<le> MAX_RPC_FRAME) then Scan_Invalid
        else if length dec < fl then Scan_Wait
        else Scan_Frame fl)"

definition check_frame :: "crc_env \<Rightarrow> rpc_checksum_mode \<Rightarrow> u32 \<Rightarrow> bytes \<Rightarrow> proxy_error + bytes" where
  "check_frame E crc_mode expected_seq frame =
     (let pe = length frame - 4;
          ec = u32_at frame pe;
          actual_crc = rpc_crc E crc_mode (take pe frame)
      in if actual_crc \<noteq> ec then Inl Proxy
         else let seq_no = u32_at frame 4 in
           if seq_no \<noteq> expected_seq then Inl (SeqNoMismatch expected_seq seq_no)
           else Inr (slice frame 8 pe))"

datatype input_step =
    In_Wait rpc_input
  | In_More rpc_input
  | In_Fail proxy_error rpc_input
  | In_Payload bytes rpc_input

definition next_input :: "crc_env \<Rightarrow> rpc_input \<Rightarrow> input_step" where
  "next_input E i =
     (case scan_frame (in_dec i) of
        Scan_Wait \<Rightarrow> In_Wait i
      | Scan_Filler \<Rightarrow> In_More (i\<lparr>in_dec := drop 4 (in_dec i)\<rparr>)
      | Scan_Invalid \<Rightarrow> In_Wait (i\<lparr>in_dec := []\<rparr>)
      | Scan_Frame fl \<Rightarrow>
          let i1 = i\<lparr>in_dec := drop fl (in_dec i)\<rparr>
          in case check_frame E (in_crc_mode i) (in_expected_seq i) (take fl (in_dec i)) of
               Inl e \<Rightarrow> In_Fail e i1
             | Inr payload \<Rightarrow> In_Payload payload (i1\<lparr>in_expected_seq := in_expected_seq i1 + 1\<rparr>))"

lemma next_input_shrinks:
  "next_input E i = In_More j \<Longrightarrow> length (in_dec j) < length (in_dec i)"
  "next_input E i = In_Payload p j \<Longrightarrow> length (in_dec j) < length (in_dec i)"
  by (auto simp: next_input_def scan_frame_def Let_def split: frame_scan.splits if_splits sum.splits)

text \<open>The frame loop; \<open>k\<close> counts the payloads of this read.\<close>

function read_frames ::
  "crc_env \<Rightarrow> loop_env \<Rightarrow> nat \<Rightarrow> rpc_input \<Rightarrow> reader \<Rightarrow> proxy_error option \<times> rpc_input \<times> reader" where
  "read_frames E L k i s =
     (case next_input E i of
        In_Wait j \<Rightarrow> (None, j, s)
      | In_More j \<Rightarrow> read_frames E L k j s
      | In_Fail e j \<Rightarrow> (Some e, j, s)
      | In_Payload payload j \<Rightarrow>
          (case payload_turn L (lv_frames L k) payload s of
             (True, s1) \<Rightarrow> (None, j, s1)
           | (False, s1) \<Rightarrow> read_frames E L (k + 1) j s1))"
  by pat_completeness auto
termination
  by (relation "measure (\<lambda>(E, L, k, i, s). length (in_dec i))") (auto dest: next_input_shrinks)

declare read_frames.simps [simp del]

subsection \<open>The loop\<close>

text \<open>
  The three events of the \<open>select!\<close>: cancellation, the outcome of a socket read, and the retry
  timer, which is armed only while the last snapshot shows queued bytes. The result is \<open>None\<close>
  while the loop goes on.
\<close>

datatype reader_event = Rd_Cancelled | Rd_Read "io_error_kind + bytes" | Rd_Retry

definition reader_step ::
  "crc_env \<Rightarrow> block_cipher \<Rightarrow> loop_env \<Rightarrow> reader_event \<Rightarrow> rpc_input \<times> reader \<Rightarrow>
     (proxy_error + unit) option \<times> rpc_input \<times> reader" where
  "reader_step E B L ev st =
     (let (i, s0) = st;
          s = s0\<lparr>rd_fairness := set_backpressure_enabled (lv_now L) (lv_backpressure L) (rd_fairness s0)\<rparr>
      in case ev of
           Rd_Cancelled \<Rightarrow> (Some (Inr ()), i, s)
         | Rd_Retry \<Rightarrow>
             if should_schedule_fairness_retry (rd_snapshot s)
             then (None, i, drain_and_snapshot (lv_backpressure L) (lv_retry_wait_ms L) (lv_retry_drain L) s)
             else (None, i, s)
         | Rd_Read (Inl e) \<Rightarrow> (Some (Inl (Io e)), i, s)
         | Rd_Read (Inr bs) \<Rightarrow>
             if bs = [] then (Some (Inl (Io IO_UnexpectedEof)), i, s)
             else (case absorb_read B bs i of
                     Inl e \<Rightarrow> (Some (Inl e), i, s)
                   | Inr i1 \<Rightarrow>
                       (case read_frames E L 0 i1 s of
                          (Some e, i2, s2) \<Rightarrow> (Some (Inl e), i2, s2)
                        | (None, i2, s2) \<Rightarrow> (None, i2, s2))))"

fun reader_loop ::
  "crc_env \<Rightarrow> block_cipher \<Rightarrow> rpc_input \<times> reader \<Rightarrow> (loop_env \<times> reader_event) list \<Rightarrow>
     (proxy_error + unit) option \<times> rpc_input \<times> reader" where
  "reader_loop E B st [] = (None, st)"
| "reader_loop E B st ((L, ev) # evs) =
     (case reader_step E B L ev st of
        (Some r, st1) \<Rightarrow> (Some r, st1)
      | (None, st1) \<Rightarrow> reader_loop E B st1 evs)"

end
