(* ===== verification/Reader_Invariant.thy ===== *)
theory Reader_Invariant
  imports Rpc_Reader
begin

section \<open>What the reader keeps\<close>

text \<open>
  Every operation of \<^verbatim>\<open>reader.rs\<close> moves the fairness worker by its own steps, keeps the registry
  consistent and keeps the command channel within its capacity. The relation \<open>reader_moves\<close>
  says so for two states; it is reflexive and transitive, so that the loops follow.
\<close>

definition tx_ok :: "command_channel \<Rightarrow> bool" where
  "tx_ok tx \<longleftrightarrow> length (tx_queue tx) \<le> tx_capacity tx"

definition reg_moves :: "conn_registry \<Rightarrow> conn_registry \<Rightarrow> bool" where
  "reg_moves r r' \<longleftrightarrow> (\<forall>n. reg_inv n r \<longrightarrow>
     reg_inv n r' \<and> rg_capacity r' = rg_capacity r \<and> rg_permits_per_conn r' = rg_permits_per_conn r)"

definition tx_moves :: "command_channel \<Rightarrow> command_channel \<Rightarrow> bool" where
  "tx_moves tx tx' \<longleftrightarrow> (tx_ok tx \<longrightarrow> tx_ok tx') \<and> tx_capacity tx' = tx_capacity tx \<and> tx_closed tx' = tx_closed tx"

definition fair_moves :: "worker \<Rightarrow> worker \<Rightarrow> bool" where
  "fair_moves f f' \<longleftrightarrow> (\<exists>evs. fair_run f evs f')"

definition reader_moves :: "reader \<Rightarrow> reader \<Rightarrow> bool" where
  "reader_moves s t \<longleftrightarrow> fair_moves (rd_fairness s) (rd_fairness t) \<and> reg_moves (rd_reg s) (rd_reg t) \<and>
     tx_moves (rd_tx s) (rd_tx t)"

subsection \<open>Composition\<close>

lemma fair_run_append: "fair_run t evs' u \<Longrightarrow> fair_run s evs t \<Longrightarrow> fair_run s (evs @ evs') u"
  by (induction rule: fair_run.induct) (auto intro: fair_run.intros simp flip: append_assoc)

lemma fair_moves_refl [simp]: "fair_moves f f"
  by (auto simp: fair_moves_def intro: fr_start)

lemma fair_moves_trans: "fair_moves f g \<Longrightarrow> fair_moves g h \<Longrightarrow> fair_moves f h"
  by (auto simp: fair_moves_def dest: fair_run_append)

lemma fair_moves_step: "fair_step f ev g \<Longrightarrow> fair_moves f g"
  using fr_step [OF fr_start] by (auto simp: fair_moves_def)

lemma reg_moves_refl [simp]: "reg_moves r r"
  by (simp add: reg_moves_def)

lemma reg_moves_trans: "reg_moves r s \<Longrightarrow> reg_moves s t \<Longrightarrow> reg_moves r t"
  by (auto simp: reg_moves_def)

lemma tx_moves_refl [simp]: "tx_moves tx tx"
  by (simp add: tx_moves_def)

lemma tx_moves_trans: "tx_moves a b \<Longrightarrow> tx_moves b c \<Longrightarrow> tx_moves a c"
  by (simp add: tx_moves_def)

lemma reader_moves_refl [simp]: "reader_moves s s"
  by (simp add: reader_moves_def)

lemma reader_moves_trans: "reader_moves s t \<Longrightarrow> reader_moves t u \<Longrightarrow> reader_moves s u"
  by (auto simp: reader_moves_def intro: fair_moves_trans reg_moves_trans tx_moves_trans)

lemma reader_moves_inv:
  assumes "reader_moves s t"
  shows "worker_inv (rd_fairness s) \<Longrightarrow> worker_inv (rd_fairness t)"
    and "reg_inv n (rd_reg s) \<Longrightarrow> reg_inv n (rd_reg t)"
    and "tx_ok (rd_tx s) \<Longrightarrow> tx_ok (rd_tx t)"
    and "tx_closed (rd_tx t) = tx_closed (rd_tx s)"
  using assms fair_run_inv by (auto simp: reader_moves_def fair_moves_def reg_moves_def tx_moves_def)

subsection \<open>Registry calls\<close>

lemma reg_moves_frame:
  assumes "\<And>n. reg_inv n r \<Longrightarrow> route_inv idle r' \<and> route_frame r r'"
  shows "reg_moves r r'"
proof (unfold reg_moves_def, intro allI impI)
  fix n assume i: "reg_inv n r"
  from assms [OF i] have "route_inv idle r'" "route_frame r r'" by simp_all
  then show "reg_inv n r' \<and> rg_capacity r' = rg_capacity r \<and> rg_permits_per_conn r' = rg_permits_per_conn r"
    using i frame_binding_inv [of r r'] frame_meta [of r r'] frame_permits [of r r'] by (simp add: reg_inv_def)
qed

lemma reg_moves_route_timeout: "reg_moves r (snd (route_with_timeout c (MR_Data fl d None) t acts r))"
  by (rule reg_moves_frame, rule route_inv_route_timeout) (simp_all add: reg_inv_def)

lemma reg_moves_route_nowait: "fresh_resp resp \<Longrightarrow> reg_moves r (snd (route_nowait c resp r))"
  by (rule reg_moves_frame, rule route_nowait_inv) (simp_all add: reg_inv_def)

lemma reg_moves_unregister: "reg_moves r (snd (unregister now c r))"
proof (unfold reg_moves_def, intro allI impI)
  fix n assume i: "reg_inv n r"
  have "route_inv idle (snd (unregister now c r))"
    using i by (simp add: reg_inv_def route_inv_def unregister_route_fields hm.lookup_remove)
  then show "reg_inv n (snd (unregister now c r)) \<and> rg_capacity (snd (unregister now c r)) = rg_capacity r \<and>
      rg_permits_per_conn (snd (unregister now c r)) = rg_permits_per_conn r"
    using i binding_inv_unregister [of r now c] binding_inv_unregister_size [of now c r]
    by (simp add: reg_inv_def unregister_route_fields)
qed

lemma reg_moves_attempts:
  "reg_moves r (snd (route_attempts n c fl d t acts k r))"
proof (induction n arbitrary: k r)
  case 0
  then show ?case using reg_moves_route_timeout by simp
next
  case (Suc n)
  obtain res r1 where e: "route_with_timeout c (MR_Data fl d None) t (acts k) r = (res, r1)" by fastforce
  have "reg_moves r r1" using reg_moves_route_timeout [of r c fl d t "acts k"] e by simp
  then show ?case using e Suc [of r1 "k + 1"] by (auto intro: reg_moves_trans)
qed

lemma reg_moves_retry: "route_data_with_retry c fl d t acts r = (res, r') \<Longrightarrow> reg_moves r r'"
  using reg_moves_attempts [of r "DATA_ROUTE_MAX_ATTEMPTS - 1" c fl d t acts 0]
  by (simp add: route_data_with_retry_def)

lemma tx_moves_try_send: "tx_moves tx (snd (tx_try_send taken cmd tx))"
  by (auto simp: tx_moves_def tx_try_send_def tx_ok_def Let_def)

lemma tx_moves_close: "tx_moves tx (send_close_conn taken c tx)"
  by (simp add: send_close_conn_def tx_moves_try_send)

lemma fair_moves_remove: "fair_moves f (remove_flow c f)"
  by (rule fair_moves_step) (rule fs_remove)

lemma reader_moves_give_up: "reader_moves s (give_up_conn epoch taken c s)"
  by (simp add: reader_moves_def give_up_conn_def fair_moves_remove reg_moves_unregister tx_moves_close)

lemma reader_moves_bump: "bump_streak c s = (n, t) \<Longrightarrow> reader_moves s t"
  by (auto simp: bump_streak_def Let_def reader_moves_def)

subsection \<open>The drain\<close>

lemma drain_candidate_moves:
  assumes "next_decision (de_now D) (rd_fairness s) = (f1, SD_Dispatch cand)"
  shows "reader_moves s (drain_candidate bp w D cand (s\<lparr>rd_fairness := f1\<rparr>))"
proof -
  let ?c = "qf_conn_id (dc_frame cand)"
  obtain res r1 where r: "route_data_with_retry ?c (qf_flags (dc_frame cand)) (qf_data (dc_frame cand)) w
      (de_acts D) (rd_reg s) = (res, r1)" by fastforce
  define s2 where "s2 = (if res = Rt_Routed then s\<lparr>rd_fairness := f1, rd_reg := r1, rd_streak := AList.delete ?c (rd_streak s)\<rparr>
    else s\<lparr>rd_fairness := f1, rd_reg := r1\<rparr>)"
  obtain f2 act where f: "apply_dispatch_feedback ?c cand (route_feedback res) (de_now D) f1 = (f2, act)" by fastforce
  define s3 where "s3 = s2\<lparr>rd_fairness := f2\<rparr>"
  obtain n t where b: "bump_streak ?c s3 = (n, t)" by fastforce
  have "fair_step (rd_fairness s) (feedback_event cand (route_feedback res) act f1) f2"
    using assms f by (rule fs_dispatch)
  then have m: "reader_moves s s3"
    using reg_moves_retry [OF r] by (auto simp: reader_moves_def s3_def s2_def fair_moves_step)
  have mb: "reader_moves s t" using m reader_moves_bump [OF b] by (rule reader_moves_trans)
  have f': "apply_dispatch_feedback ?c cand (route_feedback res) (de_now D) (rd_fairness s2) = (f2, act)"
    using f by (cases "res = Rt_Routed") (simp_all add: s2_def)
  have e: "drain_candidate bp w D cand (s\<lparr>rd_fairness := f1\<rparr>) =
      (let s4 = (if is_data_route_queue_full res then t else s3) in
       if is_data_route_queue_full res \<and>
          should_close_on_queue_full_streak_with_policy n (dc_pressure_state cand) bp \<or>
          act = DA_CloseFlow \<or> should_close_on_route_result_for_data res
       then give_up_conn (de_epoch D) (de_taken D) ?c s4 else s4)"
  proof (cases "res = Rt_Routed")
    case True
    then have "\<not> is_data_route_queue_full res" by (simp add: is_data_route_queue_full_def)
    then show ?thesis using r f' True by (simp add: drain_candidate_def Let_def s2_def s3_def)
  next
    case False
    then show ?thesis
      using r f' b by (cases "is_data_route_queue_full res") (simp_all add: drain_candidate_def Let_def s2_def s3_def)
  qed
  show ?thesis unfolding e Let_def
    using m mb reader_moves_give_up reader_moves_trans by auto
qed

lemma drain_steps_moves: "reader_moves s (drain_steps n bp w envs i s)"
proof (induction n arbitrary: i s)
  case (Suc n)
  obtain f1 d where d: "next_decision (de_now (envs i)) (rd_fairness s) = (f1, d)" by fastforce
  show ?case
  proof (cases d)
    case SD_Idle
    then have "fair_moves (rd_fairness s) f1" using d by (auto intro: fair_moves_step fs_idle)
    then show ?thesis using d SD_Idle by (simp add: reader_moves_def)
  next
    case (SD_Dispatch cand)
    then show ?thesis
      using d drain_candidate_moves [of "envs i" s f1 cand bp w] Suc
      by (auto intro: reader_moves_trans)
  qed
qed simp

lemma drain_moves: "reader_moves s (drain_and_snapshot bp w envs s)"
  using drain_steps_moves [of s FAIRNESS_DRAIN_BUDGET_PER_LOOP bp w envs 0]
  by (simp add: drain_and_snapshot_def drain_fairness_scheduler_def Let_def reader_moves_def)

subsection \<open>Payloads and the loop\<close>

lemma handle_data_fair_moves: "reader_moves s (handle_data_fair L F c fl d s)"
proof -
  obtain f a where e: "enqueue_data c fl d (fv_now F) (rd_fairness s) = (f, a)" by fastforce
  obtain n t where b: "bump_streak c (s\<lparr>rd_fairness := f\<rparr>) = (n, t)" by fastforce
  have "fair_moves (rd_fairness s) f"
  proof (cases "a = Admit")
    case True
    then show ?thesis using e by (intro fair_moves_step) (auto intro: fs_admit)
  next
    case False
    with e show ?thesis by (intro fair_moves_step) (rule fs_refuse)
  qed
  then have m: "reader_moves s (s\<lparr>rd_fairness := f\<rparr>)" by (simp add: reader_moves_def)
  moreover have "reader_moves s t" using m reader_moves_bump [OF b] by (rule reader_moves_trans)
  ultimately show ?thesis
    using e b reader_moves_give_up reader_moves_trans by (auto simp: handle_data_fair_def Let_def)
qed

lemma handle_data_direct_moves: "reader_moves s (snd (handle_data_direct L F c fl d s))"
proof -
  obtain res r where e: "route_data_with_retry c fl d (fv_wait_ms F) (fv_acts F) (rd_reg s) = (res, r)" by fastforce
  obtain n t where b: "bump_streak c (s\<lparr>rd_reg := r\<rparr>) = (n, t)" by fastforce
  have m: "reader_moves s (s\<lparr>rd_reg := r\<rparr>)" "reader_moves s (s\<lparr>rd_reg := r, rd_streak := st\<rparr>)" for st
    using reg_moves_retry [OF e] by (simp_all add: reader_moves_def)
  moreover have "reader_moves s t" using m(1) reader_moves_bump [OF b] by (rule reader_moves_trans)
  ultimately show ?thesis
    using e b reader_moves_give_up reader_moves_trans by (auto simp: handle_data_direct_def Let_def)
qed

lemma handle_ack_moves: "reader_moves s (handle_ack F c cfm s)"
proof -
  obtain res r where e: "route_nowait c (MR_Ack cfm) (rd_reg s) = (res, r)" by fastforce
  have "reg_moves (rd_reg s) r" using reg_moves_route_nowait [of "MR_Ack cfm" "rd_reg s" c] e by simp
  then show ?thesis
    using e reg_moves_unregister
    by (auto simp: handle_ack_def Let_def reader_moves_def tx_moves_close intro: reg_moves_trans)
qed

lemma handle_close_moves: "reader_moves s (handle_close F c s)"
  using reg_moves_route_nowait [of MR_Close "rd_reg s" c] reg_moves_unregister
  by (auto simp: handle_close_def Let_def reader_moves_def fair_moves_remove intro: reg_moves_trans)

lemma handle_ping_moves: "reader_moves s (snd (handle_ping F p s))"
  using tx_moves_try_send [of "rd_tx s" "fv_taken F" "ControlAndFlush (build_control_payload RPC_PONG_U32 p)"]
  by (auto simp: handle_ping_def reader_moves_def split: prod.splits send_outcome.splits)

lemma handle_payload_moves: "reader_moves s (snd (handle_payload L F p s))"
  by (simp add: handle_payload_def Let_def handle_data_fair_moves handle_data_direct_moves handle_ack_moves
      handle_close_moves handle_ping_moves)
    (simp add: handle_pong_def reader_moves_def)

lemma payload_turn_moves: "reader_moves s (snd (payload_turn L F p s))"
  using handle_payload_moves [of s L F p] drain_moves reader_moves_trans
  by (auto simp: payload_turn_def split: prod.splits frame_outcome.splits)

lemma read_frames_moves: "reader_moves s (snd (snd (read_frames E L k i s)))"
proof (induction E L k i s rule: read_frames.induct)
  case (1 E L k i s)
  show ?case
  proof (cases "next_input E i")
    case (In_Payload p j)
    obtain stop s1 where t: "payload_turn L (lv_frames L k) p s = (stop, s1)" by fastforce
    have m: "reader_moves s s1" using payload_turn_moves [of s L "lv_frames L k" p] t by simp
    show ?thesis
    proof (cases stop)
      case True
      then show ?thesis using In_Payload t m by (subst read_frames.simps) simp
    next
      case False
      then have "reader_moves s1 (snd (snd (read_frames E L (k + 1) j s1)))"
        using "1.IH"(2) [OF In_Payload t [symmetric]] by simp
      then show ?thesis using In_Payload t m False reader_moves_trans by (subst read_frames.simps) simp
    qed
  qed (use "1.IH"(1) in \<open>simp_all add: read_frames.simps [of E L k i s]\<close>)
qed

lemma reader_step_moves: "reader_moves s (snd (snd (reader_step E B L ev (i, s))))"
proof -
  define s1 where "s1 = s\<lparr>rd_fairness := set_backpressure_enabled (lv_now L) (lv_backpressure L) (rd_fairness s)\<rparr>"
  have m: "reader_moves s s1" by (simp add: reader_moves_def s1_def fair_moves_step [OF fs_switch])
  have *: "reader_moves s (drain_and_snapshot bp w envs s1)" for bp w envs
    using m drain_moves reader_moves_trans by blast
  have "reader_moves s (snd (snd (read_frames E L 0 i1 s1)))" for i1
    using m read_frames_moves reader_moves_trans by blast
  then show ?thesis
    using m * by (auto simp: reader_step_def Let_def s1_def [symmetric]
        split: reader_event.splits sum.splits prod.splits option.splits) (metis snd_conv)+
qed

lemma reader_loop_moves: "reader_moves s (snd (snd (reader_loop E B (i, s) evs)))"
proof (induction evs arbitrary: i s)
  case (Cons a evs)
  obtain L ev where a: "a = (L, ev)" by (cases a)
  obtain r i1 s1 where st: "reader_step E B L ev (i, s) = (r, i1, s1)" by (metis prod.collapse)
  then have "reader_moves s s1" using reader_step_moves [of s E B L ev i] by simp
  then show ?case using a st Cons [of s1 i1] reader_moves_trans by (cases r) auto
qed simp

lemma reader_config_ok: "rg_capacity reg * 16384 < U64_MAX \<Longrightarrow> config_ok (reader_config writer_id bp reg)"
  by (simp add: config_ok_def reader_config_def worker_config_default_def sat_mul_def)

end
