(* ===== verification/Reader_Stream.thy ===== *)
theory Reader_Stream
  imports Reader_Invariant
begin

section \<open>From the writer's frames to the reader's payloads\<close>

text \<open>
  The stream between two ends of a middle-proxy connection: which payloads the frame loop of
  the reader takes from a decrypted stream, that the way the socket cuts the stream does not
  matter, and that the reader recovers what the writer sent.
\<close>

subsection \<open>The payloads in a buffer\<close>

datatype collect_end = End_Wait | End_Cleared | End_Failed proxy_error

function collect ::
  "crc_env \<Rightarrow> rpc_checksum_mode \<Rightarrow> u32 \<Rightarrow> bytes \<Rightarrow> bytes list \<times> collect_end \<times> u32 \<times> bytes" where
  "collect E mode q dec =
     (case scan_frame dec of
        Scan_Wait \<Rightarrow> ([], End_Wait, q, dec)
      | Scan_Filler \<Rightarrow> collect E mode q (drop 4 dec)
      | Scan_Invalid \<Rightarrow> ([], End_Cleared, q, [])
      | Scan_Frame fl \<Rightarrow>
          (case check_frame E mode q (take fl dec) of
             Inl e \<Rightarrow> ([], End_Failed e, q, drop fl dec)
           | Inr p \<Rightarrow> (case collect E mode (q + 1) (drop fl dec) of (ps, r) \<Rightarrow> (p # ps, r))))"
  by pat_completeness auto
termination
  by (relation "measure (\<lambda>(E, mode, q, dec). length dec)")
    (auto simp: scan_frame_def Let_def split: if_splits)

declare collect.simps [simp del]

lemma scan_frame_append:
  "scan_frame dec = Scan_Filler \<Longrightarrow> scan_frame (dec @ b) = Scan_Filler"
  "scan_frame dec = Scan_Invalid \<Longrightarrow> scan_frame (dec @ b) = Scan_Invalid"
  "scan_frame dec = Scan_Frame fl \<Longrightarrow> scan_frame (dec @ b) = Scan_Frame fl"
  by (auto simp: scan_frame_def Let_def u32_at_def slice_def split: if_splits)

lemma scan_frame_lengths:
  "scan_frame dec = Scan_Filler \<Longrightarrow> 12 \<le> length dec"
  "scan_frame dec = Scan_Frame fl \<Longrightarrow> 12 \<le> fl \<and> fl \<le> length dec"
  by (auto simp: scan_frame_def Let_def split: if_splits)

lemma collect_wait: "scan_frame dec = Scan_Wait \<Longrightarrow> collect E mode q dec = ([], End_Wait, q, dec)"
  by (subst collect.simps) simp

lemma collect_filler: "scan_frame dec = Scan_Filler \<Longrightarrow> collect E mode q dec = collect E mode q (drop 4 dec)"
  by (subst collect.simps) simp

lemma collect_frame:
  "scan_frame dec = Scan_Frame fl \<Longrightarrow> check_frame E mode q (take fl dec) = Inr p \<Longrightarrow>
    collect E mode q dec = (case collect E mode (q + 1) (drop fl dec) of (ps, r) \<Rightarrow> (p # ps, r))"
  by (subst collect.simps) simp

text \<open>A buffer that is cut anywhere yields the same payloads.\<close>

lemma collect_split:
  assumes "collect E mode q (a @ b) = (ps, End_Wait, q', d')"
  shows "\<exists>ps1 ps2 q1 d1. collect E mode q a = (ps1, End_Wait, q1, d1) \<and> scan_frame d1 = Scan_Wait \<and>
    collect E mode q1 (d1 @ b) = (ps2, End_Wait, q', d') \<and> ps = ps1 @ ps2"
  using assms
proof (induction E mode q a arbitrary: ps rule: collect.induct)
  case (1 E mode q dec)
  show ?case
  proof (cases "scan_frame dec")
    case Scan_Wait
    then show ?thesis using "1.prems" by (auto simp: collect_wait)
  next
    case Scan_Filler
    then have "collect E mode q (drop 4 dec @ b) = (ps, End_Wait, q', d')"
      using "1.prems" scan_frame_append(1) [OF Scan_Filler] scan_frame_lengths(1) [OF Scan_Filler]
      by (simp add: collect_filler)
    from "1.IH"(1) [OF Scan_Filler this] show ?thesis using Scan_Filler by (simp add: collect_filler)
  next
    case Scan_Invalid
    then have "collect E mode q (dec @ b) = ([], End_Cleared, q, [])"
      using scan_frame_append(2) by (subst collect.simps) simp
    then show ?thesis using "1.prems" by simp
  next
    case (Scan_Frame fl)
    note sc = scan_frame_append(3) [OF Scan_Frame, of b] and len = scan_frame_lengths(2) [OF Scan_Frame]
    show ?thesis
    proof (cases "check_frame E mode q (take fl dec)")
      case (Inl e)
      then have "collect E mode q (dec @ b) = ([], End_Failed e, q, drop fl (dec @ b))"
        using sc len by (subst collect.simps) simp
      then show ?thesis using "1.prems" by simp
    next
      case (Inr p)
      obtain qs where qs: "collect E mode (q + 1) (drop fl dec @ b) = (qs, End_Wait, q', d')" "ps = p # qs"
        using "1.prems" sc len Inr
        by (auto simp: collect_frame split: prod.splits)
      from "1.IH"(2) [OF Scan_Frame Inr qs(1)] show ?thesis
        using Scan_Frame Inr qs(2) by (auto simp: collect_frame)
    qed
  qed
qed

subsection \<open>Filler and frames\<close>

definition filler :: "nat \<Rightarrow> bytes" where
  "filler k = concat (replicate k [4, 0, 0, 0])"

lemma length_filler [simp]: "length (filler k) = 4 * k"
  by (induction k) (simp_all add: filler_def)

lemma filler_Suc: "filler (Suc k) = u32_to_le_bytes 4 @ filler k"
  by (simp add: filler_def u32_to_le_bytes_def)

lemma filler_0 [simp]: "filler 0 = []"
  by (simp add: filler_def)

lemma pad_bytes_filler: "pad_bytes (4 * k) = filler k"
proof (induction k)
  case (Suc k)
  have "[0 ..< 4 * Suc k] = [0 ..< 4 * k] @ [4 * k ..< 4 * k + 4]"
    using upt_add_eq_append [of 0 "4 * k" 4] by (simp add: add.commute)
  then have "pad_bytes (4 * Suc k) = pad_bytes (4 * k) @ map (\<lambda>i. [4, 0, 0, 0] ! (i mod 4)) [4 * k ..< 4 * k + 4]"
    by (simp only: pad_bytes_def map_append)
  also have "[4 * k ..< 4 * k + 4] = [4 * k, 4 * k + 1, 4 * k + 2, 4 * k + 3]"
    by (simp add: upt_conv_Cons)
  finally have "pad_bytes (4 * Suc k) = filler k @ [4, 0, 0, 0]"
    using Suc by (simp add: mod_Suc numeral_2_eq_2 numeral_3_eq_3)
  also have "\<dots> = filler (Suc k)"
    by (simp add: filler_def replicate_append_same [symmetric])
  finally show ?case .
qed (simp add: pad_bytes_def)

text \<open>A payload the stream carries without losing step: it fits a frame and is a sequence of words.\<close>

definition word_payload :: "bytes \<Rightarrow> bool" where
  "word_payload p \<longleftrightarrow> frame_fits p \<and> 4 dvd length p"

lemma pad_word_frame:
  assumes "word_payload p"
  obtains m where "pad_to_block (build_rpc_frame_into E q p mode) = build_rpc_frame_into E q p mode @ filler m"
proof -
  let ?n = "length p + 12"
  have "4 dvd ?n" using assms by (simp add: word_payload_def)
  then obtain j where j: "?n = 4 * j" by blast
  have "(16 - ?n mod 16) = 4 * (4 - j mod 4)"
    unfolding j using mod_mult_mult1 [of 4 j 4] by simp
  then have "(16 - ?n mod 16) mod 16 = 4 * ((4 - j mod 4) mod 4)"
    using mod_mult_mult1 [of 4 "4 - j mod 4" 4] by simp
  then show thesis
    using that [of "(4 - j mod 4) mod 4"] by (simp add: pad_to_block_def pad_bytes_filler)
qed

lemma scan_filler: "8 \<le> length rest \<Longrightarrow> scan_frame (filler (Suc k) @ rest) = Scan_Filler"
  by (simp add: scan_frame_def filler_Suc)

lemma scan_built_frame:
  assumes "frame_fits p"
  shows "scan_frame (build_rpc_frame_into E q p mode @ rest) = Scan_Frame (length p + 12)"
  using assms frame_len_word [OF assms]
  by (simp add: scan_frame_def build_rpc_frame_split frame_head_fields(1) frame_fits_def del: of_nat_add)

lemma check_built_frame: "check_frame E mode q (build_rpc_frame_into E q p mode) = Inr p"
proof -
  let ?h = "frame_head q p" and ?c = "u32_to_le_bytes (rpc_crc E mode (frame_head q p))"
  have "u32_at (?h @ ?c) (length p + 8) = rpc_crc E mode ?h"
    using u32_at_append [of ?h "length p + 8" _ "[]"] by simp
  then show ?thesis
    by (simp add: check_frame_def build_rpc_frame_split Let_def frame_head_fields add.commute)
qed

lemma collect_fillers:
  "\<exists>m. m \<le> 2 \<and> collect E mode q (filler k) = ([], End_Wait, q, filler m)"
proof (induction k)
  case 0
  have "scan_frame (filler 0) = Scan_Wait" by (simp add: scan_frame_def)
  then show ?case by (auto simp: collect_wait)
next
  case (Suc k)
  show ?case
  proof (cases "Suc k \<le> 2")
    case True
    then have "scan_frame (filler (Suc k)) = Scan_Wait" by (simp add: scan_frame_def)
    then show ?thesis using True by (intro exI [of _ "Suc k"]) (simp add: collect_wait)
  next
    case False
    then have "scan_frame (filler (Suc k)) = Scan_Filler"
      using scan_filler [of "filler k" 0] by (simp add: filler_Suc)
    then show ?thesis using Suc by (simp add: collect_filler filler_Suc)
  qed
qed

lemma collect_skip: "8 \<le> length rest \<Longrightarrow> collect E mode q (filler k @ rest) = collect E mode q rest"
  by (induction k) (simp_all add: collect_filler scan_filler, simp add: filler_Suc)

text \<open>The frame loop takes from the writer's plaintext exactly the payloads that were framed.\<close>

lemma collect_padded_frames:
  "list_all word_payload ps \<Longrightarrow>
    \<exists>m. m \<le> 2 \<and> collect E mode q (filler k @ padded_frames E mode q ps) =
      (ps, End_Wait, q + word_of_nat (length ps), filler m)"
proof (induction ps arbitrary: q k)
  case Nil
  then show ?case using collect_fillers [of E mode q k] by simp
next
  case (Cons p ps)
  let ?f = "build_rpc_frame_into E q p mode"
  obtain m where m: "pad_to_block ?f = ?f @ filler m"
    using Cons.prems pad_word_frame [of p E q mode] by auto
  let ?rest = "filler m @ padded_frames E mode (q + 1) ps"
  have "collect E mode q (filler k @ ?f @ ?rest) = collect E mode q (?f @ ?rest)"
    by (rule collect_skip) simp
  also have "\<dots> = (case collect E mode (q + 1) ?rest of (ps, r) \<Rightarrow> (p # ps, r))"
    using Cons.prems scan_built_frame [of p E q mode ?rest] check_built_frame [of E mode q p]
    by (simp add: collect_frame word_payload_def)
  finally show ?case
    using Cons.IH [of "q + 1" m] Cons.prems m by (auto simp: algebra_simps)
qed

subsection \<open>Handling the payloads of a read\<close>

text \<open>What the reader does with a list of payloads, and with the payloads of several reads.\<close>

fun payload_turns :: "loop_env \<Rightarrow> nat \<Rightarrow> bytes list \<Rightarrow> reader \<Rightarrow> reader" where
  "payload_turns L k [] s = s"
| "payload_turns L k (p # ps) s = payload_turns L (k + 1) ps (snd (payload_turn L (lv_frames L k) p s))"

definition switched :: "loop_env \<Rightarrow> reader \<Rightarrow> reader" where
  "switched L s = s\<lparr>rd_fairness := set_backpressure_enabled (lv_now L) (lv_backpressure L) (rd_fairness s)\<rparr>"

fun handle_reads :: "(loop_env \<times> bytes list) list \<Rightarrow> reader \<Rightarrow> reader" where
  "handle_reads [] s = s"
| "handle_reads ((L, ps) # rs) s = handle_reads rs (payload_turns L 0 ps (switched L s))"

lemma payload_turn_open:
  assumes "\<not> tx_closed (rd_tx s)"
  shows "\<not> fst (payload_turn L F p s)"
proof -
  have "fst (handle_ping F n s) \<noteq> Stopped" for n
    using assms by (auto simp: handle_ping_def tx_try_send_def Let_def)
  moreover have "fst (handle_data_direct L F c fl d s) \<noteq> Stopped" for c fl d
    by (auto simp: handle_data_direct_def Let_def split: prod.splits)
  ultimately have "fst (handle_payload L F p s) \<noteq> Stopped"
    by (simp add: handle_payload_def Let_def)
  then show ?thesis
    by (auto simp: payload_turn_def split: prod.splits frame_outcome.splits)
qed

lemma switched_open: "tx_closed (rd_tx (switched L s)) = tx_closed (rd_tx s)"
  by (simp add: switched_def)

lemma payload_turns_open: "tx_closed (rd_tx (payload_turns L k ps s)) = tx_closed (rd_tx s)"
  by (induction ps arbitrary: k s) (simp_all add: reader_moves_inv(4) [OF payload_turn_moves])

fun end_error :: "collect_end \<Rightarrow> proxy_error option" where
  "end_error (End_Failed e) = Some e"
| "end_error _ = None"

lemma read_frames_collect:
  assumes "collect E (in_crc_mode i) (in_expected_seq i) (in_dec i) = (ps, en, q, d)"
    and "\<not> tx_closed (rd_tx s)"
  shows "read_frames E L k i s = (end_error en, i\<lparr>in_expected_seq := q, in_dec := d\<rparr>, payload_turns L k ps s)"
  using assms
proof (induction E L k i s arbitrary: ps rule: read_frames.induct)
  case (1 E L k i s)
  note unf = read_frames.simps [of E L k i s] and cu = collect.simps [of E "in_crc_mode i" "in_expected_seq i" "in_dec i"]
  show ?case
  proof (cases "scan_frame (in_dec i)")
    case Scan_Wait
    then show ?thesis using "1.prems" by (auto simp: unf next_input_def collect_wait)
  next
    case Scan_Filler
    then have n: "next_input E i = In_More (i\<lparr>in_dec := drop 4 (in_dec i)\<rparr>)" by (simp add: next_input_def)
    from "1.IH"(1) [OF n] show ?thesis using "1.prems" Scan_Filler n by (simp add: unf collect_filler)
  next
    case Scan_Invalid
    then show ?thesis using "1.prems" by (auto simp: unf next_input_def cu)
  next
    case (Scan_Frame fl)
    show ?thesis
    proof (cases "check_frame E (in_crc_mode i) (in_expected_seq i) (take fl (in_dec i))")
      case (Inl e)
      then show ?thesis using "1.prems" Scan_Frame by (auto simp: unf next_input_def cu Let_def)
    next
      case (Inr p)
      let ?j = "i\<lparr>in_dec := drop fl (in_dec i), in_expected_seq := in_expected_seq i + 1\<rparr>"
      have n: "next_input E i = In_Payload p ?j" using Scan_Frame Inr by (simp add: next_input_def Let_def)
      obtain qs where qs: "collect E (in_crc_mode ?j) (in_expected_seq ?j) (in_dec ?j) = (qs, en, q, d)" "ps = p # qs"
        using "1.prems"(1) Scan_Frame Inr by (auto simp: collect_frame split: prod.splits)
      obtain s1 where s1: "payload_turn L (lv_frames L k) p s = (False, s1)"
        using payload_turn_open [OF "1.prems"(2), of L "lv_frames L k" p] by (metis (full_types) prod.collapse)
      have "\<not> tx_closed (rd_tx s1)"
        using reader_moves_inv(4) [OF payload_turn_moves, of L "lv_frames L k" p s] s1 "1.prems"(2) by simp
      from "1.IH"(2) [OF n s1 [symmetric] _ qs(1) this] show ?thesis
        using n s1 qs(2) by (simp add: unf)
    qed
  qed
qed

subsection \<open>Decryption of a stream that arrives in pieces\<close>

lemma slice_to_end: "n = length a \<Longrightarrow> slice a k n = drop k a"
  by (simp add: slice_def)

lemma decrypt_total:
  assumes "cbc_ok B c" and "16 dvd length a"
  obtains y where "cbc_decrypt_in_place B c a = Inr y"
proof -
  obtain bs where "a = concat bs" "blocks_ok bs" using assms(2) by (rule data_blocks)
  then show thesis using that assms(1) by (auto simp: cbc_decrypt_in_place_blocks)
qed

lemma absorb_read_stream:
  assumes "cbc_ok B (cbc_new (in_key i) (in_div i))" and "16 dvd length (in_raw i @ bs @ rest)"
    and "cbc_decrypt_in_place B (cbc_new (in_key i) (in_div i)) (in_raw i @ bs @ rest) = Inr x"
  obtains y z raw iv where
    "absorb_read B bs i = Inr (i\<lparr>in_raw := raw, in_div := iv, in_dec := in_dec i @ y\<rparr>)" and "x = y @ z"
    and "cbc_ok B (cbc_new (in_key i) iv)" and "16 dvd length (raw @ rest)"
    and "cbc_decrypt_in_place B (cbc_new (in_key i) iv) (raw @ rest) = Inr z" and "length raw < 16"
proof -
  let ?raw = "in_raw i @ bs"
  let ?n = "length ?raw div 16 * 16"
  have le: "?n \<le> length ?raw" by simp
  show thesis
  proof (cases "?n = 0")
    case True
    then have "absorb_read B bs i = Inr (i\<lparr>in_raw := ?raw, in_div := in_div i, in_dec := in_dec i @ []\<rparr>)"
      by (simp add: absorb_read_def Let_def)
    moreover have "length ?raw < 16" using True by simp
    ultimately show ?thesis using that [of "[]" "in_div i" ?raw x] assms by simp
  next
    case False
    let ?a = "take ?n ?raw" and ?raw' = "drop ?n ?raw"
    let ?iv = "drop (length ?a - 16) ?a"
    have la: "length ?a = ?n" using le by simp
    then have da: "16 dvd length ?a" by simp
    have split: "in_raw i @ bs @ rest = ?a @ (?raw' @ rest)"
      by (metis append.assoc append_take_drop_id)
    have db: "16 dvd length (?raw' @ rest)"
      using assms(2) da unfolding split by (metis dvd_add_right_iff length_append)
    have ne: "?a \<noteq> []" using False la by (metis list.size(3))
    have "16 \<le> ?n" using False by (metis dvd_imp_le dvd_triv_right gr0I)
    then have "length ?iv = 16" unfolding length_drop la by (rule diff_diff_cancel)
    then have ok: "cbc_ok B (cbc_new (in_key i) ?iv)"
      using assms(1) by (simp add: cbc_ok_def cbc_new_def del: length_drop length_take)
    obtain y where y: "cbc_decrypt_in_place B (cbc_new (in_key i) (in_div i)) ?a = Inr y"
      using assms(1) da by (rule decrypt_total)
    obtain z where z: "cbc_decrypt_in_place B (cbc_new (in_key i) ?iv) (?raw' @ rest) = Inr z"
      using ok db by (rule decrypt_total)
    have x: "x = y @ z"
      using cbc_decrypt_in_place_append [OF assms(1) da ne db y z] assms(3) unfolding split by simp
    have "slice ?a (?n - 16) ?n = ?iv" unfolding slice_to_end [OF la [symmetric]] la ..
    then have "absorb_read B bs i = Inr (i\<lparr>in_raw := ?raw', in_div := ?iv, in_dec := in_dec i @ y\<rparr>)"
      using False y by (simp add: absorb_read_def Let_def)
    moreover have "length ?raw' < 16"
      by (metis length_drop minus_div_mult_eq_mod mod_less_divisor zero_less_numeral)
    ultimately show ?thesis using x ok db z that by blast
  qed
qed

subsection \<open>The whole path\<close>

text \<open>
  A stream whose plaintext holds payloads only is taken to the end without an error, however it
  is cut into reads, and the payloads are handled in order.
\<close>

lemma reader_loop_stream:
  assumes "cbc_ok B (cbc_new (in_key i) (in_div i))"
    and "16 dvd length (in_raw i @ concat (map snd reads))"
    and "cbc_decrypt_in_place B (cbc_new (in_key i) (in_div i)) (in_raw i @ concat (map snd reads)) = Inr x"
    and "collect E (in_crc_mode i) (in_expected_seq i) (in_dec i @ x) = (ps, End_Wait, q, d)"
    and "scan_frame (in_dec i) = Scan_Wait"
    and "list_all (\<lambda>(L, bs). bs \<noteq> []) reads" and "\<not> tx_closed (rd_tx s)" and "length (in_raw i) < 16"
  shows "\<exists>pss i'. concat pss = ps \<and> length pss = length reads \<and>
    reader_loop E B (i, s) (map (\<lambda>(L, bs). (L, Rd_Read (Inr bs))) reads) =
      (None, i', handle_reads (zip (map fst reads) pss) s) \<and> in_expected_seq i' = q"
  using assms
proof (induction reads arbitrary: i s x ps)
  case Nil
  then have "16 dvd length (in_raw i)" by simp
  then have "in_raw i = []" using Nil.prems(8) by (metis dvd_imp_le leD length_greater_0_conv)
  then have "x = []" using Nil.prems(3) by (simp add: cbc_decrypt_in_place_nil)
  then show ?case using Nil.prems(4,5) by (simp add: collect_wait)
next
  case (Cons r reads)
  obtain L bs where r: "r = (L, bs)" by (cases r)
  let ?rest = "concat (map snd reads)"
  have p: "16 dvd length (in_raw i @ bs @ ?rest)"
    "cbc_decrypt_in_place B (cbc_new (in_key i) (in_div i)) (in_raw i @ bs @ ?rest) = Inr x"
    using Cons.prems(2,3) r by simp_all
  obtain y z raw iv where a: "absorb_read B bs i = Inr (i\<lparr>in_raw := raw, in_div := iv, in_dec := in_dec i @ y\<rparr>)"
    "x = y @ z" "cbc_ok B (cbc_new (in_key i) iv)" "16 dvd length (raw @ ?rest)"
    "cbc_decrypt_in_place B (cbc_new (in_key i) iv) (raw @ ?rest) = Inr z" "length raw < 16"
    by (rule absorb_read_stream [OF Cons.prems(1) p])
  let ?i1 = "i\<lparr>in_raw := raw, in_div := iv, in_dec := in_dec i @ y\<rparr>"
  obtain ps1 ps2 q1 d1 where c: "collect E (in_crc_mode i) (in_expected_seq i) (in_dec i @ y) = (ps1, End_Wait, q1, d1)"
    "scan_frame d1 = Scan_Wait" "collect E (in_crc_mode i) q1 (d1 @ z) = (ps2, End_Wait, q, d)" "ps = ps1 @ ps2"
    using collect_split [of E "in_crc_mode i" "in_expected_seq i" "in_dec i @ y" z ps q d] Cons.prems(4) a(2) by auto
  let ?i2 = "?i1\<lparr>in_expected_seq := q1, in_dec := d1\<rparr>" and ?s2 = "payload_turns L 0 ps1 (switched L s)"
  have "read_frames E L 0 ?i1 (switched L s) = (None, ?i2, ?s2)"
    using read_frames_collect [of E ?i1 ps1 End_Wait q1 d1 "switched L s" L 0] c(1) Cons.prems(7)
    by (simp add: switched_open)
  then have step: "reader_step E B L (Rd_Read (Inr bs)) (i, s) = (None, ?i2, ?s2)"
    using a(1) Cons.prems(6) r by (simp add: reader_step_def Let_def switched_def)
  have "list_all (\<lambda>(L, bs). bs \<noteq> []) reads" "\<not> tx_closed (rd_tx ?s2)"
    using Cons.prems(6,7) by (simp_all add: payload_turns_open switched_open)
  from Cons.IH [of ?i2 z ps2 ?s2] this obtain pss i' where "concat pss = ps2" "length pss = length reads"
    "reader_loop E B (?i2, ?s2) (map (\<lambda>(L, bs). (L, Rd_Read (Inr bs))) reads) =
      (None, i', handle_reads (zip (map fst reads) pss) ?s2)" "in_expected_seq i' = q"
    using a(3-6) c(2,3) by auto
  then show ?case using step r c(4) by (intro exI [of _ "ps1 # pss"] exI [of _ i']) simp
qed

end
