(* ===== verification/Reader_Properties.thy ===== *)
theory Reader_Properties
  imports Reader_Stream
begin

section \<open>Properties of the reader\<close>

text \<open>
  The reader of \<^verbatim>\<open>reader.rs\<close> against the writer of \<^verbatim>\<open>codec.rs\<close>, the registry and the fairness worker:
  what crosses a connection, what is refused, what stays bounded, and what a client receives.
\<close>

subsection \<open>Frames that pass the checks\<close>

text \<open>A stream of frames with consecutive numbers, each after some filler words.\<close>

fun spaced_frames :: "crc_env \<Rightarrow> rpc_checksum_mode \<Rightarrow> u32 \<Rightarrow> (nat \<times> bytes) list \<Rightarrow> bytes" where
  "spaced_frames E mode q [] = []"
| "spaced_frames E mode q ((n, p) # ps) =
     filler n @ build_rpc_frame_into E q p mode @ spaced_frames E mode (q + 1) ps"

lemma scan_filler_split:
  assumes "scan_frame dec = Scan_Filler"
  shows "dec = filler 1 @ drop 4 dec"
proof -
  have l: "12 \<le> length dec" and v: "unat (u32_at dec 0) = 4"
    using assms by (auto simp: scan_frame_def Let_def split: if_splits)
  have "word_of_nat (unat (u32_at dec 0)) = u32_at dec 0" by simp
  then have "u32_at dec 0 = 4" unfolding v by simp
  then have "u32_to_le_bytes 4 = take 4 dec" using u32_bytes_at [of 0 dec] l by (simp add: slice_def)
  then show ?thesis by (simp add: filler_Suc)
qed

lemma check_frame_built:
  assumes "12 \<le> length f" and "from_le (take 4 f) = length f" and "check_frame E mode q f = Inr p"
  shows "f = build_rpc_frame_into E q p mode"
proof -
  let ?n = "length f - 4"
  have "u32_at f 4 = q" "slice f 8 ?n = p" and c: "u32_at f ?n = rpc_crc E mode (take ?n f)"
    using assms(3) by (auto simp: check_frame_def Let_def split: if_splits)
  then have e: "f = frame_head q p @ u32_to_le_bytes (u32_at f ?n)"
    using frame_bytes_split [OF assms(1,2)] by simp
  have "length (frame_head q p) = ?n" using arg_cong [OF e, of length] by simp
  then have "take ?n f = frame_head q p" by (metis append_eq_conv_conj e)
  then show ?thesis using e c by (simp add: build_rpc_frame_split)
qed

lemma check_frame_split:
  assumes "scan_frame dec = Scan_Frame fl" and "check_frame E mode q (take fl dec) = Inr p"
  shows "dec = build_rpc_frame_into E q p mode @ drop fl dec"
proof -
  let ?f = "take fl dec"
  have l: "12 \<le> fl" "fl \<le> length dec" and v: "unat (u32_at dec 0) = fl"
    using assms(1) by (auto simp: scan_frame_def Let_def split: if_splits)
  have f: "length ?f = fl" using l by simp
  have "slice dec 0 4 = take 4 ?f" using l by (simp add: slice_def min_def)
  then have "from_le (take 4 ?f) = length ?f"
    using v f l arg_cong [OF u32_bytes_at [of 0 dec], of from_le] by simp
  then have "?f = build_rpc_frame_into E q p mode" using assms(2) l f by (intro check_frame_built) simp_all
  then show ?thesis by (metis append_take_drop_id)
qed

lemma filler_append: "filler m @ filler n = filler (m + n)"
  by (simp add: filler_def replicate_add)

text \<open>How a buffer is used up: checked frames, then what stopped the loop.\<close>

fun collect_stop :: "u32 \<Rightarrow> collect_end \<Rightarrow> bool" where
  "collect_stop q (End_Failed Proxy) = True"
| "collect_stop q (End_Failed (SeqNoMismatch e g)) = (e = q \<and> g \<noteq> q)"
| "collect_stop q (End_Failed _) = False"
| "collect_stop q _ = True"

lemma collect_sound:
  assumes "collect E mode q dec = (ps, en, q', d)"
  shows "\<exists>ns rest. length ns = length ps \<and> dec = spaced_frames E mode q (zip ns ps) @ rest \<and>
    q' = q + word_of_nat (length ps) \<and> collect_stop q' en \<and>
    12 * length ps + length d \<le> length dec \<and> (\<not> (\<exists>e. en = End_Failed e) \<longrightarrow> scan_frame d = Scan_Wait)"
  using assms
proof (induction E mode q dec arbitrary: ps rule: collect.induct)
  case (1 E mode q dec)
  show ?case
  proof (cases "scan_frame dec")
    case Scan_Wait
    then show ?thesis using "1.prems" by (auto simp: collect_wait)
  next
    case Scan_Filler
    then have c: "collect E mode q (drop 4 dec) = (ps, en, q', d)" using "1.prems" by (simp add: collect_filler)
    from "1.IH"(1) [OF Scan_Filler c] obtain ns rest where ih: "length ns = length ps"
      "drop 4 dec = spaced_frames E mode q (zip ns ps) @ rest" "q' = q + word_of_nat (length ps)" "collect_stop q' en"
      "12 * length ps + length d \<le> length (drop 4 dec)" "\<not> (\<exists>e. en = End_Failed e) \<longrightarrow> scan_frame d = Scan_Wait"
      by blast
    note dec = scan_filler_split [OF Scan_Filler]
    show ?thesis
    proof (cases ns)
      case Nil
      then show ?thesis using ih by (intro exI [of _ "[] :: nat list"] exI [of _ dec]) auto
    next
      case (Cons n ns')
      then obtain p ps' where ps: "ps = p # ps'" using ih(1) by (cases ps) auto
      have "dec = spaced_frames E mode q (zip (Suc n # ns') ps) @ rest"
        by (subst dec, subst ih(2)) (simp add: Cons ps filler_append [of 1 n, simplified, symmetric])
      then show ?thesis using ih(1,3-6) Cons by (intro exI [of _ "Suc n # ns'"] exI [of _ rest]) simp
    qed
  next
    case Scan_Invalid
    then have "collect E mode q dec = ([], End_Cleared, q, [])" by (subst collect.simps) simp
    then show ?thesis using "1.prems" by (auto simp: scan_frame_def)
  next
    case (Scan_Frame fl)
    show ?thesis
    proof (cases "check_frame E mode q (take fl dec)")
      case (Inl e)
      then have "collect E mode q dec = ([], End_Failed e, q, drop fl dec)"
        using Scan_Frame by (subst collect.simps) simp
      moreover have "collect_stop q (End_Failed e)"
        using Inl by (auto simp: check_frame_def Let_def split: if_splits)
      ultimately show ?thesis using "1.prems" by auto
    next
      case (Inr p)
      obtain qs where qs: "collect E mode (q + 1) (drop fl dec) = (qs, en, q', d)" "ps = p # qs"
        using "1.prems" Scan_Frame Inr by (auto simp: collect_frame split: prod.splits)
      from "1.IH"(2) [OF Scan_Frame Inr qs(1)] obtain ns rest where ih: "length ns = length qs"
        "drop fl dec = spaced_frames E mode (q + 1) (zip ns qs) @ rest" "q' = q + 1 + word_of_nat (length qs)"
        "collect_stop q' en" "12 * length qs + length d \<le> length (drop fl dec)"
        "\<not> (\<exists>e. en = End_Failed e) \<longrightarrow> scan_frame d = Scan_Wait" by blast
      have "dec = spaced_frames E mode q (zip (0 # ns) ps) @ rest"
        by (subst check_frame_split [OF Scan_Frame Inr], subst ih(2)) (simp add: qs(2))
      moreover have "12 * length ps + length d \<le> length dec"
        using ih(5) scan_frame_lengths(2) [OF Scan_Frame] qs(2) by (simp, linarith)
      ultimately show ?thesis
        using ih(1,3,4,6) qs(2) by (intro exI [of _ "0 # ns"] exI [of _ rest]) (simp add: algebra_simps)
    qed
  qed
qed

lemma wait_bound: "scan_frame d = Scan_Wait \<Longrightarrow> length d < MAX_RPC_FRAME"
  by (auto simp: scan_frame_def Let_def split: if_splits)

subsection \<open>What a routing call adds to a queue\<close>

definition client_queue :: "nat \<Rightarrow> conn_registry \<Rightarrow> me_response list" where
  "client_queue c r = (case map_of (rg_routing r) c of Some ch \<Rightarrow> rc_queue ch | None \<Rightarrow> [])"

text \<open>\<open>adds c rs r r'\<close>: the client of \<open>c\<close> may have taken responses, \<open>rs\<close> was appended, no other queue changed.\<close>

definition adds :: "nat \<Rightarrow> me_response list \<Rightarrow> conn_registry \<Rightarrow> conn_registry \<Rightarrow> bool" where
  "adds c rs r r' \<longleftrightarrow> (\<exists>k. client_queue c r' = drop k (client_queue c r) @ rs) \<and>
     (\<forall>c'. c' \<noteq> c \<longrightarrow> client_queue c' r' = client_queue c' r)"

lemma adds_refl [simp]: "adds c [] r r"
  by (auto simp: adds_def intro: exI [of _ 0])

lemma adds_trans: "adds c [] r s \<Longrightarrow> adds c rs s t \<Longrightarrow> adds c rs r t"
  by (auto simp: adds_def)

lemma client_queue_update:
  "client_queue c' (r\<lparr>rg_routing := AList.update c ch (rg_routing r)\<rparr>) = (if c' = c then rc_queue ch else client_queue c' r)"
  by (simp add: client_queue_def hm.lookup_insert)

lemma client_queue_budget [simp]: "client_queue c (r\<lparr>rg_byte_budget := b\<rparr>) = client_queue c r"
  by (simp add: client_queue_def)

lemma release_queue [simp]: "client_queue c' (release_permits c resp r) = client_queue c' r"
  by (simp add: release_permits_def split: me_response.splits option.splits)

lemma client_recv_queue: "adds c [] r (client_recv c r)"
proof (cases "map_of (rg_routing r) c")
  case (Some ch)
  then have "client_queue c r = rc_queue ch" by (simp add: client_queue_def)
  then show ?thesis using Some
    by (cases "rc_queue ch") (auto simp: client_recv_def adds_def client_queue_update intro: exI [of _ 1] exI [of _ 0])
qed (simp add: client_recv_def)

lemma client_acts_queue: "adds c [] r (client_acts c act r)"
proof -
  have a: "adds c [] r ((client_recv c ^^ n) r)" for n
  proof (induction n)
    case (Suc n)
    then show ?case using adds_trans [OF Suc client_recv_queue] by simp
  qed simp
  have "adds c [] s (client_close c s)" for s
  proof (cases "map_of (rg_routing s) c")
    case (Some ch)
    then have "client_queue c s = rc_queue ch" by (simp add: client_queue_def)
    then show ?thesis using Some by (auto simp: client_close_def adds_def client_queue_update intro: exI [of _ 0])
  qed (simp add: client_close_def)
  from adds_trans [OF a this] show ?thesis using a [of "ca_recv act"] by (simp add: client_acts_def Let_def)
qed

lemma try_send_queue:
  assumes "try_send c resp r = (out, r')"
  shows "adds c (if out = SendOk then [resp] else []) r r'"
proof (cases "map_of (rg_routing r) c")
  case (Some ch)
  then have "client_queue c r = rc_queue ch" by (simp add: client_queue_def)
  moreover have "adds c [resp] r (r\<lparr>rg_routing := AList.update c (ch\<lparr>rc_queue := rc_queue ch @ [resp]\<rparr>) (rg_routing r)\<rparr>)"
    unfolding adds_def client_queue_update calculation by (auto intro: exI [of _ 0])
  ultimately show ?thesis using Some assms by (auto simp: try_send_def split: if_splits)
qed (use assms in \<open>auto simp: try_send_def\<close>)

lemma adds_release [simp]: "adds c rs r (release_permits c' resp s) \<longleftrightarrow> adds c rs r s"
  by (simp add: adds_def)

lemma send_or_wait_queue:
  "send_or_wait c resp b d r = (res, r') \<Longrightarrow> adds c (if res = Rt_Routed then [resp] else []) r r'"
proof -
  assume s: "send_or_wait c resp b d r = (res, r')"
  obtain o1 r1 where t1: "try_send c resp r = (o1, r1)" by fastforce
  note q1 = try_send_queue [OF t1]
  show ?thesis
  proof (cases o1)
    case SendFull
    let ?r3 = "client_acts c d (client_acts c b r1)"
    obtain o2 r4 where t2: "try_send c resp ?r3 = (o2, r4)" by fastforce
    have "adds c [] r r1" using q1 SendFull by simp
    from adds_trans [OF adds_trans [OF adds_trans [OF this client_acts_queue] client_acts_queue] try_send_queue [OF t2]]
    have q2: "adds c (if o2 = SendOk then [resp] else []) r r4" .
    then show ?thesis using s t1 t2 SendFull
      by (cases o2) (auto simp: send_or_wait_def Let_def split: if_splits)
  qed (use s t1 q1 in \<open>auto simp: send_or_wait_def\<close>)
qed

text \<open>The data response as it stands in a queue, with its permits.\<close>

abbreviation data_response :: "u32 \<Rightarrow> bytes \<Rightarrow> me_response" where
  "data_response flags data \<equiv> MR_Data flags data (Some (route_data_permits (length data)))"

lemma attach_queue:
  assumes "attach_route_byte_permit c (MR_Data flags data None) t act r = (res, r')"
  shows "adds c [] r r' \<and> (\<forall>resp. res = Inr resp \<longrightarrow> resp = data_response flags data) \<and> res \<noteq> Inl Rt_Routed"
proof -
  have "adds c [] r (if t = 0 then r else client_acts c act r)" using client_acts_queue by simp
  moreover have "adds c rs r (s\<lparr>rg_byte_budget := b\<rparr>) \<longleftrightarrow> adds c rs r s" for rs s b by (simp add: adds_def)
  ultimately show ?thesis using assms
    by (auto simp: attach_route_byte_permit_def Let_def split: option.splits if_splits)
qed

lemma route_timeout_queue:
  assumes "route_with_timeout c (MR_Data flags data None) t acts r = (res, r')"
  shows "adds c (if res = Rt_Routed then [data_response flags data] else []) r r'"
proof -
  obtain a r1 where a: "attach_route_byte_permit c (MR_Data flags data None) t (ra_acquire acts) r = (a, r1)" by fastforce
  obtain a0 r0 where a0: "attach_route_byte_permit c (MR_Data flags data None) 0 \<lparr>ca_recv = 0, ca_closes = False\<rparr> r = (a0, r0)"
    by fastforce
  note q = attach_queue [OF a] and q0 = attach_queue [OF a0]
  show ?thesis
  proof (cases "map_of (rg_routing r) c = None")
    case True
    then have "r' = r" "res = Rt_NoConn"
      using assms by (cases "t = 0"; simp add: route_with_timeout_def route_nowait_def)+
    then show ?thesis by simp
  next
    case present: False
    show ?thesis
    proof (cases "t = 0")
      case True
      show ?thesis
      proof (cases a0)
        case (Inr resp)
        obtain o1 r2 where t1: "try_send c resp r0 = (o1, r2)" by fastforce
        have "adds c (if o1 = SendOk then [resp] else []) r r2"
          using q0 by (intro adds_trans [OF _ try_send_queue [OF t1]]) simp
        then show ?thesis using assms a0 Inr present True q0 t1
          by (cases o1) (auto simp: route_with_timeout_def route_nowait_def)
      qed (use assms a0 present True q0 in \<open>auto simp: route_with_timeout_def route_nowait_def\<close>)
    next
      case False
      show ?thesis
      proof (cases a)
        case (Inr resp)
        then have "send_or_wait c resp (ra_between acts) (ra_during acts) r1 = (res, r')"
          using assms a present False by (simp add: route_with_timeout_def)
        from adds_trans [OF _ send_or_wait_queue [OF this]] show ?thesis using q Inr by auto
      qed (use assms a present False q in \<open>auto simp: route_with_timeout_def\<close>)
    qed
  qed
qed

lemma route_attempts_queue:
  "route_attempts n c flags data t acts k r = (res, r') \<Longrightarrow>
    adds c (if res = Rt_Routed then [data_response flags data] else []) r r'"
proof (induction n arbitrary: k r)
  case 0
  then show ?case using route_timeout_queue by simp
next
  case (Suc n)
  obtain res1 r1 where e: "route_with_timeout c (MR_Data flags data None) t (acts k) r = (res1, r1)" by fastforce
  note q = route_timeout_queue [OF e]
  show ?case
  proof (cases "is_data_route_queue_full res1")
    case True
    then have "res1 \<noteq> Rt_Routed" by (auto simp: is_data_route_queue_full_def)
    moreover have "route_attempts n c flags data t acts (k + 1) r1 = (res, r')" using Suc.prems e True by simp
    ultimately show ?thesis using adds_trans [OF _ Suc.IH] q by auto
  next
    case False
    then show ?thesis using Suc.prems e q by simp
  qed
qed

subsection \<open>Properties\<close>

definition demo_acts :: route_acts where
  "demo_acts = \<lparr>ra_acquire = \<lparr>ca_recv = 1, ca_closes = False\<rparr>, ra_between = \<lparr>ca_recv = 0, ca_closes = False\<rparr>,
     ra_during = \<lparr>ca_recv = 0, ca_closes = False\<rparr>\<rparr>"

definition demo_drain :: drain_env where
  "demo_drain = \<lparr>de_now = 5, de_acts = (\<lambda>_. demo_acts), de_epoch = 100, de_taken = 0\<rparr>"

definition demo_loop :: loop_env where
  "demo_loop = \<lparr>lv_now = 5, lv_backpressure = True, lv_fairshare = True, lv_retry_wait_ms = 2,
     lv_retry_drain = (\<lambda>_. demo_drain),
     lv_frames = (\<lambda>_. \<lparr>fv_now = 5, fv_wait_ms = 2, fv_acts = (\<lambda>_. demo_acts), fv_epoch = 100, fv_taken = 0,
       fv_drain_wait_ms = 2, fv_drain = (\<lambda>_. demo_drain)\<rparr>)\<rparr>"

definition demo_tx :: command_channel where
  "demo_tx = \<lparr>tx_queue = [], tx_capacity = 4, tx_closed = False\<rparr>"

definition demo_reader :: reader where
  "demo_reader = reader_new 5 True 0 demo_start demo_tx []"

definition demo_input :: rpc_input where
  "demo_input = input_new (replicate 32 5) (replicate 16 1) Crc32 [] []"

definition demo_crc :: crc_env where
  "demo_crc = \<lparr>crc32_fn = \<lambda>d. word_of_nat (length d), crc32c_fn = \<lambda>d. 0\<rparr>"









text \<open>
  C25. A data frame reaches its client at most once: over all attempts of one routing call, the
  response is appended to the queue of its connection exactly when the call reports that it
  was routed, and to no other queue; otherwise the client can only have taken responses.
\<close>

theorem route_retry_once:
  assumes "route_data_with_retry c flags data timeout_ms acts r = (res, r')"
  shows "(\<exists>k. client_queue c r' = drop k (client_queue c r) @
      (if res = Rt_Routed then [MR_Data flags data (Some (route_data_permits (length data)))] else [])) \<and>
    (\<forall>c'. c' \<noteq> c \<longrightarrow> client_queue c' r' = client_queue c' r)"
  using route_attempts_queue [of "DATA_ROUTE_MAX_ATTEMPTS - 1" c flags data timeout_ms acts 0 r res r'] assms
  by (simp add: route_data_with_retry_def adds_def)

theorem route_retry_once_witness:
  "(\<exists>k. client_queue 7 (snd (route_data_with_retry 7 0 [1, 2] 0 (\<lambda>_. demo_acts) demo_start)) =
      drop k (client_queue 7 demo_start) @ [MR_Data 0 [1, 2] (Some (route_data_permits 2))]) \<and>
    client_queue 8 (snd (route_data_with_retry 7 0 [1, 2] 0 (\<lambda>_. demo_acts) demo_start)) = client_queue 8 demo_start"
proof -
  have "fst (route_data_with_retry 7 0 [1, 2] 0 (\<lambda>_. demo_acts) demo_start) = Rt_Routed"
    by (simp add: route_data_with_retry_def numeral_2_eq_2 route_with_timeout_def route_nowait_def
        is_data_route_queue_full_def attach_route_byte_permit_def try_send_def Let_def demo_start_state
        route_data_permits_def)
  then have "route_data_with_retry 7 0 [1, 2] 0 (\<lambda>_. demo_acts) demo_start =
      (Rt_Routed, snd (route_data_with_retry 7 0 [1, 2] 0 (\<lambda>_. demo_acts) demo_start))"
    by (metis prod.collapse)
  from route_retry_once [OF this] show ?thesis by (simp add: numeral_2_eq_2)
qed

end
