(* ===== verification/Replay_Cache.thy ===== *)
theory Replay_Cache
  imports Telemt_Prelude
begin

section \<open>The replay checker\<close>

text \<open>
  \<^verbatim>\<open>src/src/stats/replay.rs\<close>: the sharded store of recently seen handshakes. A shard pairs a cache
  of the \<^verbatim>\<open>lru\<close> crate with a queue in the order of insertion. The cache is a parameter, a record of the
  operations the source calls; \<open>lru_laws\<close> states what the documentation of the crate says of
  them. The hash function that picks a shard, which the standard library leaves unspecified,
  is a parameter too, and the clock is an input.
\<close>

abbreviation (input) "REPLAY_INLINE_KEY_CAP \<equiv> (48 :: nat)"

subsection \<open>Keys\<close>

datatype replay_key = Inline nat bytes | Heap bytes

definition key_from_slice :: "bytes \<Rightarrow> replay_key" where
  "key_from_slice key =
     (if length key \<le> REPLAY_INLINE_KEY_CAP
      then Inline (length key mod 256) (splice (replicate REPLAY_INLINE_KEY_CAP 0) 0 key)
      else Heap key)"

fun key_as_slice :: "replay_key \<Rightarrow> bytes" where
  "key_as_slice (Inline len bs) = take len bs"
| "key_as_slice (Heap bs) = bs"

subsection \<open>The cache\<close>

text \<open>A key of the cache borrows as its byte string, and an entry holds a sequence number.\<close>

record 'c lru_ops =
  lru_new :: "nat \<Rightarrow> 'c"
  lru_peek :: "'c \<Rightarrow> bytes \<Rightarrow> nat option"
  lru_get :: "bytes \<Rightarrow> 'c \<Rightarrow> nat option \<times> 'c"
  lru_put :: "bytes \<Rightarrow> nat \<Rightarrow> 'c \<Rightarrow> 'c"
  lru_pop :: "bytes \<Rightarrow> 'c \<Rightarrow> 'c"
  lru_clear :: "'c \<Rightarrow> 'c"
  lru_len :: "'c \<Rightarrow> nat"

text \<open>
  \<open>ok cap c\<close>: the cache \<open>c\<close> was made with capacity \<open>cap\<close>. A lookup does not change what the cache
  holds, an insertion below the capacity evicts nothing, and the length counts the keys.
\<close>

definition lru_laws :: "'c lru_ops \<Rightarrow> (nat \<Rightarrow> 'c \<Rightarrow> bool) \<Rightarrow> bool" where
  "lru_laws C ok \<longleftrightarrow>
     (\<forall>cap. 0 < cap \<longrightarrow> ok cap (lru_new C cap) \<and> lru_peek C (lru_new C cap) = Map.empty) \<and>
     (\<forall>cap c. ok cap c \<longrightarrow> finite (dom (lru_peek C c)) \<and> lru_len C c = card (dom (lru_peek C c))) \<and>
     (\<forall>cap c k. ok cap c \<longrightarrow> fst (lru_get C k c) = lru_peek C c k \<and> ok cap (snd (lru_get C k c)) \<and>
        lru_peek C (snd (lru_get C k c)) = lru_peek C c) \<and>
     (\<forall>cap c k v. ok cap c \<longrightarrow> lru_len C c < cap \<longrightarrow>
        ok cap (lru_put C k v c) \<and> lru_peek C (lru_put C k v c) = (lru_peek C c)(k \<mapsto> v)) \<and>
     (\<forall>cap c k. ok cap c \<longrightarrow> ok cap (lru_pop C k c) \<and> lru_peek C (lru_pop C k c) = (lru_peek C c)(k := None)) \<and>
     (\<forall>cap c. ok cap c \<longrightarrow> ok cap (lru_clear C c) \<and> lru_peek C (lru_clear C c) = Map.empty)"

subsection \<open>A shard\<close>

record 'c replay_shard =
  sh_cache :: 'c
  sh_queue :: "(nat \<times> replay_key \<times> nat) list"
  sh_seq_counter :: nat
  sh_capacity :: nat

definition shard_new :: "'c lru_ops \<Rightarrow> nat \<Rightarrow> 'c replay_shard" where
  "shard_new C cap = \<lparr>sh_cache = lru_new C cap, sh_queue = [], sh_seq_counter = 0, sh_capacity = cap\<rparr>"

definition next_seq :: "'c replay_shard \<Rightarrow> nat \<times> 'c replay_shard" where
  "next_seq s =
     (let n = (sh_seq_counter s + 1) mod (U64_MAX + 1) in (n, s\<lparr>sh_seq_counter := n\<rparr>))"

definition evict_queue_front :: "'c lru_ops \<Rightarrow> 'c replay_shard \<Rightarrow> 'c replay_shard" where
  "evict_queue_front C s =
     (case sh_queue s of
        [] \<Rightarrow> s
      | (_, key, queue_seq) # rest \<Rightarrow>
          let s1 = s\<lparr>sh_queue := rest\<rparr>
          in if lru_peek C (sh_cache s1) (key_as_slice key) = Some queue_seq
             then s1\<lparr>sh_cache := lru_pop C (key_as_slice key) (sh_cache s1)\<rparr> else s1)"

lemma evict_queue: "sh_queue (evict_queue_front C s) = drop 1 (sh_queue s)"
  by (simp add: evict_queue_front_def Let_def split: list.split)

text \<open>The loop of \<open>cleanup\<close>.\<close>

function expire :: "'c lru_ops \<Rightarrow> nat \<Rightarrow> 'c replay_shard \<Rightarrow> 'c replay_shard" where
  "expire C cutoff s =
     (case sh_queue s of
        [] \<Rightarrow> s
      | (ts, _, _) # _ \<Rightarrow> if ts \<ge> cutoff then s else expire C cutoff (evict_queue_front C s))"
  by pat_completeness auto
termination
  by (relation "measure (\<lambda>(C, cutoff, s). length (sh_queue s))") (auto simp: evict_queue)

declare expire.simps [simp del]

text \<open>\<open>checked_sub\<close> on instants fails below the origin of the clock.\<close>

definition checked_sub :: "nat \<Rightarrow> nat \<Rightarrow> nat option" where
  "checked_sub a b = (if b \<le> a then Some (a - b) else None)"

definition cutoff_at :: "nat \<Rightarrow> nat \<Rightarrow> nat" where
  "cutoff_at now window = (case checked_sub now window of Some t \<Rightarrow> t | None \<Rightarrow> now)"

definition cleanup :: "'c lru_ops \<Rightarrow> nat \<Rightarrow> nat \<Rightarrow> 'c replay_shard \<Rightarrow> 'c replay_shard" where
  "cleanup C now window s =
     (if window = 0 then s\<lparr>sh_cache := lru_clear C (sh_cache s), sh_queue := []\<rparr>
      else expire C (cutoff_at now window) s)"

definition shard_check :: "'c lru_ops \<Rightarrow> bytes \<Rightarrow> nat \<Rightarrow> nat \<Rightarrow> 'c replay_shard \<Rightarrow> bool \<times> 'c replay_shard" where
  "shard_check C key now window s =
     (if window = 0 then (False, s)
      else let s1 = cleanup C now window s;
               (r, c1) = lru_get C key (sh_cache s1)
           in (r \<noteq> None, s1\<lparr>sh_cache := c1\<rparr>))"

text \<open>
  The loop that makes room. The capacity is a non-zero number, so that a queue of at least
  that length has a front to evict.
\<close>

function make_room :: "'c lru_ops \<Rightarrow> 'c replay_shard \<Rightarrow> 'c replay_shard" where
  "make_room C s =
     (if sh_queue s \<noteq> [] \<and> length (sh_queue s) \<ge> sh_capacity s then make_room C (evict_queue_front C s) else s)"
  by pat_completeness auto
termination
  by (relation "measure (\<lambda>(C, s). length (sh_queue s))") (auto simp: evict_queue)

declare make_room.simps [simp del]

definition add_owned :: "'c lru_ops \<Rightarrow> replay_key \<Rightarrow> nat \<Rightarrow> nat \<Rightarrow> 'c replay_shard \<Rightarrow> 'c replay_shard" where
  "add_owned C key now window s =
     (if window = 0 then s
      else let s1 = cleanup C now window s
           in if lru_peek C (sh_cache s1) (key_as_slice key) \<noteq> None then s1
              else let s2 = make_room C s1;
                       (q, s3) = next_seq s2;
                       s4 = s3\<lparr>sh_cache := lru_put C (key_as_slice key) q (sh_cache s3)\<rparr>
                   in s4\<lparr>sh_queue := sh_queue s4 @ [(now, key, q)]\<rparr>)"

definition shard_len :: "'c lru_ops \<Rightarrow> 'c replay_shard \<Rightarrow> nat" where
  "shard_len C s = lru_len C (sh_cache s)"

subsection \<open>The checker\<close>

record 'c replay_checker =
  rp_handshake_shards :: "'c replay_shard list"
  rp_tls_shards :: "'c replay_shard list"
  rp_shard_mask :: nat
  rp_window :: nat
  rp_tls_window :: nat
  rp_checks :: nat
  rp_hits :: nat
  rp_additions :: nat
  rp_cleanups :: nat

abbreviation (input) "MIN_TLS_REPLAY_WINDOW \<equiv> (120 * 1000000000 :: nat)"

definition checker_new :: "'c lru_ops \<Rightarrow> nat \<Rightarrow> nat \<Rightarrow> 'c replay_checker" where
  "checker_new C total_capacity window =
     (let num_shards = 64;
          shard_capacity = max (total_capacity div num_shards) 1
      in \<lparr>rp_handshake_shards = replicate num_shards (shard_new C shard_capacity),
          rp_tls_shards = replicate num_shards (shard_new C shard_capacity),
          rp_shard_mask = num_shards - 1, rp_window = window,
          rp_tls_window = max window MIN_TLS_REPLAY_WINDOW,
          rp_checks = 0, rp_hits = 0, rp_additions = 0, rp_cleanups = 0\<rparr>)"

definition bump :: "nat \<Rightarrow> nat" where
  "bump n = (n + 1) mod (U64_MAX + 1)"

definition get_shard_idx :: "(bytes \<Rightarrow> nat) \<Rightarrow> bytes \<Rightarrow> 'c replay_checker \<Rightarrow> nat" where
  "get_shard_idx hash key r = hash key AND rp_shard_mask r"

text \<open>
  The three internal operations work on one of the two lists of shards, which the first
  argument reads and the second writes back.
\<close>

type_synonym 'c shards_of = "'c replay_checker \<Rightarrow> 'c replay_shard list"
type_synonym 'c set_shards = "'c replay_shard list \<Rightarrow> 'c replay_checker \<Rightarrow> 'c replay_checker"

definition check_and_add_internal ::
  "'c shards_of \<Rightarrow> 'c set_shards \<Rightarrow> 'c lru_ops \<Rightarrow> (bytes \<Rightarrow> nat) \<Rightarrow> nat \<Rightarrow> bytes \<Rightarrow> nat \<Rightarrow> 'c replay_checker \<Rightarrow>
     bool \<times> 'c replay_checker" where
  "check_and_add_internal shards set_shards C hash now data window r =
     (let r1 = r\<lparr>rp_checks := bump (rp_checks r)\<rparr>;
          idx = get_shard_idx hash data r1;
          owned_key = key_from_slice data;
          shard = shards r1 ! idx;
          (found, shard1) = shard_check C data now window shard
      in if found then (True, set_shards ((shards r1)[idx := shard1]) (r1\<lparr>rp_hits := bump (rp_hits r1)\<rparr>))
         else (False, set_shards ((shards r1)[idx := add_owned C owned_key now window shard1])
                        (r1\<lparr>rp_additions := bump (rp_additions r1)\<rparr>)))"

definition check_only_internal ::
  "'c shards_of \<Rightarrow> 'c set_shards \<Rightarrow> 'c lru_ops \<Rightarrow> (bytes \<Rightarrow> nat) \<Rightarrow> nat \<Rightarrow> bytes \<Rightarrow> nat \<Rightarrow> 'c replay_checker \<Rightarrow>
     bool \<times> 'c replay_checker" where
  "check_only_internal shards set_shards C hash now data window r =
     (let r1 = r\<lparr>rp_checks := bump (rp_checks r)\<rparr>;
          idx = get_shard_idx hash data r1;
          (found, shard1) = shard_check C data now window (shards r1 ! idx);
          r2 = set_shards ((shards r1)[idx := shard1]) r1
      in (found, if found then r2\<lparr>rp_hits := bump (rp_hits r2)\<rparr> else r2))"

definition add_only ::
  "'c shards_of \<Rightarrow> 'c set_shards \<Rightarrow> 'c lru_ops \<Rightarrow> (bytes \<Rightarrow> nat) \<Rightarrow> nat \<Rightarrow> bytes \<Rightarrow> nat \<Rightarrow> 'c replay_checker \<Rightarrow>
     'c replay_checker" where
  "add_only shards set_shards C hash now data window r =
     (let r1 = r\<lparr>rp_additions := bump (rp_additions r)\<rparr>;
          idx = get_shard_idx hash data r1;
          owned_key = key_from_slice data
      in set_shards ((shards r1)[idx := add_owned C owned_key now window (shards r1 ! idx)]) r1)"

definition set_handshake_shards :: "'c set_shards" where
  "set_handshake_shards ss r = r\<lparr>rp_handshake_shards := ss\<rparr>"

definition set_tls_shards :: "'c set_shards" where
  "set_tls_shards ss r = r\<lparr>rp_tls_shards := ss\<rparr>"

definition check_and_add_handshake ::
  "'c lru_ops \<Rightarrow> (bytes \<Rightarrow> nat) \<Rightarrow> nat \<Rightarrow> bytes \<Rightarrow> 'c replay_checker \<Rightarrow> bool \<times> 'c replay_checker" where
  "check_and_add_handshake C hash now data r =
     check_and_add_internal rp_handshake_shards set_handshake_shards C hash now data (rp_window r) r"

definition check_and_add_tls_digest ::
  "'c lru_ops \<Rightarrow> (bytes \<Rightarrow> nat) \<Rightarrow> nat \<Rightarrow> bytes \<Rightarrow> 'c replay_checker \<Rightarrow> bool \<times> 'c replay_checker" where
  "check_and_add_tls_digest C hash now data r =
     check_and_add_internal rp_tls_shards set_tls_shards C hash now data (rp_tls_window r) r"

definition check_handshake ::
  "'c lru_ops \<Rightarrow> (bytes \<Rightarrow> nat) \<Rightarrow> nat \<Rightarrow> bytes \<Rightarrow> 'c replay_checker \<Rightarrow> bool \<times> 'c replay_checker" where
  "check_handshake C hash now data r = check_and_add_handshake C hash now data r"

definition add_handshake ::
  "'c lru_ops \<Rightarrow> (bytes \<Rightarrow> nat) \<Rightarrow> nat \<Rightarrow> bytes \<Rightarrow> 'c replay_checker \<Rightarrow> 'c replay_checker" where
  "add_handshake C hash now data r =
     add_only rp_handshake_shards set_handshake_shards C hash now data (rp_window r) r"

definition check_tls_digest ::
  "'c lru_ops \<Rightarrow> (bytes \<Rightarrow> nat) \<Rightarrow> nat \<Rightarrow> bytes \<Rightarrow> 'c replay_checker \<Rightarrow> bool \<times> 'c replay_checker" where
  "check_tls_digest C hash now data r =
     check_only_internal rp_tls_shards set_tls_shards C hash now data (rp_tls_window r) r"

definition add_tls_digest ::
  "'c lru_ops \<Rightarrow> (bytes \<Rightarrow> nat) \<Rightarrow> nat \<Rightarrow> bytes \<Rightarrow> 'c replay_checker \<Rightarrow> 'c replay_checker" where
  "add_tls_digest C hash now data r =
     add_only rp_tls_shards set_tls_shards C hash now data (rp_tls_window r) r"

record replay_stats =
  rs_total_entries :: nat
  rs_total_queue_len :: nat
  rs_total_checks :: nat
  rs_total_hits :: nat
  rs_total_additions :: nat
  rs_total_cleanups :: nat
  rs_num_shards :: nat
  rs_window_secs :: nat

definition checker_stats :: "'c lru_ops \<Rightarrow> 'c replay_checker \<Rightarrow> replay_stats" where
  "checker_stats C r =
     (let shards = rp_handshake_shards r @ rp_tls_shards r
      in \<lparr>rs_total_entries = sum_list (map (\<lambda>s. lru_len C (sh_cache s)) shards),
          rs_total_queue_len = sum_list (map (\<lambda>s. length (sh_queue s)) shards),
          rs_total_checks = rp_checks r, rs_total_hits = rp_hits r, rs_total_additions = rp_additions r,
          rs_total_cleanups = rp_cleanups r,
          rs_num_shards = length (rp_handshake_shards r) + length (rp_tls_shards r),
          rs_window_secs = rp_window r div 1000000000\<rparr>)"

definition cleanup_interval_secs :: "'c replay_checker \<Rightarrow> nat" where
  "cleanup_interval_secs r =
     (let secs = rp_window r div 1000000000
      in if secs > 60 then 30 else max (max secs 1 div 2) 1)"

text \<open>One round of the periodic cleanup, and how many entries it removed.\<close>

definition cleanup_shards ::
  "'c lru_ops \<Rightarrow> nat \<Rightarrow> nat \<Rightarrow> 'c replay_shard list \<Rightarrow> nat \<times> 'c replay_shard list" where
  "cleanup_shards C now window shards =
     (sum_list (map (\<lambda>s. shard_len C s - shard_len C (cleanup C now window s)) shards),
      map (cleanup C now window) shards)"

definition periodic_cleanup :: "'c lru_ops \<Rightarrow> nat \<Rightarrow> 'c replay_checker \<Rightarrow> nat \<times> 'c replay_checker" where
  "periodic_cleanup C now r =
     (let (n1, hs) = cleanup_shards C now (rp_window r) (rp_handshake_shards r);
          (n2, ts) = cleanup_shards C now (rp_tls_window r) (rp_tls_shards r)
      in (n1 + n2, r\<lparr>rp_handshake_shards := hs, rp_tls_shards := ts, rp_cleanups := bump (rp_cleanups r)\<rparr>))"

subsection \<open>The window a shard implements\<close>

text \<open>A shard seen from outside: the keys it remembers with their times, oldest first.\<close>

type_synonym window = "(nat \<times> bytes) list"

definition view :: "'c replay_shard \<Rightarrow> window" where
  "view s = map (\<lambda>(t, k, q). (t, key_as_slice k)) (sh_queue s)"

definition win_expire :: "nat \<Rightarrow> window \<Rightarrow> window" where
  "win_expire cutoff q = dropWhile (\<lambda>(t, k). t < cutoff) q"

definition win_check_and_add :: "nat \<Rightarrow> nat \<Rightarrow> nat \<Rightarrow> bytes \<Rightarrow> window \<Rightarrow> bool \<times> window" where
  "win_check_and_add cap now w k q =
     (if w = 0 then (False, q)
      else let q1 = win_expire (cutoff_at now w) q
           in if k \<in> snd ` set q1 then (True, q1)
              else (False, drop (length q1 - (cap - 1)) q1 @ [(now, k)]))"

definition seqs :: "'c replay_shard \<Rightarrow> (bytes \<times> nat) list" where
  "seqs s = map (\<lambda>(t, k, q). (key_as_slice k, q)) (sh_queue s)"

text \<open>
  The cache holds exactly the keys of the queue, with their numbers; it never has to evict
  by itself.
\<close>

definition shard_ok :: "'c lru_ops \<Rightarrow> (nat \<Rightarrow> 'c \<Rightarrow> bool) \<Rightarrow> nat \<Rightarrow> 'c replay_shard \<Rightarrow> bool" where
  "shard_ok C ok cap s \<longleftrightarrow> 0 < cap \<and> sh_capacity s = cap \<and> ok cap (sh_cache s) \<and> length (sh_queue s) \<le> cap \<and>
     distinct (map snd (view s)) \<and> lru_peek C (sh_cache s) = map_of (seqs s)"

lemma key_round_trip [simp]: "key_as_slice (key_from_slice k) = k"
  by (simp add: key_from_slice_def splice_def)

lemma seqs_keys: "map fst (seqs s) = map snd (view s)"
  by (auto simp: seqs_def view_def)

lemma view_simps [simp]:
  "view (s\<lparr>sh_cache := c\<rparr>) = view s" "view (s\<lparr>sh_seq_counter := n\<rparr>) = view s"
  "length (view s) = length (sh_queue s)"
  by (simp_all add: view_def)

lemma shard_ok_peek:
  assumes "shard_ok C ok cap s"
  shows "lru_peek C (sh_cache s) k \<noteq> None \<longleftrightarrow> k \<in> snd ` set (view s)"
proof -
  have "fst ` set (seqs s) = snd ` set (view s)" using seqs_keys [of s] by (metis list.set_map)
  then show ?thesis using assms by (simp add: shard_ok_def map_of_eq_None_iff)
qed

lemma shard_ok_len:
  assumes "lru_laws C ok" and "shard_ok C ok cap s"
  shows "lru_len C (sh_cache s) = length (sh_queue s)"
proof -
  have "lru_len C (sh_cache s) = card (dom (lru_peek C (sh_cache s)))"
    using assms by (auto simp: lru_laws_def shard_ok_def)
  also have "dom (lru_peek C (sh_cache s)) = set (map snd (view s))"
    using shard_ok_peek [OF assms(2)] by auto
  also have "card \<dots> = length (sh_queue s)"
    using assms(2) distinct_card [of "map snd (view s)"] by (simp add: shard_ok_def)
  finally show ?thesis .
qed

lemma shard_new_ok: "lru_laws C ok \<Longrightarrow> 0 < cap \<Longrightarrow> shard_ok C ok cap (shard_new C cap)"
  by (simp add: lru_laws_def shard_ok_def shard_new_def view_def seqs_def)

lemma evict_ok:
  assumes "lru_laws C ok" and "shard_ok C ok cap s"
  shows "shard_ok C ok cap (evict_queue_front C s)" and "view (evict_queue_front C s) = drop 1 (view s)"
proof -
  show v: "view (evict_queue_front C s) = drop 1 (view s)" by (simp add: view_def evict_queue drop_map)
  show "shard_ok C ok cap (evict_queue_front C s)"
  proof (cases "sh_queue s")
    case Nil
    then show ?thesis using assms(2) by (simp add: evict_queue_front_def)
  next
    case (Cons e rest)
    obtain t k q where e: "e = (t, k, q)" by (cases e)
    have sq: "seqs s = (key_as_slice k, q) # seqs (s\<lparr>sh_queue := rest\<rparr>)" using Cons e by (simp add: seqs_def)
    have d: "distinct (map fst (seqs s))" using assms(2) by (simp add: shard_ok_def seqs_keys)
    have p: "lru_peek C (sh_cache s) = map_of (seqs s)" using assms(2) by (simp add: shard_ok_def)
    then have "lru_peek C (sh_cache s) (key_as_slice k) = Some q" using sq by simp
    then have ev: "evict_queue_front C s = s\<lparr>sh_queue := rest, sh_cache := lru_pop C (key_as_slice k) (sh_cache s)\<rparr>"
      using Cons e by (simp add: evict_queue_front_def)
    have "lru_peek C (lru_pop C (key_as_slice k) (sh_cache s)) = (map_of (seqs s))(key_as_slice k := None)"
      "ok cap (lru_pop C (key_as_slice k) (sh_cache s))"
      using assms p by (auto simp: lru_laws_def shard_ok_def)
    moreover have "(map_of (seqs s))(key_as_slice k := None) = map_of (seqs (s\<lparr>sh_queue := rest\<rparr>))"
    proof -
      have "map_of (seqs (s\<lparr>sh_queue := rest\<rparr>)) (key_as_slice k) = None"
        using d sq by (simp add: map_of_eq_None_iff)
      then show ?thesis using sq by (auto simp: fun_eq_iff)
    qed
    moreover have "distinct (map snd (view (evict_queue_front C s)))"
      using assms(2) unfolding v by (simp add: shard_ok_def distinct_drop flip: drop_map)
    moreover have "seqs (evict_queue_front C s) = seqs (s\<lparr>sh_queue := rest\<rparr>)" using ev by (simp add: seqs_def)
    ultimately show ?thesis using assms(2) ev Cons by (simp add: shard_ok_def)
  qed
qed

lemma expire_ok:
  assumes "lru_laws C ok" and "shard_ok C ok cap s"
  shows "shard_ok C ok cap (expire C cutoff s) \<and> view (expire C cutoff s) = win_expire cutoff (view s)"
  using assms
proof (induction C cutoff s rule: expire.induct)
  case (1 C cutoff s)
  show ?case
  proof (cases "sh_queue s")
    case Nil
    then show ?thesis using "1.prems" by (simp add: expire.simps [of C cutoff s] win_expire_def view_def)
  next
    case (Cons e rest)
    obtain t k q where e: "e = (t, k, q)" by (cases e)
    have v: "view s = (t, key_as_slice k) # map (\<lambda>(t, k, q). (t, key_as_slice k)) rest"
      using Cons e by (simp add: view_def)
    show ?thesis
    proof (cases "cutoff \<le> t")
      case True
      then show ?thesis using "1.prems" Cons e v by (simp add: expire.simps [of C cutoff s] win_expire_def)
    next
      case False
      note ev = evict_ok [OF "1.prems"]
      have "shard_ok C ok cap (expire C cutoff (evict_queue_front C s)) \<and>
          view (expire C cutoff (evict_queue_front C s)) = win_expire cutoff (view (evict_queue_front C s))"
        using "1.IH" [OF Cons e [symmetric] refl False "1.prems"(1) ev(1)] by simp
      then show ?thesis using Cons e v False ev(2) by (simp add: expire.simps [of C cutoff s] win_expire_def)
    qed
  qed
qed

lemma make_room_ok:
  assumes "lru_laws C ok" and "shard_ok C ok cap s"
  shows "shard_ok C ok cap (make_room C s) \<and> view (make_room C s) = drop (length (view s) - (cap - 1)) (view s)"
  using assms
proof (induction C s rule: make_room.induct)
  case (1 C s)
  have cap: "sh_capacity s = cap" "0 < cap" using "1.prems" by (auto simp: shard_ok_def)
  show ?case
  proof (cases "sh_queue s \<noteq> [] \<and> sh_capacity s \<le> length (sh_queue s)")
    case True
    note ev = evict_ok [OF "1.prems"]
    have "shard_ok C ok cap (make_room C (evict_queue_front C s)) \<and>
        view (make_room C (evict_queue_front C s)) =
          drop (length (drop 1 (view s)) - (cap - 1)) (drop 1 (view s))"
      using "1.IH" [OF True "1.prems"(1) ev(1)] ev(2) by simp
    moreover have "length (drop 1 (view s)) - (cap - 1) + 1 = length (view s) - (cap - 1)"
      using True cap by (simp, linarith)
    ultimately show ?thesis using True by (simp add: make_room.simps [of C s])
  next
    case False
    then have "length (view s) - (cap - 1) = 0" using cap by (cases "sh_queue s") auto
    moreover have "make_room C s = s" using False by (subst make_room.simps) (simp only: if_False)
    ultimately show ?thesis using "1.prems" by simp
  qed
qed

lemma cleanup_ok:
  assumes "lru_laws C ok" and "shard_ok C ok cap s"
  shows "shard_ok C ok cap (cleanup C now w s)"
    and "0 < w \<Longrightarrow> view (cleanup C now w s) = win_expire (cutoff_at now w) (view s)"
proof -
  have "ok cap (lru_clear C (sh_cache s))" "lru_peek C (lru_clear C (sh_cache s)) = Map.empty"
    using assms by (auto simp: lru_laws_def shard_ok_def)
  then show "shard_ok C ok cap (cleanup C now w s)"
    using assms expire_ok [OF assms] by (simp add: cleanup_def shard_ok_def seqs_def view_def)
  show "0 < w \<Longrightarrow> view (cleanup C now w s) = win_expire (cutoff_at now w) (view s)"
    using expire_ok [OF assms] by (simp add: cleanup_def)
qed

lemma win_expire_again [simp]: "win_expire c (win_expire c q) = win_expire c q"
  by (simp add: win_expire_def dropWhile_idem)

lemma shard_check_ok:
  assumes "lru_laws C ok" and "shard_ok C ok cap s" and "shard_check C k now w s = (found, s1)" and "0 < w"
  shows "shard_ok C ok cap s1" and "view s1 = win_expire (cutoff_at now w) (view s)"
    and "found \<longleftrightarrow> k \<in> snd ` set (view s1)"
proof -
  let ?s = "cleanup C now w s"
  note c = cleanup_ok(1) [OF assms(1,2), of now w] cleanup_ok(2) [OF assms(1,2,4), of now]
  have g: "fst (lru_get C k (sh_cache ?s)) = lru_peek C (sh_cache ?s) k" "ok cap (snd (lru_get C k (sh_cache ?s)))"
    "lru_peek C (snd (lru_get C k (sh_cache ?s))) = lru_peek C (sh_cache ?s)"
    using assms(1) c(1) by (auto simp: lru_laws_def shard_ok_def)
  have e: "s1 = ?s\<lparr>sh_cache := snd (lru_get C k (sh_cache ?s))\<rparr>" "found \<longleftrightarrow> fst (lru_get C k (sh_cache ?s)) \<noteq> None"
    using assms(3,4) by (auto simp: shard_check_def Let_def split: prod.splits)
  show "shard_ok C ok cap s1" using c(1) g e by (simp add: shard_ok_def seqs_def)
  show "view s1 = win_expire (cutoff_at now w) (view s)" using c(2) e by simp
  show "found \<longleftrightarrow> k \<in> snd ` set (view s1)" using e g(1) shard_ok_peek [OF c(1)] by simp
qed

lemma add_owned_ok:
  assumes "lru_laws C ok" and "shard_ok C ok cap s" and "0 < w"
    and "key_as_slice key \<notin> snd ` set (win_expire (cutoff_at now w) (view s))"
  shows "shard_ok C ok cap (add_owned C key now w s)"
    and "view (add_owned C key now w s) = (let q1 = win_expire (cutoff_at now w) (view s)
      in drop (length q1 - (cap - 1)) q1 @ [(now, key_as_slice key)])"
proof -
  let ?k = "key_as_slice key" and ?s1 = "cleanup C now w s"
  let ?s2 = "make_room C ?s1"
  let ?q = "fst (next_seq ?s2)"
  let ?s5 = "?s2\<lparr>sh_seq_counter := ?q, sh_cache := lru_put C ?k ?q (sh_cache ?s2), sh_queue := sh_queue ?s2 @ [(now, key, ?q)]\<rparr>"
  note c = cleanup_ok(1) [OF assms(1,2), of now w] cleanup_ok(2) [OF assms(1,2,3), of now]
  note m = make_room_ok [OF assms(1) c(1)]
  have none: "lru_peek C (sh_cache ?s1) ?k = None" using shard_ok_peek [OF c(1), of ?k] c(2) assms(4) by simp
  have e: "add_owned C key now w s = ?s5"
    using assms(3) none by (simp add: add_owned_def Let_def next_seq_def)
  have v: "view ?s5 = view ?s2 @ [(now, ?k)]" by (simp add: view_def)
  have sq: "seqs ?s5 = seqs ?s2 @ [(?k, ?q)]" by (simp add: seqs_def)
  have sub: "set (view ?s2) \<subseteq> set (view ?s1)" using m set_drop_subset by metis
  then have new: "?k \<notin> snd ` set (view ?s2)" using c(2) assms(4) by auto
  then have "lru_peek C (sh_cache ?s2) ?k = None" using shard_ok_peek [OF conjunct1 [OF m]] by blast
  then have none2: "map_of (seqs ?s2) ?k = None" using m by (simp add: shard_ok_def)
  have len: "length (sh_queue ?s2) < cap"
  proof -
    have "length (view ?s2) \<le> cap - 1" using m by simp
    moreover have "0 < cap" using c(1) by (simp add: shard_ok_def)
    ultimately show ?thesis by simp
  qed
  then have "lru_len C (sh_cache ?s2) < cap" using shard_ok_len [OF assms(1) conjunct1 [OF m]] by simp
  then have put: "ok cap (lru_put C ?k ?q (sh_cache ?s2))"
    "lru_peek C (lru_put C ?k ?q (sh_cache ?s2)) = (map_of (seqs ?s2))(?k \<mapsto> ?q)"
    using assms(1) m by (auto simp: lru_laws_def shard_ok_def)
  have "(map_of (seqs ?s2))(?k \<mapsto> ?q) = map_of (seqs ?s2 @ [(?k, ?q)])"
    using none2 by (auto simp: fun_eq_iff map_add_def split: option.splits)
  then have p5: "lru_peek C (sh_cache ?s5) = map_of (seqs ?s5)" unfolding sq using put(2) by simp
  have "distinct (map snd (view ?s5))" unfolding v using m new by (auto simp: shard_ok_def)
  then show "shard_ok C ok cap (add_owned C key now w s)"
    unfolding e using m p5 put(1) len by (simp add: shard_ok_def)
  show "view (add_owned C key now w s) = (let q1 = win_expire (cutoff_at now w) (view s)
      in drop (length q1 - (cap - 1)) q1 @ [(now, ?k)])"
    unfolding e v using m c(2) by (simp add: Let_def)
qed

text \<open>One call on one shard is one step of the window.\<close>

lemma shard_call_ok:
  assumes "lru_laws C ok" and "shard_ok C ok cap s" and "shard_check C k now w s = (found, s1)"
  shows "shard_ok C ok cap (if found then s1 else add_owned C (key_from_slice k) now w s1)"
    and "(found, view (if found then s1 else add_owned C (key_from_slice k) now w s1)) =
      win_check_and_add cap now w k (view s)"
proof -
  consider "w = 0" | "0 < w" by blast
  then have "shard_ok C ok cap (if found then s1 else add_owned C (key_from_slice k) now w s1) \<and>
    (found, view (if found then s1 else add_owned C (key_from_slice k) now w s1)) =
      win_check_and_add cap now w k (view s)"
  proof cases
    case 1
    then show ?thesis using assms by (auto simp: shard_check_def add_owned_def win_check_and_add_def)
  next
    case 2
    note c = shard_check_ok [OF assms 2]
    show ?thesis
    proof (cases found)
      case True
      then show ?thesis using c 2 by (simp add: win_check_and_add_def)
    next
      case False
      then have "k \<notin> snd ` set (win_expire (cutoff_at now w) (view s1))" using c by simp
      with add_owned_ok [OF assms(1) c(1) 2, of "key_from_slice k" now] show ?thesis
        using c 2 False by (simp add: win_check_and_add_def Let_def)
    qed
  qed
  then show "shard_ok C ok cap (if found then s1 else add_owned C (key_from_slice k) now w s1)"
    and "(found, view (if found then s1 else add_owned C (key_from_slice k) now w s1)) =
      win_check_and_add cap now w k (view s)" by simp_all
qed

subsection \<open>Runs of the checker\<close>

text \<open>
  The events of a run: a handshake to check, or a round of the periodic cleanup. The result of
  an event tells whether a handshake was accepted.
\<close>

definition replay_step ::
  "'c lru_ops \<Rightarrow> (bytes \<Rightarrow> nat) \<Rightarrow> nat \<times> bytes option \<Rightarrow> 'c replay_checker \<Rightarrow> bool \<times> 'c replay_checker" where
  "replay_step C hash ev r =
     (case ev of
        (now, Some d) \<Rightarrow> (case check_and_add_handshake C hash now d r of (found, r') \<Rightarrow> (\<not> found, r'))
      | (now, None) \<Rightarrow> (False, snd (periodic_cleanup C now r)))"

fun replay_run ::
  "'c lru_ops \<Rightarrow> (bytes \<Rightarrow> nat) \<Rightarrow> 'c replay_checker \<Rightarrow> (nat \<times> bytes option) list \<Rightarrow> bool list \<times> 'c replay_checker" where
  "replay_run C hash r [] = ([], r)"
| "replay_run C hash r (ev # evs) =
     (let (a, r1) = replay_step C hash ev r; (as, r2) = replay_run C hash r1 evs in (a # as, r2))"

definition shard_cap :: "nat \<Rightarrow> nat" where
  "shard_cap total_capacity = max (total_capacity div 64) 1"

definition shard_of :: "(bytes \<Rightarrow> nat) \<Rightarrow> bytes \<Rightarrow> nat" where
  "shard_of hash d = hash d mod 64"

definition handshake_view :: "'c replay_checker \<Rightarrow> nat \<Rightarrow> window" where
  "handshake_view r i = view (rp_handshake_shards r ! i)"

definition checker_ok :: "'c lru_ops \<Rightarrow> (nat \<Rightarrow> 'c \<Rightarrow> bool) \<Rightarrow> nat \<Rightarrow> nat \<Rightarrow> 'c replay_checker \<Rightarrow> bool" where
  "checker_ok C ok cap w r \<longleftrightarrow> length (rp_handshake_shards r) = 64 \<and> rp_shard_mask r = 63 \<and> rp_window r = w \<and>
     (\<forall>i<64. shard_ok C ok cap (rp_handshake_shards r ! i))"

lemma mask_63: "n AND 63 = n mod (64 :: nat)"
proof -
  have "mask 6 = (63 :: nat)" by (simp add: mask_eq_exp_minus_1)
  then show ?thesis using take_bit_eq_mask [of 6 n] by (simp add: take_bit_eq_mod)
qed

lemma checker_new_ok:
  "lru_laws C ok \<Longrightarrow> checker_ok C ok (shard_cap n) w (checker_new C n w)"
  by (simp add: checker_ok_def checker_new_def Let_def shard_cap_def shard_new_ok)

lemma replay_check_step:
  assumes "lru_laws C ok" and "checker_ok C ok cap w r" and "check_and_add_handshake C hash now d r = (found, r')"
  shows "checker_ok C ok cap w r'"
    and "(found, handshake_view r' (shard_of hash d)) = win_check_and_add cap now w d (handshake_view r (shard_of hash d))"
    and "i \<noteq> shard_of hash d \<Longrightarrow> handshake_view r' i = handshake_view r i"
proof -
  let ?i = "shard_of hash d"
  have i: "?i < 64" "get_shard_idx hash d (r\<lparr>rp_checks := n\<rparr>) = ?i" for n
    using assms(2) by (simp_all add: shard_of_def get_shard_idx_def checker_ok_def mask_63)
  let ?s = "rp_handshake_shards r ! ?i"
  obtain f s1 where c: "shard_check C d now w ?s = (f, s1)" by fastforce
  define s' where "s' = (if f then s1 else add_owned C (key_from_slice d) now w s1)"
  have ok: "shard_ok C ok cap ?s" "length (rp_handshake_shards r) = 64" "rp_window r = w"
    using assms(2) i by (simp_all add: checker_ok_def)
  have e: "found = f" "rp_handshake_shards r' = (rp_handshake_shards r)[?i := s']"
    "rp_window r' = rp_window r" "rp_shard_mask r' = rp_shard_mask r"
    using assms(3) c i(2) ok(3)
    by (auto simp: check_and_add_handshake_def check_and_add_internal_def set_handshake_shards_def Let_def s'_def
        split: if_splits)
  note s' = shard_call_ok [OF assms(1) ok(1) c, folded s'_def]
  show "checker_ok C ok cap w r'"
    using assms(2) e s'(1) i(1) by (simp add: checker_ok_def nth_list_update)
  show "(found, handshake_view r' ?i) = win_check_and_add cap now w d (handshake_view r ?i)"
    using e s'(2) i(1) ok(2) by (simp add: handshake_view_def)
  show "i \<noteq> ?i \<Longrightarrow> handshake_view r' i = handshake_view r i"
    using e(2) by (simp add: handshake_view_def)
qed

lemma replay_cleanup_step:
  assumes "lru_laws C ok" and "checker_ok C ok cap w r"
  shows "checker_ok C ok cap w (snd (periodic_cleanup C now r))"
    and "i < 64 \<Longrightarrow> 0 < w \<Longrightarrow> handshake_view (snd (periodic_cleanup C now r)) i =
      win_expire (cutoff_at now w) (handshake_view r i)"
proof -
  have e: "rp_handshake_shards (snd (periodic_cleanup C now r)) = map (cleanup C now w) (rp_handshake_shards r)"
    "rp_window (snd (periodic_cleanup C now r)) = w" "rp_shard_mask (snd (periodic_cleanup C now r)) = 63"
    using assms(2) by (simp_all add: periodic_cleanup_def cleanup_shards_def Let_def checker_ok_def)
  have sh: "shard_ok C ok cap (rp_handshake_shards r ! i)" if "i < 64" for i
    using assms(2) that by (simp add: checker_ok_def)
  have len: "length (rp_handshake_shards r) = 64" using assms(2) by (simp add: checker_ok_def)
  show "checker_ok C ok cap w (snd (periodic_cleanup C now r))"
    using e sh len cleanup_ok(1) [OF assms(1)] by (simp add: checker_ok_def)
  show "i < 64 \<Longrightarrow> 0 < w \<Longrightarrow> handshake_view (snd (periodic_cleanup C now r)) i =
      win_expire (cutoff_at now w) (handshake_view r i)"
    using e(1) len cleanup_ok(2) [OF assms(1) sh] by (simp add: handshake_view_def)
qed

text \<open>How an entry is kept: with \<open>m\<close> younger entries behind it in its shard.\<close>

definition remembered :: "(bytes \<Rightarrow> nat) \<Rightarrow> nat \<Rightarrow> bytes \<Rightarrow> nat \<Rightarrow> 'c replay_checker \<Rightarrow> bool" where
  "remembered hash t d m r \<longleftrightarrow> (\<exists>q1 q2. handshake_view r (shard_of hash d) = q1 @ (t, d) # q2 \<and> length q2 = m)"

definition accepted_in :: "(bytes \<Rightarrow> nat) \<Rightarrow> nat \<Rightarrow> (nat \<times> bytes option) list \<Rightarrow> bool list \<Rightarrow> nat" where
  "accepted_in hash i evs as =
     length (filter (\<lambda>((t, e), a). a \<and> (\<exists>d. e = Some d \<and> shard_of hash d = i)) (zip evs as))"

lemma win_expire_keeps:
  assumes "cutoff \<le> t"
  shows "\<exists>q1'. win_expire cutoff (q1 @ (t, d) # q2) = q1' @ (t, d) # q2"
proof (induction q1)
  case (Cons x q1)
  then show ?case using assms by (cases x) (auto simp: win_expire_def)
qed (use assms in \<open>simp add: win_expire_def\<close>)

lemma cutoff_within: "w \<le> now \<Longrightarrow> now \<le> t + w \<Longrightarrow> cutoff_at now w \<le> t"
  by (simp add: cutoff_at_def checked_sub_def)

lemma replay_step_remembers:
  assumes "lru_laws C ok" and "checker_ok C ok cap w r" and "replay_step C hash (now, e) r = (a, r')"
    and "remembered hash t d m r" and "0 < w" and "w \<le> now" and "now \<le> t + w"
    and "m + accepted_in hash (shard_of hash d) [(now, e)] [a] < cap"
  shows "checker_ok C ok cap w r'" and "remembered hash t d (m + accepted_in hash (shard_of hash d) [(now, e)] [a]) r'"
    and "e = Some d \<Longrightarrow> \<not> a"
proof -
  let ?i = "shard_of hash d" and ?n = "m + accepted_in hash (shard_of hash d) [(now, e)] [a]"
  obtain q1 q2 where q: "handshake_view r ?i = q1 @ (t, d) # q2" "length q2 = m"
    using assms(4) by (auto simp: remembered_def)
  obtain p where p: "win_expire (cutoff_at now w) (handshake_view r ?i) = p @ (t, d) # q2"
    using win_expire_keeps [OF cutoff_within [OF assms(6,7)], of q1 d q2] q by auto
  have "checker_ok C ok cap w r' \<and> remembered hash t d ?n r' \<and> (e = Some d \<longrightarrow> \<not> a)"
  proof (cases e)
    case None
    have "?i < 64" by (simp add: shard_of_def)
    from replay_cleanup_step(2) [OF assms(1,2) this assms(5), of now]
    have "handshake_view (snd (periodic_cleanup C now r)) ?i = p @ (t, d) # q2" using p by simp
    then show ?thesis using None assms(3) replay_cleanup_step(1) [OF assms(1,2), of now] q(2)
      by (auto simp: replay_step_def remembered_def accepted_in_def)
  next
    case (Some x)
    obtain found where f: "check_and_add_handshake C hash now x r = (found, r')" "a = (\<not> found)"
      using assms(3) Some by (auto simp: replay_step_def split: prod.splits)
    note s = replay_check_step [OF assms(1,2) f(1)]
    show ?thesis
    proof (cases "shard_of hash x = ?i")
      case False
      then show ?thesis using s q Some by (auto simp: remembered_def accepted_in_def)
    next
      case True
      let ?q1 = "p @ (t, d) # q2"
      have v: "(found, handshake_view r' ?i) = (if x \<in> snd ` set ?q1 then (True, ?q1)
          else (False, drop (length ?q1 - (cap - 1)) ?q1 @ [(now, x)]))"
        using s(2) True p assms(5) by (simp add: win_check_and_add_def Let_def)
      show ?thesis
      proof (cases found)
        case True
        then show ?thesis using v s(1) f(2) q(2) Some by (auto simp: remembered_def accepted_in_def split: if_splits)
      next
        case False
        then have n: "?n = Suc m" and new: "x \<notin> snd ` set ?q1"
          using v f(2) True Some by (auto simp: accepted_in_def split: if_splits)
        then have "length ?q1 - (cap - 1) \<le> length p" using assms(8) q(2) by simp
        then have "drop (length ?q1 - (cap - 1)) ?q1 = drop (length ?q1 - (cap - 1)) p @ (t, d) # q2" by simp
        then have "handshake_view r' ?i = drop (length ?q1 - (cap - 1)) p @ (t, d) # (q2 @ [(now, x)])"
          using v new by simp
        moreover have "length (q2 @ [(now, x)]) = ?n" using n q(2) by simp
        ultimately have "remembered hash t d ?n r'" unfolding remembered_def by blast
        then show ?thesis using s(1) new Some by auto
      qed
    qed
  qed
  then show "checker_ok C ok cap w r'" and "remembered hash t d ?n r'" and "e = Some d \<Longrightarrow> \<not> a" by auto
qed

lemma accepted_in_Cons:
  "accepted_in hash i (ev # evs) (a # as) = accepted_in hash i [ev] [a] + accepted_in hash i evs as"
  by (simp add: accepted_in_def)

lemma replay_run_remembers:
  assumes "lru_laws C ok" and "checker_ok C ok cap w r" and "replay_run C hash r evs = (as, r')"
    and "remembered hash t d m r" and "0 < w" and "list_all (\<lambda>(now, e). w \<le> now \<and> now \<le> t + w) evs"
    and "m + accepted_in hash (shard_of hash d) evs as < cap"
  shows "checker_ok C ok cap w r' \<and> remembered hash t d (m + accepted_in hash (shard_of hash d) evs as) r'"
  using assms(2-4,6,7)
proof (induction evs arbitrary: r m as)
  case Nil
  then show ?case by (simp add: accepted_in_def)
next
  case (Cons ev evs)
  obtain now e where ev: "ev = (now, e)" by (cases ev)
  obtain a r1 as' where st: "replay_step C hash ev r = (a, r1)" "replay_run C hash r1 evs = (as', r')" "as = a # as'"
    using Cons.prems(2) by (auto simp: Let_def split: prod.splits)
  let ?n = "accepted_in hash (shard_of hash d) [ev] [a]"
  have le: "m + ?n + accepted_in hash (shard_of hash d) evs as' < cap"
    using Cons.prems(5) st(3) accepted_in_Cons [of hash _ ev evs a as'] by simp
  have w: "w \<le> now" "now \<le> t + w" using Cons.prems(4) ev by auto
  have "m + accepted_in hash (shard_of hash d) [(now, e)] [a] < cap" using le ev by simp
  note step = replay_step_remembers [OF assms(1) Cons.prems(1) st(1) [unfolded ev] Cons.prems(3) assms(5) w this]
  show ?case
    using Cons.IH [OF step(1) st(2) step(2)] Cons.prems(4) le ev st(3) accepted_in_Cons [of hash _ ev evs a as']
    by (simp add: add.assoc)
qed

lemma replay_run_append:
  "replay_run C hash r (a @ b) = (let (x, r1) = replay_run C hash r a; (y, r2) = replay_run C hash r1 b in (x @ y, r2))"
  by (induction a arbitrary: r) (auto simp: Let_def split: prod.splits)

lemma replay_run_length: "replay_run C hash r evs = (as, r') \<Longrightarrow> length as = length evs"
  by (induction evs arbitrary: r as) (auto simp: Let_def split: prod.splits)

lemma replay_run_ok:
  assumes "lru_laws C ok" and "checker_ok C ok cap w r" and "replay_run C hash r evs = (as, r')"
  shows "checker_ok C ok cap w r'"
  using assms(2,3)
proof (induction evs arbitrary: r as)
  case (Cons ev evs)
  obtain a r1 as' where st: "replay_step C hash ev r = (a, r1)" "replay_run C hash r1 evs = (as', r')"
    using Cons.prems(2) by (auto simp: Let_def split: prod.splits)
  have "checker_ok C ok cap w r1"
    using st(1) replay_check_step(1) [OF assms(1) Cons.prems(1)] replay_cleanup_step(1) [OF assms(1) Cons.prems(1)]
    by (auto simp: replay_step_def split: prod.splits option.splits)
  then show ?case using Cons.IH st(2) by blast
qed simp

subsection \<open>Where the entries come from\<close>

lemma replay_step_view:
  assumes "lru_laws C ok" and "checker_ok C ok cap w r" and "replay_step C hash (now, e) r = (a, r')"
    and "0 < w" and "i < 64"
  obtains k where "handshake_view r' i = drop k (handshake_view r i)"
  | k d where "handshake_view r' i = drop k (handshake_view r i) @ [(now, d)]" and "a" and "e = Some d"
proof -
  have ex: "\<exists>k. win_expire c q = drop k q" for c q
    unfolding win_expire_def by (metis dropWhile_eq_drop)
  have id: "\<exists>k. q = drop k q" for q :: window by (metis drop_0)
  show thesis
  proof (cases e)
    case None
    then have "handshake_view r' i = win_expire (cutoff_at now w) (handshake_view r i)"
      using assms(3) replay_cleanup_step(2) [OF assms(1,2,5,4), of now] by (simp add: replay_step_def)
    then show thesis using that(1) ex by metis
  next
    case (Some x)
    obtain found where f: "check_and_add_handshake C hash now x r = (found, r')" "a = (\<not> found)"
      using assms(3) Some by (auto simp: replay_step_def split: prod.splits)
    note s = replay_check_step [OF assms(1,2) f(1)]
    obtain j where j: "win_expire (cutoff_at now w) (handshake_view r i) = drop j (handshake_view r i)" using ex by blast
    show thesis
    proof (cases "i = shard_of hash x")
      case False
      then show thesis using s(3) that(1) id by metis
    next
      case True
      then have v: "(found, handshake_view r' i) = win_check_and_add cap now w x (handshake_view r i)" using s(2) by simp
      show thesis
      proof (cases found)
        case True
        then show thesis using v j assms(4) that(1) by (auto simp: win_check_and_add_def Let_def split: if_splits)
      next
        case False
        then have "\<exists>k. handshake_view r' i = drop k (handshake_view r i) @ [(now, x)]"
          using v j assms(4) by (auto simp: win_check_and_add_def Let_def split: if_splits)
        then show thesis using that(2) f(2) False Some by blast
      qed
    qed
  qed
qed

lemma replay_origin:
  assumes "lru_laws C ok" and "replay_run C hash (checker_new C n w) evs = (as, r)" and "0 < w" and "i < 64"
    and "sorted (map fst evs)"
  shows "(\<forall>(t, d)\<in>set (handshake_view r i). ((t, Some d), True) \<in> set (zip evs as)) \<and> sorted (map fst (handshake_view r i))"
  using assms(2,5)
proof (induction evs arbitrary: as r rule: rev_induct)
  case Nil
  then show ?case
    using assms(4) by (auto simp: handshake_view_def checker_new_def Let_def shard_new_def view_def)
next
  case (snoc ev evs)
  obtain now e where ev: "ev = (now, e)" by (cases ev)
  obtain as1 r1 a where run: "replay_run C hash (checker_new C n w) evs = (as1, r1)" "replay_step C hash ev r1 = (a, r)"
    "as = as1 @ [a]"
    using snoc.prems(1) by (auto simp: replay_run_append Let_def split: prod.splits)
  have ih: "(\<forall>(t, d)\<in>set (handshake_view r1 i). ((t, Some d), True) \<in> set (zip evs as1)) \<and>
      sorted (map fst (handshake_view r1 i))"
    using snoc.IH [OF run(1)] snoc.prems(2) by (simp add: sorted_append)
  have zip: "set (zip (evs @ [ev]) as) = insert (ev, a) (set (zip evs as1))"
    using run(3) replay_run_length [OF run(1)] by simp
  have le: "t \<le> now" if "(t, d) \<in> set (handshake_view r1 i)" for t d
  proof -
    have "(t, Some d) \<in> set evs" using ih that by (auto dest: set_zip_leftD)
    then show ?thesis using snoc.prems(2) ev by (force simp: sorted_append)
  qed
  have ok: "checker_ok C ok (shard_cap n) w r1" using replay_run_ok [OF assms(1) checker_new_ok [OF assms(1)] run(1)] .
  have dr: "set (drop k q) \<subseteq> set q" "sorted (map fst q) \<Longrightarrow> sorted (map fst (drop k q))" for k and q :: window
    by (auto simp: set_drop_subset sorted_wrt_drop simp flip: drop_map dest: in_set_dropD)
  show ?case
  proof (rule replay_step_view [OF assms(1) ok run(2) [unfolded ev] assms(3,4)])
    fix k assume "handshake_view r i = drop k (handshake_view r1 i)"
    then show ?thesis using ih zip dr by (auto dest: in_set_dropD)
  next
    fix k d assume v: "handshake_view r i = drop k (handshake_view r1 i) @ [(now, d)]" and a: "a" "e = Some d"
    have "sorted (map fst (drop k (handshake_view r1 i) @ [(now, d)]))"
      using ih dr(2) [of "handshake_view r1 i" k] le by (auto simp: sorted_append dest: in_set_dropD)
    then show ?thesis using ih zip v a ev by (auto dest: in_set_dropD)
  qed
qed

lemma expired_all:
  assumes "sorted (map fst q)" and "x \<in> set (win_expire c q)"
  shows "c \<le> fst x"
  using assms
proof (induction q)
  case (Cons y q)
  then show ?case by (cases y) (auto simp: win_expire_def split: if_splits)
qed (simp add: win_expire_def)

subsection \<open>Properties\<close>

text \<open>A cache that satisfies the laws: an association list, the most recently used key first.\<close>

definition list_lru :: "(nat \<times> (bytes \<times> nat) list) lru_ops" where
  "list_lru =
     \<lparr>lru_new = (\<lambda>cap. (cap, [])),
      lru_peek = (\<lambda>(cap, m). map_of m),
      lru_get = (\<lambda>k (cap, m). (map_of m k,
         (cap, case map_of m k of None \<Rightarrow> m | Some v \<Rightarrow> (k, v) # AList.delete k m))),
      lru_put = (\<lambda>k v (cap, m). (cap, take cap ((k, v) # AList.delete k m))),
      lru_pop = (\<lambda>k (cap, m). (cap, AList.delete k m)),
      lru_clear = (\<lambda>(cap, m). (cap, [])),
      lru_len = (\<lambda>(cap, m). length m)\<rparr>"

definition list_lru_ok :: "nat \<Rightarrow> nat \<times> (bytes \<times> nat) list \<Rightarrow> bool" where
  "list_lru_ok cap c \<longleftrightarrow> fst c = cap \<and> distinct (map fst (snd c)) \<and> length (snd c) \<le> cap"

lemma delete_front:
  "distinct (map fst m) \<Longrightarrow> distinct (map fst ((k, v) # AList.delete k m)) \<and>
    map_of ((k, v) # AList.delete k m) = (map_of m)(k \<mapsto> v)"
  using AList.delete_notin_dom [of k m] by (auto simp: AList.distinct_delete AList.delete_conv' fun_eq_iff)

lemma list_lru_laws: "lru_laws list_lru list_lru_ok"
proof -
  have len: "length (AList.delete k m) \<le> length m" for k and m :: "(bytes \<times> nat) list"
    by (rule AList.length_delete_le)
  have keep: "length (AList.delete k m) < length m" if "map_of m k = Some v" for k v and m :: "(bytes \<times> nat) list"
    using that map_of_SomeD [OF that] by (auto simp: AList.delete_eq intro!: length_filter_less)
  show ?thesis
    unfolding lru_laws_def
  proof (intro conjI allI impI)
    fix cap c k assume a: "list_lru_ok cap c"
    obtain m where c: "c = (cap, m)" "distinct (map fst m)" "length m \<le> cap"
      using a by (cases c) (auto simp: list_lru_ok_def)
    show "finite (dom (lru_peek list_lru c))" using c by (simp add: list_lru_def finite_dom_map_of)
    have "card (dom (map_of m)) = length m"
      using c(2) distinct_card [of "map fst m"] by (simp add: dom_map_of_conv_image_fst)
    then show "lru_len list_lru c = card (dom (lru_peek list_lru c))" using c by (simp add: list_lru_def)
    show "fst (lru_get list_lru k c) = lru_peek list_lru c k" using c by (simp add: list_lru_def)
    show "list_lru_ok cap (snd (lru_get list_lru k c))"
      using c delete_front [OF c(2), of k] keep [of m k]
      by (auto simp: list_lru_def list_lru_ok_def Suc_le_eq split: option.splits intro: less_le_trans)
    show "lru_peek list_lru (snd (lru_get list_lru k c)) = lru_peek list_lru c"
      using c delete_front [OF c(2), of k] by (auto simp: list_lru_def split: option.splits)
    show "list_lru_ok cap (lru_pop list_lru k c)"
      using c len [of k m] by (auto simp: list_lru_def list_lru_ok_def AList.distinct_delete)
    show "lru_peek list_lru (lru_pop list_lru k c) = (lru_peek list_lru c)(k := None)"
      using c by (simp add: list_lru_def AList.delete_conv')
    show "list_lru_ok cap (lru_clear list_lru c)" "lru_peek list_lru (lru_clear list_lru c) = Map.empty"
      using c by (simp_all add: list_lru_def list_lru_ok_def)
    fix v assume lt: "lru_len list_lru c < cap"
    then have "take cap ((k, v) # AList.delete k m) = (k, v) # AList.delete k m"
      using c len [of k m] by (simp add: list_lru_def)
    then show "list_lru_ok cap (lru_put list_lru k v c)"
      "lru_peek list_lru (lru_put list_lru k v c) = (lru_peek list_lru c)(k \<mapsto> v)"
      using c lt len [of k m] delete_front [OF c(2), of k v] by (simp_all add: list_lru_def list_lru_ok_def)
  qed (simp_all add: list_lru_def list_lru_ok_def)
qed

text \<open>
  C12. The checker implements a sliding window: in every run, a call of
  \<open>check_and_add_handshake\<close> answers and changes the shard of its key as the window of the most
  recent keys does, the other shards stay as they are, and no shard holds more keys than its
  capacity, in the cache as in the queue. The cache never evicts by itself.
\<close>

theorem replay_refines_window:
  assumes "lru_laws C ok" and "replay_run C hash (checker_new C n w) evs = (as, r)"
    and "check_and_add_handshake C hash now d r = (found, r')"
  shows "(found, handshake_view r' (shard_of hash d)) =
      win_check_and_add (shard_cap n) now w d (handshake_view r (shard_of hash d)) \<and>
    (i \<noteq> shard_of hash d \<longrightarrow> handshake_view r' i = handshake_view r i) \<and>
    (i < 64 \<longrightarrow> length (handshake_view r' i) \<le> shard_cap n \<and>
      shard_len C (rp_handshake_shards r' ! i) = length (handshake_view r' i))"
proof -
  have ok: "checker_ok C ok (shard_cap n) w r"
    using replay_run_ok [OF assms(1) checker_new_ok [OF assms(1)] assms(2)] .
  note s = replay_check_step [OF assms(1) ok assms(3)]
  have "i < 64 \<longrightarrow> shard_ok C ok (shard_cap n) (rp_handshake_shards r' ! i)"
    using s(1) by (simp add: checker_ok_def)
  then have "i < 64 \<longrightarrow> length (handshake_view r' i) \<le> shard_cap n \<and>
      shard_len C (rp_handshake_shards r' ! i) = length (handshake_view r' i)"
    using shard_ok_len [OF assms(1)] by (auto simp: handshake_view_def shard_len_def shard_ok_def)
  then show ?thesis using s(2,3) by simp
qed

lemma demo_checker_view: "handshake_view (checker_new list_lru 128 w) 0 = []"
  by (simp add: handshake_view_def checker_new_def Let_def shard_new_def view_def)

theorem replay_refines_window_witness:
  "(fst (check_and_add_handshake list_lru (\<lambda>_. 0) 900 [7] (checker_new list_lru 128 500)),
    handshake_view (snd (check_and_add_handshake list_lru (\<lambda>_. 0) 900 [7] (checker_new list_lru 128 500))) 0) =
   win_check_and_add (shard_cap 128) 900 500 [7] []"
proof -
  let ?r = "checker_new list_lru 128 500"
  let ?c = "check_and_add_handshake list_lru (\<lambda>_. 0) 900 [7] ?r"
  have "replay_run list_lru (\<lambda>_. 0) ?r [] = ([], ?r)" by simp
  from replay_refines_window [OF list_lru_laws this, of 900 "[7]" "fst ?c" "snd ?c" 0] show ?thesis
    by (simp add: shard_of_def demo_checker_view)
qed

lemma accept_once:
  assumes "lru_laws C ok" and "0 < w" and "w \<le> t" and "sorted (map fst (a @ (t, Some d) # b @ [(t', Some d)]))"
    and "replay_run C hash (checker_new C n w) (a @ (t, Some d) # b @ [(t', Some d)]) = (xs @ True # ys @ [True], r)"
    and "length xs = length a" and "length ys = length b"
  shows "t + w < t' \<or> shard_cap n \<le> accepted_in hash (shard_of hash d) b ys"
proof (rule ccontr)
  assume no: "\<not> (t + w < t' \<or> shard_cap n \<le> accepted_in hash (shard_of hash d) b ys)"
  obtain xs1 r1 where ra: "replay_run C hash (checker_new C n w) a = (xs1, r1)" by fastforce
  obtain c1 r2 where st: "replay_step C hash (t, Some d) r1 = (c1, r2)" by fastforce
  obtain ys1 r3 where rb: "replay_run C hash r2 b = (ys1, r3)" by fastforce
  obtain c2 r4 where st2: "replay_step C hash (t', Some d) r3 = (c2, r4)" by fastforce
  have "xs1 @ c1 # ys1 @ [c2] = xs @ True # ys @ [True]"
    using assms(5) ra st rb st2 by (simp add: replay_run_append Let_def)
  moreover have l: "length xs1 = length a" using replay_run_length [OF ra] .
  ultimately have c: "c1" "c2" "ys1 = ys" using assms(6) by auto
  have ok1: "checker_ok C ok (shard_cap n) w r1" using replay_run_ok [OF assms(1) checker_new_ok [OF assms(1)] ra] .
  obtain f where f: "check_and_add_handshake C hash t d r1 = (f, r2)" "\<not> f"
    using st c(1) by (auto simp: replay_step_def split: prod.splits)
  note s = replay_check_step [OF assms(1) ok1 f(1)]
  have "remembered hash t d 0 r2"
    using s(2) f(2) assms(2) by (auto simp: remembered_def win_check_and_add_def Let_def split: if_splits)
  moreover have "list_all (\<lambda>(now, e). w \<le> now \<and> now \<le> t + w) b"
  proof -
    have "t \<le> now \<and> now \<le> t'" if "(now, e) \<in> set b" for now e
      using assms(4) that by (auto simp: sorted_append)
    then show ?thesis using no assms(3) by (force simp: list_all_iff)
  qed
  moreover have "0 + accepted_in hash (shard_of hash d) b ys1 < shard_cap n" using no c(3) by simp
  ultimately have r3: "checker_ok C ok (shard_cap n) w r3"
      "remembered hash t d (0 + accepted_in hash (shard_of hash d) b ys1) r3"
    using replay_run_remembers [OF assms(1) s(1) rb _ assms(2)] by blast+
  obtain q1 q2 where q: "handshake_view r3 (shard_of hash d) = q1 @ (t, d) # q2" using r3(2) by (auto simp: remembered_def)
  have tt: "w \<le> t'" "t' \<le> t + w" using no assms(3,4) by (auto simp: sorted_append)
  obtain f2 where f2: "check_and_add_handshake C hash t' d r3 = (f2, r4)" "\<not> f2"
    using st2 c(2) by (auto simp: replay_step_def split: prod.splits)
  obtain p where "win_expire (cutoff_at t' w) (handshake_view r3 (shard_of hash d)) = p @ (t, d) # q2"
    using win_expire_keeps [OF cutoff_within [OF tt], of q1 d q2] q by auto
  then have "f2" using replay_check_step(2) [OF assms(1) r3(1) f2(1)] assms(2) by (simp add: win_check_and_add_def Let_def)
  then show False using f2(2) by simp
qed

text \<open>
  No handshake is accepted twice within the window: between two acceptances of the same
  data lies more than one window, or the shard of the data has accepted at least as many other
  handshakes as it has room for. Rounds of the periodic cleanup may come in between. The clock
  has to be at least one window past its origin.
\<close>

theorem replay_accept_once:
  assumes "lru_laws C ok" and "0 < w" and "w \<le> t" and "sorted (map fst (a @ (t, Some d) # b @ [(t', Some d)]))"
    and "replay_run C hash (checker_new C n w) (a @ (t, Some d) # b @ [(t', Some d)]) = (xs @ True # ys @ [True], r)"
    and "length xs = length a" and "length ys = length b"
  shows "t + w < t' \<or> shard_cap n \<le> accepted_in hash (shard_of hash d) b ys"
  by (rule accept_once [OF assms])

lemma demo_replay:
  assumes "20 \<le> t'"
  shows "\<exists>r. replay_run list_lru (\<lambda>_. 0) (checker_new list_lru 128 10) [(20, Some d), (t', Some d)] =
    ([True, 30 < t'], r)"
proof -
  let ?r0 = "checker_new list_lru 128 10"
  obtain f1 r1 where c1: "check_and_add_handshake list_lru (\<lambda>_. 0) 20 d ?r0 = (f1, r1)" by fastforce
  obtain f2 r2 where c2: "check_and_add_handshake list_lru (\<lambda>_. 0) t' d r1 = (f2, r2)" by fastforce
  note s1 = replay_check_step [OF list_lru_laws checker_new_ok [OF list_lru_laws] c1]
  note s2 = replay_check_step [OF list_lru_laws s1(1) c2]
  have v1: "f1 = False" "handshake_view r1 0 = [(20, d)]"
    using s1(2) by (simp_all add: shard_of_def demo_checker_view win_check_and_add_def win_expire_def Let_def)
  have "f2 \<longleftrightarrow> \<not> 30 < t'"
    using s2(2) v1(2) assms
    by (auto simp: shard_of_def win_check_and_add_def win_expire_def cutoff_at_def checked_sub_def Let_def split: if_splits)
  then show ?thesis using c1 c2 v1(1) by (simp add: replay_step_def)
qed

theorem replay_accept_once_witness:
  "20 + 10 < (40 :: nat) \<or> shard_cap 128 \<le> accepted_in (\<lambda>_. 0) (shard_of (\<lambda>_. 0) [7]) [] []"
proof -
  obtain r where "replay_run list_lru (\<lambda>_. 0) (checker_new list_lru 128 10)
      ([] @ (20, Some [7]) # [] @ [(40, Some [7])]) = ([] @ True # [] @ [True], r)"
    using demo_replay [of 40 "[7]"] by auto
  from replay_accept_once [OF list_lru_laws _ _ _ this] show ?thesis by simp
qed

text \<open>
  C28. Nothing new is taken for a replay: a handshake is refused only when the same data was
  accepted at most one window earlier.
\<close>

theorem replay_refuses_only_seen:
  assumes "lru_laws C ok" and "0 < w" and "w \<le> t" and "sorted (map fst (evs @ [(t, Some d)]))"
    and "replay_run C hash (checker_new C n w) (evs @ [(t, Some d)]) = (as @ [False], r)"
  shows "\<exists>s. ((s, Some d), True) \<in> set (zip evs as) \<and> t \<le> s + w"
proof -
  let ?i = "shard_of hash d"
  obtain as1 r1 a where run: "replay_run C hash (checker_new C n w) evs = (as1, r1)"
    "replay_step C hash (t, Some d) r1 = (a, r)" "as = as1" "\<not> a"
    using assms(5) by (auto simp: replay_run_append Let_def split: prod.splits)
  have ok: "checker_ok C ok (shard_cap n) w r1"
    using replay_run_ok [OF assms(1) checker_new_ok [OF assms(1)] run(1)] .
  obtain found where f: "check_and_add_handshake C hash t d r1 = (found, r)" "found"
    using run(2,4) by (auto simp: replay_step_def split: prod.splits)
  have "?i < 64" by (simp add: shard_of_def)
  then have o: "\<forall>(s, x)\<in>set (handshake_view r1 ?i). ((s, Some x), True) \<in> set (zip evs as1)"
    "sorted (map fst (handshake_view r1 ?i))"
    using replay_origin [OF assms(1) run(1) assms(2)] assms(4) by (simp_all add: sorted_append)
  have "d \<in> snd ` set (win_expire (cutoff_at t w) (handshake_view r1 ?i))"
    using replay_check_step(2) [OF assms(1) ok f(1)] f(2) assms(2)
    by (auto simp: win_check_and_add_def Let_def split: if_splits)
  then obtain s where s: "(s, d) \<in> set (win_expire (cutoff_at t w) (handshake_view r1 ?i))" by auto
  then have "cutoff_at t w \<le> s" using expired_all [OF o(2) s] by simp
  moreover have "(s, d) \<in> set (handshake_view r1 ?i)"
    using s by (auto simp: win_expire_def dest: set_dropWhileD)
  ultimately show ?thesis
    using o(1) run(3) assms(3) by (intro exI [of _ s]) (auto simp: cutoff_at_def checked_sub_def)
qed

theorem replay_refuses_only_seen_witness:
  "\<exists>s. ((s, Some [7 :: u8]), True) \<in> set (zip [(20, Some [7])] [True]) \<and> 28 \<le> s + (10 :: nat)"
proof -
  obtain r where "replay_run list_lru (\<lambda>_. 0) (checker_new list_lru 128 10)
      ([(20, Some [7])] @ [(28, Some [7])]) = ([True] @ [False], r)"
    using demo_replay [of 28 "[7]"] by auto
  from replay_refuses_only_seen [OF list_lru_laws _ _ _ this] show ?thesis by simp
qed

text \<open>
  Before the clock has run for one window there is no instant one window ago, and the fallback
  takes the present as the cutoff: whatever was accepted before is forgotten at once.
\<close>

theorem replay_forgets_early:
  "0 < w \<Longrightarrow> t < now \<Longrightarrow> now < w \<Longrightarrow> win_check_and_add cap now w d [(t, d)] = (False, [(now, d)])"
  by (simp add: win_check_and_add_def win_expire_def cutoff_at_def checked_sub_def Let_def)

end
