(* ===== verification/Auth_Probe.thy ===== *)
theory Auth_Probe
  imports Proxy_Error "HOL-Library.Multiset"
begin

section \<open>Throttling of failed authentications\<close>

text \<open>
  The part of \<^verbatim>\<open>src/src/proxy/handshake.rs\<close> that slows down clients whose handshakes fail: a streak of
  failures per address, a backoff that grows with the streak, a bounded table with eviction,
  and the saturation state that the table's overflow sets. Instants are nanoseconds. The order
  in which the concurrent map iterates and the hash that picks where a scan starts are inputs.
\<close>

abbreviation (input) "AUTH_PROBE_TRACK_RETENTION \<equiv> (600 * 1000000000 :: nat)"
abbreviation (input) "AUTH_PROBE_TRACK_MAX_ENTRIES \<equiv> (65536 :: nat)"
abbreviation (input) "AUTH_PROBE_PRUNE_SCAN_LIMIT \<equiv> (1024 :: nat)"
abbreviation (input) "AUTH_PROBE_BACKOFF_START_FAILS \<equiv> (4 :: nat)"
abbreviation (input) "AUTH_PROBE_SATURATION_GRACE_FAILS \<equiv> (2 :: nat)"
abbreviation (input) "AUTH_PROBE_BACKOFF_BASE_MS \<equiv> (25 :: nat)"
abbreviation (input) "AUTH_PROBE_BACKOFF_MAX_MS \<equiv> (1000 :: nat)"
abbreviation (input) "EXPENSIVE_INVALID_SCAN_SATURATION_THRESHOLD \<equiv> (64 :: nat)"

subsection \<open>State\<close>

record auth_probe_state =
  ap_fail_streak :: nat
  ap_blocked_until :: nat
  ap_last_seen :: nat

record auth_probe_saturation_state =
  as_fail_streak :: nat
  as_blocked_until :: nat
  as_last_seen :: nat

type_synonym probe_table = "(ip_addr \<times> auth_probe_state) list"

record probe_shared =
  pb_probe :: probe_table
  pb_saturation :: "auth_probe_saturation_state option"

text \<open>
  \<open>pv_iter i\<close> is the order of iteration in round \<open>i\<close> of the pruning loop, and \<open>pv_offset\<close> the hash
  of an address and a time.
\<close>

record probe_env =
  pv_iter :: "nat \<Rightarrow> probe_table \<Rightarrow> probe_table"
  pv_offset :: "ip_addr \<Rightarrow> nat \<Rightarrow> nat"

definition probe_env_ok :: "probe_env \<Rightarrow> bool" where
  "probe_env_ok V \<longleftrightarrow> (\<forall>i m. mset (pv_iter V i m) = mset m)"

subsection \<open>Rules\<close>

fun normalize_auth_probe_ip :: "ip_addr \<Rightarrow> ip_addr" where
  "normalize_auth_probe_ip (IpV4 a b c d) = IpV4 a b c d"
| "normalize_auth_probe_ip (IpV6 os) = IpV6 (take 8 os @ replicate 8 0)"

definition auth_probe_backoff :: "nat \<Rightarrow> nat" where
  "auth_probe_backoff fail_streak =
     (if fail_streak < AUTH_PROBE_BACKOFF_START_FAILS then 0
      else let shift = min (fail_streak - AUTH_PROBE_BACKOFF_START_FAILS) 10;
               multiplier = 2 ^ shift;
               ms = min (sat_mul U64_MAX AUTH_PROBE_BACKOFF_BASE_MS multiplier) AUTH_PROBE_BACKOFF_MAX_MS
           in ms * 1000000)"

definition auth_probe_state_expired :: "auth_probe_state \<Rightarrow> nat \<Rightarrow> bool" where
  "auth_probe_state_expired st now \<longleftrightarrow> now - ap_last_seen st > AUTH_PROBE_TRACK_RETENTION"

definition auth_probe_scan_start_offset :: "probe_env \<Rightarrow> ip_addr \<Rightarrow> nat \<Rightarrow> nat \<Rightarrow> nat \<Rightarrow> nat" where
  "auth_probe_scan_start_offset V peer_ip now state_len scan_limit =
     (if state_len = 0 \<or> scan_limit = 0 then 0 else pv_offset V peer_ip now mod state_len)"

definition auth_probe_is_throttled :: "ip_addr \<Rightarrow> nat \<Rightarrow> probe_shared \<Rightarrow> bool \<times> probe_shared" where
  "auth_probe_is_throttled ip now sh =
     (let peer_ip = normalize_auth_probe_ip ip
      in case map_of (pb_probe sh) peer_ip of
           None \<Rightarrow> (False, sh)
         | Some entry \<Rightarrow>
             if auth_probe_state_expired entry now
             then (False, sh\<lparr>pb_probe := AList.delete peer_ip (pb_probe sh)\<rparr>)
             else (now < ap_blocked_until entry, sh))"

definition auth_probe_saturation_grace_exhausted :: "ip_addr \<Rightarrow> nat \<Rightarrow> probe_shared \<Rightarrow> bool \<times> probe_shared" where
  "auth_probe_saturation_grace_exhausted ip now sh =
     (let peer_ip = normalize_auth_probe_ip ip
      in case map_of (pb_probe sh) peer_ip of
           None \<Rightarrow> (False, sh)
         | Some entry \<Rightarrow>
             if auth_probe_state_expired entry now
             then (False, sh\<lparr>pb_probe := AList.delete peer_ip (pb_probe sh)\<rparr>)
             else (ap_fail_streak entry \<ge> AUTH_PROBE_BACKOFF_START_FAILS + AUTH_PROBE_SATURATION_GRACE_FAILS, sh))"

definition auth_probe_saturation_is_throttled :: "nat \<Rightarrow> probe_shared \<Rightarrow> bool \<times> probe_shared" where
  "auth_probe_saturation_is_throttled now sh =
     (case pb_saturation sh of
        None \<Rightarrow> (False, sh)
      | Some st \<Rightarrow>
          if now - as_last_seen st > AUTH_PROBE_TRACK_RETENTION then (False, sh\<lparr>pb_saturation := None\<rparr>)
          else (now < as_blocked_until st, sh))"

definition auth_probe_should_apply_preauth_throttle :: "ip_addr \<Rightarrow> nat \<Rightarrow> probe_shared \<Rightarrow> bool \<times> probe_shared" where
  "auth_probe_should_apply_preauth_throttle ip now sh =
     (case auth_probe_is_throttled ip now sh of
        (False, sh1) \<Rightarrow> (False, sh1)
      | (True, sh1) \<Rightarrow>
          (case auth_probe_saturation_is_throttled now sh1 of
             (False, sh2) \<Rightarrow> (True, sh2)
           | (True, sh2) \<Rightarrow> auth_probe_saturation_grace_exhausted ip now sh2))"

definition auth_probe_note_saturation :: "nat \<Rightarrow> probe_shared \<Rightarrow> probe_shared" where
  "auth_probe_note_saturation now sh =
     (let fresh = \<lparr>as_fail_streak = AUTH_PROBE_BACKOFF_START_FAILS,
                   as_blocked_until = now + auth_probe_backoff AUTH_PROBE_BACKOFF_START_FAILS,
                   as_last_seen = now\<rparr>
      in case pb_saturation sh of
           Some st \<Rightarrow>
             if now - as_last_seen st \<le> AUTH_PROBE_TRACK_RETENTION then
               let streak = sat_add U32_MAX (as_fail_streak st) 1
               in sh\<lparr>pb_saturation := Some \<lparr>as_fail_streak = streak,
                       as_blocked_until = now + auth_probe_backoff streak, as_last_seen = now\<rparr>\<rparr>
             else sh\<lparr>pb_saturation := Some fresh\<rparr>
         | None \<Rightarrow> sh\<lparr>pb_saturation := Some fresh\<rparr>)"

definition auth_probe_note_expensive_invalid_scan :: "nat \<Rightarrow> nat \<Rightarrow> bool \<Rightarrow> probe_shared \<Rightarrow> probe_shared" where
  "auth_probe_note_expensive_invalid_scan now validation_checks overload sh =
     (if overload \<or> validation_checks < EXPENSIVE_INVALID_SCAN_SATURATION_THRESHOLD then sh
      else auth_probe_note_saturation now sh)"

subsection \<open>Recording a failure\<close>

definition new_probe_state :: "nat \<Rightarrow> auth_probe_state" where
  "new_probe_state now =
     \<lparr>ap_fail_streak = 1, ap_blocked_until = now + auth_probe_backoff 1, ap_last_seen = now\<rparr>"

definition update_existing :: "nat \<Rightarrow> auth_probe_state \<Rightarrow> auth_probe_state" where
  "update_existing now entry =
     (if auth_probe_state_expired entry now then new_probe_state now
      else let streak = sat_add U32_MAX (ap_fail_streak entry) 1
           in \<lparr>ap_fail_streak = streak, ap_blocked_until = now + auth_probe_backoff streak, ap_last_seen = now\<rparr>)"

text \<open>The candidate for eviction among the entries seen so far: the shortest streak, then the oldest.\<close>

type_synonym eviction_candidate = "(ip_addr \<times> nat \<times> nat) option"

definition weigh_candidate :: "ip_addr \<times> auth_probe_state \<Rightarrow> eviction_candidate \<Rightarrow> eviction_candidate" where
  "weigh_candidate entry cand =
     (let (key, st) = entry
      in case cand of
           Some (k, current_fail, current_seen) \<Rightarrow>
             if ap_fail_streak st > current_fail \<or> ap_fail_streak st = current_fail \<and> ap_last_seen st \<ge> current_seen
             then cand else Some (key, ap_fail_streak st, ap_last_seen st)
         | None \<Rightarrow> Some (key, ap_fail_streak st, ap_last_seen st))"

definition pick_candidate :: "probe_table \<Rightarrow> eviction_candidate" where
  "pick_candidate entries = fold weigh_candidate entries None"

definition stale_keys :: "nat \<Rightarrow> probe_table \<Rightarrow> ip_addr list" where
  "stale_keys now entries = map fst (filter (\<lambda>(k, st). auth_probe_state_expired st now) entries)"

text \<open>
  The entries one round looks at: all of them, or from a hashed offset on, and from the
  beginning when the end came too early.
\<close>

definition scanned_entries :: "probe_env \<Rightarrow> nat \<Rightarrow> ip_addr \<Rightarrow> nat \<Rightarrow> probe_table \<Rightarrow> probe_table" where
  "scanned_entries V i peer_ip now tbl =
     (let state_len = length tbl;
          scan_limit = min state_len AUTH_PROBE_PRUNE_SCAN_LIMIT;
          entries = pv_iter V i tbl
      in if state_len \<le> AUTH_PROBE_PRUNE_SCAN_LIMIT then entries
         else let start_offset = auth_probe_scan_start_offset V peer_ip now state_len scan_limit;
                  first = take scan_limit (drop start_offset entries);
                  scanned = length first
              in if scanned < scan_limit then first @ take (scan_limit - scanned) entries else first)"

text \<open>
  The pruning loop with \<open>n\<close> rounds left in round \<open>i\<close>. The flag tells whether the failure is
  still to be recorded, or the function has returned.
\<close>

primrec prune_rounds :: "probe_env \<Rightarrow> ip_addr \<Rightarrow> nat \<Rightarrow> nat \<Rightarrow> nat \<Rightarrow> probe_shared \<Rightarrow> bool \<times> probe_shared" where
  "prune_rounds V peer_ip now 0 i sh =
     (if length (pb_probe sh) < AUTH_PROBE_TRACK_MAX_ENTRIES then (True, sh)
      else let sh1 = auth_probe_note_saturation now sh
           in case pick_candidate (take AUTH_PROBE_PRUNE_SCAN_LIMIT (pv_iter V i (pb_probe sh1))) of
                None \<Rightarrow> (False, sh1)
              | Some (evict_key, _, _) \<Rightarrow> (True, sh1\<lparr>pb_probe := AList.delete evict_key (pb_probe sh1)\<rparr>))"
| "prune_rounds V peer_ip now (Suc n) i sh =
     (if length (pb_probe sh) < AUTH_PROBE_TRACK_MAX_ENTRIES then (True, sh)
      else let entries = scanned_entries V i peer_ip now (pb_probe sh);
               cand = pick_candidate entries;
               sh1 = sh\<lparr>pb_probe := fold AList.delete (stale_keys now entries) (pb_probe sh)\<rparr>
           in if length (pb_probe sh1) < AUTH_PROBE_TRACK_MAX_ENTRIES then (True, sh1)
              else case cand of
                     None \<Rightarrow> (False, auth_probe_note_saturation now sh1)
                   | Some (evict_key, _, _) \<Rightarrow>
                       prune_rounds V peer_ip now n (i + 1)
                         (auth_probe_note_saturation now
                            (sh1\<lparr>pb_probe := AList.delete evict_key (pb_probe sh1)\<rparr>)))"

definition auth_probe_record_failure_with_state :: "probe_env \<Rightarrow> ip_addr \<Rightarrow> nat \<Rightarrow> probe_shared \<Rightarrow> probe_shared" where
  "auth_probe_record_failure_with_state V peer_ip now sh =
     (case map_of (pb_probe sh) peer_ip of
        Some entry \<Rightarrow> sh\<lparr>pb_probe := AList.update peer_ip (update_existing now entry) (pb_probe sh)\<rparr>
      | None \<Rightarrow>
          (case (if length (pb_probe sh) \<ge> AUTH_PROBE_TRACK_MAX_ENTRIES
                 then prune_rounds V peer_ip now 8 0 sh else (True, sh)) of
             (False, sh1) \<Rightarrow> sh1
           | (True, sh1) \<Rightarrow>
               (case map_of (pb_probe sh1) peer_ip of
                  Some entry \<Rightarrow> sh1\<lparr>pb_probe := AList.update peer_ip (update_existing now entry) (pb_probe sh1)\<rparr>
                | None \<Rightarrow> sh1\<lparr>pb_probe := AList.update peer_ip (new_probe_state now) (pb_probe sh1)\<rparr>)))"

definition auth_probe_record_failure :: "probe_env \<Rightarrow> ip_addr \<Rightarrow> nat \<Rightarrow> probe_shared \<Rightarrow> probe_shared" where
  "auth_probe_record_failure V ip now sh =
     auth_probe_record_failure_with_state V (normalize_auth_probe_ip ip) now sh"

definition auth_probe_record_success :: "ip_addr \<Rightarrow> probe_shared \<Rightarrow> probe_shared" where
  "auth_probe_record_success ip sh =
     sh\<lparr>pb_probe := AList.delete (normalize_auth_probe_ip ip) (pb_probe sh)\<rparr>"

subsection \<open>The table stays bounded\<close>

definition probe_ok :: "probe_shared \<Rightarrow> bool" where
  "probe_ok sh \<longleftrightarrow> map_wf (pb_probe sh) \<and> length (pb_probe sh) \<le> AUTH_PROBE_TRACK_MAX_ENTRIES"

lemma saturation_keeps [simp]: "pb_probe (auth_probe_note_saturation now sh) = pb_probe sh"
  by (simp add: auth_probe_note_saturation_def Let_def split: option.splits)

lemma delete_length: "length (AList.delete k m) \<le> length m"
  by (rule AList.length_delete_le)

lemma delete_present_length:
  assumes "k \<in> fst ` set m"
  shows "length (AList.delete k m) < length m"
proof -
  obtain v where "(k, v) \<in> set m" using assms by auto
  then show ?thesis unfolding AList.delete_eq by (rule length_filter_less) simp
qed

lemma fold_delete:
  "map_wf m \<Longrightarrow> map_wf (fold AList.delete ks m) \<and> length (fold AList.delete ks m) \<le> length m"
proof (induction ks arbitrary: m)
  case (Cons k ks)
  have "map_wf (fold AList.delete ks (AList.delete k m)) \<and>
      length (fold AList.delete ks (AList.delete k m)) \<le> length (AList.delete k m)"
    using Cons.IH [OF hm.wf_remove [OF Cons.prems]] .
  with delete_length [of k m] show ?case by simp
qed simp

lemma weigh_candidate_key:
  "weigh_candidate e c = Some (k, f, t) \<Longrightarrow> (\<exists>f t. c = Some (k, f, t)) \<or> k = fst e"
  by (cases e) (auto simp: weigh_candidate_def split: option.splits if_splits)

lemma pick_candidate_in:
  assumes "pick_candidate es = Some (k, f, t)"
  shows "k \<in> fst ` set es"
proof -
  have "fold weigh_candidate es c = Some (k, f, t) \<Longrightarrow> (\<exists>f t. c = Some (k, f, t)) \<or> k \<in> fst ` set es" for c
  proof (induction es arbitrary: c)
    case (Cons e es)
    then have "(\<exists>f t. weigh_candidate e c = Some (k, f, t)) \<or> k \<in> fst ` set es" by simp
    then show ?case using weigh_candidate_key [of e c k] by auto
  qed simp
  then show ?thesis using assms by (auto simp: pick_candidate_def)
qed

lemma pick_candidate_some: "es \<noteq> [] \<Longrightarrow> pick_candidate es \<noteq> None"
proof -
  have "c \<noteq> None \<Longrightarrow> fold weigh_candidate es c \<noteq> None" for c es
    by (induction es arbitrary: c) (auto simp: weigh_candidate_def Let_def split: option.splits)
  then show "es \<noteq> [] \<Longrightarrow> ?thesis"
    by (cases es) (auto simp: pick_candidate_def weigh_candidate_def split: prod.splits)
qed

lemma iter_set: "probe_env_ok V \<Longrightarrow> set (pv_iter V i m) = set m"
  unfolding probe_env_ok_def by (metis set_mset_mset)

lemma iter_length: "probe_env_ok V \<Longrightarrow> length (pv_iter V i m) = length m"
  unfolding probe_env_ok_def by (metis size_mset)

lemma probe_ok_smaller:
  "probe_ok sh \<Longrightarrow> map_wf m \<Longrightarrow> length m \<le> length (pb_probe sh) \<Longrightarrow> probe_ok (sh\<lparr>pb_probe := m\<rparr>)"
  by (simp add: probe_ok_def)

lemma prune_rounds_ok:
  assumes "probe_env_ok V" and "probe_ok sh" and "prune_rounds V p now n i sh = (go, sh')"
  shows "probe_ok sh' \<and> (go \<longrightarrow> length (pb_probe sh') < AUTH_PROBE_TRACK_MAX_ENTRIES)"
  using assms(2,3)
proof (induction n arbitrary: i sh)
  case 0
  show ?case
  proof (cases "length (pb_probe sh) < AUTH_PROBE_TRACK_MAX_ENTRIES")
    case True
    then show ?thesis using 0 by auto
  next
    case False
    let ?es = "take AUTH_PROBE_PRUNE_SCAN_LIMIT (pv_iter V i (pb_probe sh))"
    have wf: "map_wf (pb_probe sh)" "length (pb_probe sh) \<le> AUTH_PROBE_TRACK_MAX_ENTRIES"
      using 0 by (simp_all add: probe_ok_def)
    show ?thesis
    proof (cases "pick_candidate ?es")
      case None
      then show ?thesis using 0 False by (auto simp: probe_ok_def)
    next
      case (Some c)
      obtain k f t where c: "c = (k, f, t)" by (cases c)
      have "k \<in> fst ` set ?es" using pick_candidate_in Some c by simp
      moreover have "set ?es \<subseteq> set (pb_probe sh)" using iter_set [OF assms(1)] set_take_subset by metis
      ultimately have "k \<in> fst ` set (pb_probe sh)" by auto
      then have "length (AList.delete k (pb_probe sh)) < length (pb_probe sh)" by (rule delete_present_length)
      then show ?thesis using 0 False Some c wf hm.wf_remove by (auto simp: probe_ok_def)
    qed
  qed
next
  case (Suc n)
  let ?es = "scanned_entries V i p now (pb_probe sh)"
  let ?m = "fold AList.delete (stale_keys now ?es) (pb_probe sh)"
  have wf: "map_wf (pb_probe sh)" using Suc.prems by (simp add: probe_ok_def)
  have ok1: "probe_ok (sh\<lparr>pb_probe := ?m\<rparr>)" "map_wf ?m"
    using fold_delete [OF wf] Suc.prems(1) by (auto intro: probe_ok_smaller)
  show ?case
  proof (cases "length (pb_probe sh) < AUTH_PROBE_TRACK_MAX_ENTRIES \<or> length ?m < AUTH_PROBE_TRACK_MAX_ENTRIES")
    case True
    then show ?thesis using Suc.prems ok1 by (auto simp: Let_def split: if_splits)
  next
    case False
    show ?thesis
    proof (cases "pick_candidate ?es")
      case None
      then show ?thesis using Suc.prems False ok1 by (auto simp: Let_def probe_ok_def)
    next
      case (Some c)
      obtain k f t where c: "c = (k, f, t)" by (cases c)
      let ?sh = "auth_probe_note_saturation now (sh\<lparr>pb_probe := AList.delete k ?m\<rparr>)"
      have "probe_ok ?sh"
        using ok1 hm.wf_remove [of ?m k] delete_length [of k ?m] by (auto simp: probe_ok_def)
      moreover have "prune_rounds V p now n (i + 1) ?sh = (go, sh')"
        using Suc.prems(2) False Some c by (simp add: Let_def)
      ultimately show ?thesis by (rule Suc.IH)
    qed
  qed
qed

lemma insert_ok:
  assumes "probe_ok sh" and "map_of (pb_probe sh) p \<noteq> None \<or> length (pb_probe sh) < AUTH_PROBE_TRACK_MAX_ENTRIES"
  shows "probe_ok (sh\<lparr>pb_probe := AList.update p v (pb_probe sh)\<rparr>)"
proof -
  have "length (AList.update p v (pb_probe sh)) =
      (if map_of (pb_probe sh) p = None then Suc (length (pb_probe sh)) else length (pb_probe sh))"
    using assms(1) hm.size_insert [of "pb_probe sh" p v] by (simp add: probe_ok_def)
  then show ?thesis using assms hm.wf_insert by (auto simp: probe_ok_def)
qed

lemma record_failure_ok:
  assumes "probe_env_ok V" and "probe_ok sh"
  shows "probe_ok (auth_probe_record_failure_with_state V p now sh)"
proof (cases "map_of (pb_probe sh) p")
  case (Some e)
  then show ?thesis using insert_ok [OF assms(2)] by (simp add: auth_probe_record_failure_with_state_def)
next
  case None
  obtain go sh1 where g: "(if length (pb_probe sh) \<ge> AUTH_PROBE_TRACK_MAX_ENTRIES
      then prune_rounds V p now 8 0 sh else (True, sh)) = (go, sh1)" by fastforce
  have ok: "probe_ok sh1 \<and> (go \<longrightarrow> length (pb_probe sh1) < AUTH_PROBE_TRACK_MAX_ENTRIES)"
    using g prune_rounds_ok [OF assms, of p now 8 0 go sh1] assms(2) by (auto split: if_splits)
  show ?thesis
    using None g ok insert_ok [of sh1 p]
    by (cases go) (auto simp: auth_probe_record_failure_with_state_def split: option.splits)
qed

subsection \<open>Runs\<close>

datatype probe_event =
    Pv_Failure ip_addr
  | Pv_Success ip_addr
  | Pv_Check ip_addr
  | Pv_Scan nat bool

fun probe_step :: "probe_env \<Rightarrow> nat \<times> probe_event \<Rightarrow> probe_shared \<Rightarrow> probe_shared" where
  "probe_step V (now, Pv_Failure ip) sh = auth_probe_record_failure V ip now sh"
| "probe_step V (now, Pv_Success ip) sh = auth_probe_record_success ip sh"
| "probe_step V (now, Pv_Check ip) sh = snd (auth_probe_should_apply_preauth_throttle ip now sh)"
| "probe_step V (now, Pv_Scan checks overload) sh = auth_probe_note_expensive_invalid_scan now checks overload sh"

definition probe_run :: "probe_env \<Rightarrow> (nat \<times> probe_event) list \<Rightarrow> probe_shared \<Rightarrow> probe_shared" where
  "probe_run V evs sh = fold (probe_step V) evs sh"

definition probe_new :: probe_shared where
  "probe_new = \<lparr>pb_probe = [], pb_saturation = None\<rparr>"

text \<open>A check removes at most the entry of its own address, and only when that has expired.\<close>

definition drop_expired :: "ip_addr \<Rightarrow> nat \<Rightarrow> probe_table \<Rightarrow> probe_table" where
  "drop_expired p now m =
     (case map_of m p of Some e \<Rightarrow> if auth_probe_state_expired e now then AList.delete p m else m | None \<Rightarrow> m)"

lemma is_throttled_table:
  "pb_probe (snd (auth_probe_is_throttled ip now sh)) = drop_expired (normalize_auth_probe_ip ip) now (pb_probe sh)"
  by (simp add: auth_probe_is_throttled_def drop_expired_def Let_def split: option.splits)

lemma grace_table:
  "pb_probe (snd (auth_probe_saturation_grace_exhausted ip now sh)) =
    drop_expired (normalize_auth_probe_ip ip) now (pb_probe sh)"
  by (simp add: auth_probe_saturation_grace_exhausted_def drop_expired_def Let_def split: option.splits)

lemma sat_throttled_table [simp]: "pb_probe (snd (auth_probe_saturation_is_throttled now sh)) = pb_probe sh"
  by (simp add: auth_probe_saturation_is_throttled_def split: option.splits)

lemma drop_expired_again [simp]: "drop_expired p now (drop_expired p now m) = drop_expired p now m"
  by (auto simp: drop_expired_def hm.lookup_remove split: option.splits)

lemma check_table:
  "pb_probe (snd (auth_probe_should_apply_preauth_throttle ip now sh)) =
    drop_expired (normalize_auth_probe_ip ip) now (pb_probe sh)"
proof -
  obtain b sh1 where a: "auth_probe_is_throttled ip now sh = (b, sh1)" by fastforce
  obtain c sh2 where s: "auth_probe_saturation_is_throttled now sh1 = (c, sh2)" by fastforce
  have t1: "pb_probe sh1 = drop_expired (normalize_auth_probe_ip ip) now (pb_probe sh)"
    using is_throttled_table [of ip now sh] a by simp
  moreover have "pb_probe sh2 = pb_probe sh1" using sat_throttled_table [of now sh1] s by simp
  ultimately show ?thesis
    using a s grace_table [of ip now sh2] by (cases b; cases c) (simp_all add: auth_probe_should_apply_preauth_throttle_def)
qed

lemma drop_expired_ok: "probe_ok sh \<Longrightarrow> probe_ok (sh'\<lparr>pb_probe := drop_expired p now (pb_probe sh)\<rparr>)"
  using delete_length [of p "pb_probe sh"] hm.wf_remove [of "pb_probe sh" p]
  by (auto simp: probe_ok_def drop_expired_def split: option.splits)

lemma probe_step_ok:
  assumes "probe_env_ok V" and "probe_ok sh"
  shows "probe_ok (probe_step V ev sh)"
proof (cases "(V, ev, sh)" rule: probe_step.cases)
  case (1 V' now ip sh')
  then show ?thesis using assms record_failure_ok by (simp add: auth_probe_record_failure_def)
next
  case (2 V' now ip sh')
  then show ?thesis
    using assms delete_length [of "normalize_auth_probe_ip ip" "pb_probe sh"] hm.wf_remove
    by (auto simp: auth_probe_record_success_def probe_ok_def)
next
  case (3 V' now ip sh')
  then show ?thesis
    using assms drop_expired_ok [of sh "normalize_auth_probe_ip ip" now sh] check_table [of ip now sh]
    by (simp add: probe_ok_def)
next
  case (4 V' now checks overload sh')
  then show ?thesis using assms by (simp add: auth_probe_note_expensive_invalid_scan_def probe_ok_def)
qed

lemma probe_run_ok: "probe_env_ok V \<Longrightarrow> probe_ok sh \<Longrightarrow> probe_ok (probe_run V evs sh)"
  by (induction evs arbitrary: sh) (simp_all add: probe_run_def probe_step_ok)

subsection \<open>A client alone\<close>

text \<open>What becomes of the entry of one address through its own events.\<close>

fun own_step :: "ip_addr \<Rightarrow> nat \<times> probe_event \<Rightarrow> auth_probe_state option \<Rightarrow> auth_probe_state option" where
  "own_step p (now, Pv_Failure ip) e =
     (if normalize_auth_probe_ip ip = p
      then Some (case e of Some st \<Rightarrow> update_existing now st | None \<Rightarrow> new_probe_state now) else e)"
| "own_step p (now, Pv_Success ip) e = (if normalize_auth_probe_ip ip = p then None else e)"
| "own_step p (now, Pv_Check ip) e =
     (if normalize_auth_probe_ip ip = p
      then (case e of Some st \<Rightarrow> if auth_probe_state_expired st now then None else e | None \<Rightarrow> None) else e)"
| "own_step p (now, Pv_Scan c b) e = e"

lemma update_length_le: "length (AList.update k v m) \<le> Suc (length m)"
  by (induction m) auto

lemma probe_step_own:
  assumes "length (pb_probe sh) < AUTH_PROBE_TRACK_MAX_ENTRIES"
  shows "map_of (pb_probe (probe_step V ev sh)) p = own_step p ev (map_of (pb_probe sh) p)"
    and "length (pb_probe (probe_step V ev sh)) \<le> Suc (length (pb_probe sh))"
proof -
  have "map_of (pb_probe (probe_step V ev sh)) p = own_step p ev (map_of (pb_probe sh) p) \<and>
    length (pb_probe (probe_step V ev sh)) \<le> Suc (length (pb_probe sh))"
  proof (cases "(V, ev, sh)" rule: probe_step.cases)
    case (1 V' now ip sh')
    let ?q = "normalize_auth_probe_ip ip"
    have "pb_probe (auth_probe_record_failure V ip now sh) = AList.update ?q
        (case map_of (pb_probe sh) ?q of Some st \<Rightarrow> update_existing now st | None \<Rightarrow> new_probe_state now) (pb_probe sh)"
      using assms by (simp add: auth_probe_record_failure_def auth_probe_record_failure_with_state_def split: option.splits)
    then show ?thesis using 1 by (auto simp: hm.lookup_insert intro: update_length_le)
  next
    case (2 V' now ip sh')
    then show ?thesis
      using delete_length [of "normalize_auth_probe_ip ip" "pb_probe sh"]
      by (auto simp: auth_probe_record_success_def hm.lookup_remove)
  next
    case (3 V' now ip sh')
    let ?q = "normalize_auth_probe_ip ip"
    have "length (drop_expired ?q now (pb_probe sh)) \<le> length (pb_probe sh)"
      using delete_length [of ?q "pb_probe sh"] by (simp add: drop_expired_def split: option.splits)
    then show ?thesis
      using 3 check_table [of ip now sh] by (auto simp: drop_expired_def hm.lookup_remove split: option.splits)
  next
    case (4 V' now checks overload sh')
    then show ?thesis by (simp add: auth_probe_note_expensive_invalid_scan_def)
  qed
  then show "map_of (pb_probe (probe_step V ev sh)) p = own_step p ev (map_of (pb_probe sh) p)"
    and "length (pb_probe (probe_step V ev sh)) \<le> Suc (length (pb_probe sh))" by simp_all
qed

lemma probe_run_own:
  assumes "length (pb_probe sh) + length evs \<le> mx" and "mx = AUTH_PROBE_TRACK_MAX_ENTRIES"
  shows "map_of (pb_probe (probe_run V evs sh)) p = fold (own_step p) evs (map_of (pb_probe sh) p)"
  using assms(1)
proof (induction evs arbitrary: sh)
  case (Cons ev evs)
  then have "length (pb_probe sh) < AUTH_PROBE_TRACK_MAX_ENTRIES" using assms(2) by simp
  note s = probe_step_own [OF this, of V ev]
  have "length (pb_probe (probe_step V ev sh)) + length evs \<le> mx" using s(2) Cons.prems by simp
  from Cons.IH [OF this] show ?case using s(1) by (simp add: probe_run_def)
qed (simp add: probe_run_def)

fun concerns_peer :: "ip_addr \<Rightarrow> nat \<times> probe_event \<Rightarrow> bool" where
  "concerns_peer p (now, Pv_Failure ip) \<longleftrightarrow> normalize_auth_probe_ip ip = p"
| "concerns_peer p (now, Pv_Success ip) \<longleftrightarrow> normalize_auth_probe_ip ip = p"
| "concerns_peer p (now, Pv_Check ip) \<longleftrightarrow> normalize_auth_probe_ip ip = p"
| "concerns_peer p (now, Pv_Scan c b) \<longleftrightarrow> False"

lemma own_step_other: "\<not> concerns_peer p ev \<Longrightarrow> own_step p ev e = e"
  by (cases "(p, ev)" rule: concerns_peer.cases) auto

lemma own_filter: "fold (own_step p) evs e = fold (own_step p) (filter (concerns_peer p) evs) e"
  by (induction evs arbitrary: e) (simp_all add: own_step_other)

text \<open>A list of times without a gap longer than the retention.\<close>

fun steady :: "nat list \<Rightarrow> bool" where
  "steady (s # t # ts) \<longleftrightarrow> s \<le> t \<and> t \<le> s + AUTH_PROBE_TRACK_RETENTION \<and> steady (t # ts)"
| "steady _ = True"

definition streak_state :: "nat \<Rightarrow> nat \<Rightarrow> auth_probe_state" where
  "streak_state k t = \<lparr>ap_fail_streak = k, ap_blocked_until = t + auth_probe_backoff k, ap_last_seen = t\<rparr>"

lemma own_failures:
  assumes "steady (t0 # ts)" and "k + length ts \<le> mx" and "mx = U32_MAX" and "normalize_auth_probe_ip ip = p"
  shows "fold (own_step p) (map (\<lambda>t. (t, Pv_Failure ip)) ts) (Some (streak_state k t0)) =
    Some (streak_state (k + length ts) (last (t0 # ts)))"
  using assms(1,2)
proof (induction ts arbitrary: t0 k)
  case (Cons t ts)
  have "\<not> auth_probe_state_expired (streak_state k t0) t"
    using Cons.prems(1) by (auto simp: auth_probe_state_expired_def streak_state_def)
  moreover have "sat_add U32_MAX k 1 = Suc k" using Cons.prems(2) assms(3) by (simp add: sat_add_def)
  ultimately have "update_existing t (streak_state k t0) = streak_state (Suc k) t"
    by (simp add: update_existing_def streak_state_def Let_def)
  then show ?case using Cons.IH [of t "Suc k"] Cons.prems assms(4) by simp
qed simp

lemma new_probe_streak: "new_probe_state t = streak_state 1 t"
  by (simp add: new_probe_state_def streak_state_def)

subsection \<open>Properties\<close>


definition demo_probe_env :: probe_env where
  "demo_probe_env = \<lparr>pv_iter = (\<lambda>_ m. rev m), pv_offset = (\<lambda>_ _. 0)\<rparr>"




end
