(* ===== verification/User_Auth.thy ===== *)
theory User_Auth
  imports Auth_Probe
begin

section \<open>Users and the order in which they are tried\<close>

text \<open>
  The snapshot of the configured users (\<^verbatim>\<open>src/src/config/load.rs\<close>), the per-user deny lists
  (\<^verbatim>\<open>src/src/config/types.rs\<close>), the state shared by the handshakes (\<^verbatim>\<open>src/src/proxy/shared_state.rs\<close>), and the hints,
  budgets and scans with which \<^verbatim>\<open>src/src/proxy/handshake.rs\<close> looks for the user whose secret fits. Both kinds
  of handshake expand the macro \<open>try_user_id\<close>, one with the validation of MTProto and one with
  that of TLS, which is an argument here. Parameters are \<open>hex::decode\<close>, the hasher of the standard
  library, whose algorithm is unspecified, and \<open>IpNetwork::contains\<close>. A user name is the byte string of its UTF-8
  encoding, one character for each byte.
\<close>

abbreviation (input) "ACCESS_SECRET_BYTES \<equiv> (16 :: nat)"
abbreviation (input) "STICKY_HINT_MAX_ENTRIES \<equiv> (65536 :: nat)"
abbreviation (input) "CANDIDATE_HINT_TRACK_CAP \<equiv> (64 :: nat)"
abbreviation (input) "OVERLOAD_CANDIDATE_BUDGET_HINTED \<equiv> (16 :: nat)"
abbreviation (input) "OVERLOAD_CANDIDATE_BUDGET_UNHINTED \<equiv> (8 :: nat)"
abbreviation (input) "RECENT_USER_RING_SCAN_LIMIT \<equiv> (32 :: nat)"
abbreviation (input) "HANDSHAKE_RECENT_USER_RING_LEN \<equiv> (64 :: nat)"
abbreviation (input) "WARNED_SECRET_MAX_ENTRIES \<equiv> (1024 :: nat)"

subsection \<open>The snapshot of the users\<close>

type_synonym hex_decode = "string \<Rightarrow> bytes option"
type_synonym byte_hasher = "bytes \<Rightarrow> nat"

definition to_ascii_lowercase :: "u8 \<Rightarrow> u8" where
  "to_ascii_lowercase b = (if 0x41 \<le> b \<and> b \<le> 0x5A then b + 0x20 else b)"

definition as_bytes :: "string \<Rightarrow> bytes" where
  "as_bytes s = map of_char s"

record user_auth_entry =
  ua_user :: string
  ua_secret :: bytes

record user_auth_snapshot =
  us_entries :: "user_auth_entry list"
  us_by_name :: "(string \<times> nat) list"
  us_sni_index :: "(nat \<times> nat list) list"
  us_sni_initial_index :: "(u8 \<times> nat list) list"

definition sni_lookup_hash :: "byte_hasher \<Rightarrow> string \<Rightarrow> nat" where
  "sni_lookup_hash H value = H (map to_ascii_lowercase (as_bytes value))"

definition sni_initial :: "string \<Rightarrow> u8 option" where
  "sni_initial value = (case as_bytes value of [] \<Rightarrow> None | b # _ \<Rightarrow> Some (to_ascii_lowercase b))"

text \<open>\<open>entry(k).or_insert_with(Vec::new).push(i)\<close>.\<close>

definition index_push :: "'k \<Rightarrow> nat \<Rightarrow> ('k \<times> nat list) list \<Rightarrow> ('k \<times> nat list) list" where
  "index_push k i m = AList.update k ((case map_of m k of None \<Rightarrow> [] | Some l \<Rightarrow> l) @ [i]) m"

definition push_user :: "byte_hasher \<Rightarrow> string \<Rightarrow> bytes \<Rightarrow> user_auth_snapshot \<Rightarrow> user_auth_snapshot" where
  "push_user H user secret s =
     (let user_id = length (us_entries s)
      in \<lparr>us_entries = us_entries s @ [\<lparr>ua_user = user, ua_secret = secret\<rparr>],
          us_by_name = AList.update user user_id (us_by_name s),
          us_sni_index = index_push (sni_lookup_hash H user) user_id (us_sni_index s),
          us_sni_initial_index = (case sni_initial user of
             None \<Rightarrow> us_sni_initial_index s
           | Some initial \<Rightarrow> index_push initial user_id (us_sni_initial_index s))\<rparr>)"

fun add_users ::
  "hex_decode \<Rightarrow> byte_hasher \<Rightarrow> (string \<times> string) list \<Rightarrow> user_auth_snapshot \<Rightarrow> proxy_error + user_auth_snapshot" where
  "add_users hex H [] s = Inr s"
| "add_users hex H ((user, secret_hex) # users) s =
     (case hex secret_hex of
        None \<Rightarrow> Inl InvalidSecret
      | Some decoded \<Rightarrow>
          if length decoded \<noteq> ACCESS_SECRET_BYTES then Inl InvalidSecret
          else if length (us_entries s) > U32_MAX then Inl Config_Error
          else add_users hex H users (push_user H user decoded s))"

definition empty_snapshot :: user_auth_snapshot where
  "empty_snapshot = \<lparr>us_entries = [], us_by_name = [], us_sni_index = [], us_sni_initial_index = []\<rparr>"

definition from_users ::
  "hex_decode \<Rightarrow> byte_hasher \<Rightarrow> (string \<times> string) list \<Rightarrow> proxy_error + user_auth_snapshot" where
  "from_users hex H users = add_users hex H users empty_snapshot"

definition user_id_by_name :: "user_auth_snapshot \<Rightarrow> string \<Rightarrow> nat option" where
  "user_id_by_name s user = map_of (us_by_name s) user"

definition entry_by_id :: "user_auth_snapshot \<Rightarrow> nat \<Rightarrow> user_auth_entry option" where
  "entry_by_id s user_id = get_byte (us_entries s) user_id"

definition sni_candidates :: "byte_hasher \<Rightarrow> user_auth_snapshot \<Rightarrow> string \<Rightarrow> nat list option" where
  "sni_candidates H s sni = map_of (us_sni_index s) (sni_lookup_hash H sni)"

definition sni_initial_candidates :: "user_auth_snapshot \<Rightarrow> string \<Rightarrow> nat list option" where
  "sni_initial_candidates s sni =
     (case sni_initial sni of None \<Rightarrow> None | Some initial \<Rightarrow> map_of (us_sni_initial_index s) initial)"

definition is_user_source_ip_denied ::
  "('n \<Rightarrow> ip_addr \<Rightarrow> bool) \<Rightarrow> (string \<times> 'n list) list \<Rightarrow> string \<Rightarrow> ip_addr \<Rightarrow> bool" where
  "is_user_source_ip_denied contains deny username ip =
     (case map_of deny username of None \<Rightarrow> False | Some nets \<Rightarrow> list_ex (\<lambda>n. contains n ip) nets)"

subsection \<open>State shared by the handshakes\<close>

record handshake_shared =
  hs_probe :: probe_shared
  hs_invalid_secret_warned :: "(string \<times> string) list"
  hs_unknown_sni_warn_next_allowed :: "nat option"
  hs_sticky_user_by_ip :: "(ip_addr \<times> nat) list"
  hs_sticky_user_by_ip_prefix :: "(nat \<times> nat) list"
  hs_sticky_user_by_sni_hash :: "(nat \<times> nat) list"
  hs_recent_user_ring :: "nat list"
  hs_recent_user_ring_seq :: nat
  hs_auth_expensive_checks_total :: nat
  hs_auth_budget_exhausted_total :: nat

definition handshake_shared_new :: handshake_shared where
  "handshake_shared_new =
     \<lparr>hs_probe = \<lparr>pb_probe = [], pb_saturation = None\<rparr>, hs_invalid_secret_warned = [],
      hs_unknown_sni_warn_next_allowed = None, hs_sticky_user_by_ip = [], hs_sticky_user_by_ip_prefix = [],
      hs_sticky_user_by_sni_hash = [], hs_recent_user_ring = replicate HANDSHAKE_RECENT_USER_RING_LEN 0,
      hs_recent_user_ring_seq = 0, hs_auth_expensive_checks_total = 0, hs_auth_budget_exhausted_total = 0\<rparr>"

text \<open>\<open>fetch_add\<close> on an \<open>AtomicU64\<close> wraps.\<close>

definition fetch_add_u64 :: "nat \<Rightarrow> nat \<Rightarrow> nat" where
  "fetch_add_u64 a b = (a + b) mod (U64_MAX + 1)"

definition should_emit_unknown_sni_warn :: "nat \<Rightarrow> handshake_shared \<Rightarrow> bool \<times> handshake_shared" where
  "should_emit_unknown_sni_warn now sh =
     (case hs_unknown_sni_warn_next_allowed sh of
        Some next_allowed \<Rightarrow>
          if now < next_allowed then (False, sh)
          else (True, sh\<lparr>hs_unknown_sni_warn_next_allowed := Some (now + 5 * 1000000000)\<rparr>)
      | None \<Rightarrow> (True, sh\<lparr>hs_unknown_sni_warn_next_allowed := Some (now + 5 * 1000000000)\<rparr>))"

definition warn_invalid_secret_once :: "string \<Rightarrow> string \<Rightarrow> handshake_shared \<Rightarrow> bool \<times> handshake_shared" where
  "warn_invalid_secret_once name reason sh =
     (let key = (name, reason); warned = hs_invalid_secret_warned sh
      in if key \<notin> set warned \<and> length warned \<ge> WARNED_SECRET_MAX_ENTRIES then (False, sh)
         else if key \<in> set warned then (False, sh)
         else (True, sh\<lparr>hs_invalid_secret_warned := key # warned\<rparr>))"

definition decode_user_secret ::
  "hex_decode \<Rightarrow> string \<Rightarrow> string \<Rightarrow> handshake_shared \<Rightarrow> bytes option \<times> handshake_shared" where
  "decode_user_secret hex name secret_hex sh =
     (case hex secret_hex of
        Some bs \<Rightarrow>
          if length bs = ACCESS_SECRET_BYTES then (Some bs, sh)
          else (None, snd (warn_invalid_secret_once name ''invalid_length'' sh))
      | None \<Rightarrow> (None, snd (warn_invalid_secret_once name ''invalid_hex'' sh)))"

text \<open>The loop of \<open>decode_user_secrets_in\<close> over the users other than the preferred one.\<close>

fun decode_others ::
  "hex_decode \<Rightarrow> string option \<Rightarrow> (string \<times> string) list \<Rightarrow> handshake_shared \<Rightarrow> (string \<times> bytes) list \<times> handshake_shared" where
  "decode_others hex preferred [] sh = ([], sh)"
| "decode_others hex preferred ((name, secret_hex) # users) sh =
     (if preferred = Some name then decode_others hex preferred users sh
      else let (r, sh1) = decode_user_secret hex name secret_hex sh;
               (rest, sh2) = decode_others hex preferred users sh1
           in ((case r of Some bs \<Rightarrow> (name, bs) # rest | None \<Rightarrow> rest), sh2))"

definition decode_user_secrets ::
  "hex_decode \<Rightarrow> (string \<times> string) list \<Rightarrow> string option \<Rightarrow> handshake_shared \<Rightarrow> (string \<times> bytes) list \<times> handshake_shared" where
  "decode_user_secrets hex users preferred_user sh =
     (let (first, sh1) =
        (case preferred_user of
           None \<Rightarrow> ([], sh)
         | Some preferred \<Rightarrow>
             (case map_of users preferred of
                None \<Rightarrow> ([], sh)
              | Some secret_hex \<Rightarrow>
                  (case decode_user_secret hex preferred secret_hex sh of
                     (Some bs, sh') \<Rightarrow> ([(preferred, bs)], sh')
                   | (None, sh') \<Rightarrow> ([], sh'))));
          (rest, sh2) = decode_others hex preferred_user users sh1
      in (first @ rest, sh2))"

subsection \<open>Hints\<close>

fun ip_prefix_hint_key :: "ip_addr \<Rightarrow> nat" where
  "ip_prefix_hint_key (IpV4 a b c d) = from_be [0x04, a, b, c, 0, 0, 0, 0]"
| "ip_prefix_hint_key (IpV6 os) = from_be (0x06 # take 7 os)"

definition sticky_hint_get_by_ip :: "handshake_shared \<Rightarrow> ip_addr \<Rightarrow> nat option" where
  "sticky_hint_get_by_ip sh peer_ip = map_of (hs_sticky_user_by_ip sh) peer_ip"

definition sticky_hint_get_by_ip_prefix :: "handshake_shared \<Rightarrow> ip_addr \<Rightarrow> nat option" where
  "sticky_hint_get_by_ip_prefix sh peer_ip = map_of (hs_sticky_user_by_ip_prefix sh) (ip_prefix_hint_key peer_ip)"

definition sticky_hint_get_by_sni :: "byte_hasher \<Rightarrow> handshake_shared \<Rightarrow> string \<Rightarrow> nat option" where
  "sticky_hint_get_by_sni H sh sni = map_of (hs_sticky_user_by_sni_hash sh) (sni_lookup_hash H sni)"

definition hint_insert :: "'k \<Rightarrow> nat \<Rightarrow> ('k \<times> nat) list \<Rightarrow> ('k \<times> nat) list" where
  "hint_insert k user_id m =
     AList.update k user_id (if length m > STICKY_HINT_MAX_ENTRIES then [] else m)"

definition sticky_hint_record_success ::
  "byte_hasher \<Rightarrow> ip_addr \<Rightarrow> nat \<Rightarrow> string option \<Rightarrow> handshake_shared \<Rightarrow> handshake_shared" where
  "sticky_hint_record_success H peer_ip user_id sni sh =
     (let sh1 = sh\<lparr>hs_sticky_user_by_ip := hint_insert peer_ip user_id (hs_sticky_user_by_ip sh)\<rparr>;
          sh2 = sh1\<lparr>hs_sticky_user_by_ip_prefix :=
                      hint_insert (ip_prefix_hint_key peer_ip) user_id (hs_sticky_user_by_ip_prefix sh1)\<rparr>
      in case sni of
           None \<Rightarrow> sh2
         | Some name \<Rightarrow> sh2\<lparr>hs_sticky_user_by_sni_hash :=
                               hint_insert (sni_lookup_hash H name) user_id (hs_sticky_user_by_sni_hash sh2)\<rparr>)"

definition record_recent_user_success :: "nat \<Rightarrow> handshake_shared \<Rightarrow> handshake_shared" where
  "record_recent_user_success user_id sh =
     (let ring = hs_recent_user_ring sh; n = hs_recent_user_ring_seq sh
      in if ring = [] then sh
         else sh\<lparr>hs_recent_user_ring_seq := fetch_add_u64 n 1,
                 hs_recent_user_ring := ring[n mod length ring := sat_add U32_MAX user_id 1]\<rparr>)"

subsection \<open>The scan for a user\<close>

definition mark_candidate_if_new :: "nat list \<Rightarrow> nat \<Rightarrow> bool \<times> nat list" where
  "mark_candidate_if_new tried user_id =
     (if user_id \<in> set tried then (False, tried)
      else (True, if length tried < CANDIDATE_HINT_TRACK_CAP then tried @ [user_id] else tried))"

definition budget_for_validation :: "nat \<Rightarrow> bool \<Rightarrow> bool \<Rightarrow> nat" where
  "budget_for_validation total_users overload has_hint =
     (if total_users = 0 then 0
      else if \<not> overload then total_users
      else let cap = (if has_hint then OVERLOAD_CANDIDATE_BUDGET_HINTED else OVERLOAD_CANDIDATE_BUDGET_UNHINTED)
           in min total_users (max cap 1))"

text \<open>
  The variables the macro \<open>try_user_id\<close> works on: the identifiers tried, of which it remembers
  64, the number of validations, and what matched.
\<close>

record 'v scan_state =
  sc_tried :: "nat list"
  sc_checks :: nat
  sc_budget_exhausted :: bool
  sc_matched :: "(string \<times> bytes \<times> nat \<times> 'v) option"

definition scan_new :: "'v scan_state" where
  "scan_new = \<lparr>sc_tried = [], sc_checks = 0, sc_budget_exhausted = False, sc_matched = None\<rparr>"

definition try_user_id ::
  "user_auth_snapshot \<Rightarrow> (bytes \<Rightarrow> 'v option) \<Rightarrow> nat \<Rightarrow> nat \<Rightarrow> 'v scan_state \<Rightarrow> bool \<times> 'v scan_state" where
  "try_user_id snap validate budget user_id sc =
     (if sc_checks sc \<ge> budget then (False, sc\<lparr>sc_budget_exhausted := True\<rparr>)
      else case mark_candidate_if_new (sc_tried sc) user_id of
             (False, _) \<Rightarrow> (False, sc)
           | (True, tried) \<Rightarrow>
               let sc1 = sc\<lparr>sc_tried := tried\<rparr>
               in case entry_by_id snap user_id of
                    None \<Rightarrow> (False, sc1)
                  | Some entry \<Rightarrow>
                      let sc2 = sc1\<lparr>sc_checks := sat_add U64_MAX (sc_checks sc1) 1\<rparr>
                      in case validate (ua_secret entry) of
                           None \<Rightarrow> (False, sc2)
                         | Some v \<Rightarrow> (True, sc2\<lparr>sc_matched := Some (ua_user entry, ua_secret entry, user_id, v)\<rparr>))"

text \<open>Single hints are tried until one matches; lists also stop when the budget is used up.\<close>

fun try_hints ::
  "user_auth_snapshot \<Rightarrow> (bytes \<Rightarrow> 'v option) \<Rightarrow> nat \<Rightarrow> nat option list \<Rightarrow> 'v scan_state \<Rightarrow> bool \<times> 'v scan_state" where
  "try_hints snap validate budget [] sc = (False, sc)"
| "try_hints snap validate budget (None # hints) sc = try_hints snap validate budget hints sc"
| "try_hints snap validate budget (Some user_id # hints) sc =
     (case try_user_id snap validate budget user_id sc of
        (True, sc1) \<Rightarrow> (True, sc1)
      | (False, sc1) \<Rightarrow> try_hints snap validate budget hints sc1)"

fun try_ids ::
  "user_auth_snapshot \<Rightarrow> (bytes \<Rightarrow> 'v option) \<Rightarrow> nat \<Rightarrow> nat list \<Rightarrow> 'v scan_state \<Rightarrow> bool \<times> 'v scan_state" where
  "try_ids snap validate budget [] sc = (False, sc)"
| "try_ids snap validate budget (user_id # ids) sc =
     (case try_user_id snap validate budget user_id sc of
        (True, sc1) \<Rightarrow> (True, sc1)
      | (False, sc1) \<Rightarrow> if sc_budget_exhausted sc1 then (False, sc1) else try_ids snap validate budget ids sc1)"

fun try_lists ::
  "user_auth_snapshot \<Rightarrow> (bytes \<Rightarrow> 'v option) \<Rightarrow> nat \<Rightarrow> nat list list \<Rightarrow> 'v scan_state \<Rightarrow> bool \<times> 'v scan_state" where
  "try_lists snap validate budget [] sc = (False, sc)"
| "try_lists snap validate budget (ids # groups) sc =
     (if sc_budget_exhausted sc then try_lists snap validate budget groups sc
      else case try_ids snap validate budget ids sc of
             (True, sc1) \<Rightarrow> (True, sc1)
           | (False, sc1) \<Rightarrow> try_lists snap validate budget groups sc1)"

definition ring_ids :: "nat list \<Rightarrow> nat \<Rightarrow> nat list" where
  "ring_ids ring next_seq =
     (let scan_limit = min (length ring) RECENT_USER_RING_SCAN_LIMIT;
          encoded = map (\<lambda>offset. ring ! (((next_seq + length ring - 1 - offset) mod (U64_MAX + 1)) mod length ring))
                        [0..<scan_limit]
      in map (\<lambda>e. e - 1) (filter (\<lambda>e. e \<noteq> 0) encoded))"

definition all_ids :: "user_auth_snapshot \<Rightarrow> nat list" where
  "all_ids snap = [0..<min (length (us_entries snap)) (U32_MAX + 1)]"

definition scan_users ::
  "user_auth_snapshot \<Rightarrow> (bytes \<Rightarrow> 'v option) \<Rightarrow> nat \<Rightarrow> nat option list \<Rightarrow> nat list list \<Rightarrow> bool \<times> 'v scan_state" where
  "scan_users snap validate budget hints groups =
     (case try_hints snap validate budget hints scan_new of
        (True, sc) \<Rightarrow> (True, sc)
      | (False, sc) \<Rightarrow> try_lists snap validate budget groups sc)"

subsection \<open>What a scan finds\<close>

definition found_ok :: "user_auth_snapshot \<Rightarrow> (bytes \<Rightarrow> 'v option) \<Rightarrow> nat \<Rightarrow> bool \<times> 'v scan_state \<Rightarrow> bool" where
  "found_ok snap validate budget r \<longleftrightarrow> sc_checks (snd r) \<le> budget \<and>
     (case sc_matched (snd r) of
        None \<Rightarrow> \<not> fst r
      | Some (u, s, i, v) \<Rightarrow> fst r \<and> i < length (us_entries snap) \<and>
          us_entries snap ! i = \<lparr>ua_user = u, ua_secret = s\<rparr> \<and> validate s = Some v)"

lemma found_ok_start: "sc_matched sc = None \<Longrightarrow> sc_checks sc \<le> budget \<Longrightarrow> found_ok snap validate budget (False, sc)"
  by (simp add: found_ok_def)

lemma found_okD: "found_ok snap validate budget (False, sc) \<Longrightarrow> sc_matched sc = None \<and> sc_checks sc \<le> budget"
  by (auto simp: found_ok_def split: option.splits)

lemma try_user_id_ok:
  assumes "found_ok snap validate budget (False, sc)"
  shows "found_ok snap validate budget (try_user_id snap validate budget user_id sc)"
proof -
  have "sat_add U64_MAX (sc_checks sc) 1 \<le> Suc (sc_checks sc)" by (simp add: sat_add_def)
  with found_okD [OF assms] show ?thesis
    by (auto simp: found_ok_def try_user_id_def entry_by_id_def get_byte_def Let_def split: prod.splits option.splits bool.splits
        dest: order_trans)
qed

lemma try_hints_ok:
  "found_ok snap validate budget (False, sc) \<Longrightarrow> found_ok snap validate budget (try_hints snap validate budget hints sc)"
proof (induction hints arbitrary: sc)
  case (Cons h hints)
  show ?case
  proof (cases h)
    case None
    then show ?thesis using Cons by simp
  next
    case (Some u)
    obtain b sc1 where t: "try_user_id snap validate budget u sc = (b, sc1)" by fastforce
    with try_user_id_ok [OF Cons.prems, of u] have "found_ok snap validate budget (b, sc1)" by simp
    with Cons.IH [of sc1] show ?thesis using t Some by (cases b) simp_all
  qed
qed simp

lemma try_ids_ok:
  "found_ok snap validate budget (False, sc) \<Longrightarrow> found_ok snap validate budget (try_ids snap validate budget ids sc)"
proof (induction ids arbitrary: sc)
  case (Cons u ids)
  obtain b sc1 where t: "try_user_id snap validate budget u sc = (b, sc1)" by fastforce
  with try_user_id_ok [OF Cons.prems, of u] have "found_ok snap validate budget (b, sc1)" by simp
  with Cons.IH [of sc1] show ?case using t by (cases b) simp_all
qed simp

lemma try_lists_ok:
  "found_ok snap validate budget (False, sc) \<Longrightarrow> found_ok snap validate budget (try_lists snap validate budget groups sc)"
proof (induction groups arbitrary: sc)
  case (Cons ids groups)
  obtain b sc1 where t: "try_ids snap validate budget ids sc = (b, sc1)" by fastforce
  with try_ids_ok [OF Cons.prems, of ids] have "found_ok snap validate budget (b, sc1)" by simp
  with Cons.IH [of sc1] Cons.IH [OF Cons.prems] show ?case using t by (cases b) simp_all
qed simp

lemma scan_users_ok: "found_ok snap validate budget (scan_users snap validate budget hints groups)"
proof -
  obtain b sc where t: "try_hints snap validate budget hints scan_new = (b, sc)" by fastforce
  have "found_ok snap validate budget (False, scan_new)" by (simp add: found_ok_def scan_new_def)
  with try_hints_ok [OF this, of hints] t have "found_ok snap validate budget (b, sc)" by simp
  with try_lists_ok [of snap validate budget sc groups] show ?thesis using t by (cases b) (simp_all add: scan_users_def)
qed

subsection \<open>What a scan leaves out\<close>

text \<open>\<open>V\<close> holds the identifiers of the entries validated so far, all of which failed.\<close>

definition refuted :: "user_auth_snapshot \<Rightarrow> (bytes \<Rightarrow> 'v option) \<Rightarrow> nat set \<Rightarrow> 'v scan_state \<Rightarrow> bool" where
  "refuted snap validate V sc \<longleftrightarrow> V \<subseteq> {..<length (us_entries snap)} \<and>
     (\<forall>i\<in>V. validate (ua_secret (us_entries snap ! i)) = None) \<and> sc_checks sc = card V \<and>
     (\<forall>i\<in>set (sc_tried sc). i < length (us_entries snap) \<longrightarrow> i \<in> V)"

lemma refuted_full:
  assumes "refuted snap validate V sc" and "length (us_entries snap) \<le> sc_checks sc"
  shows "V = {..<length (us_entries snap)}"
  using assms card_seteq [of "{..<length (us_entries snap)}" V] by (auto simp: refuted_def)

lemma try_refuted:
  assumes r: "refuted snap validate V sc" and t: "try_user_id snap validate budget u sc = (False, sc')"
    and b: "sc_checks sc < budget" and n: "length (us_entries snap) \<le> mx" "mx = U64_MAX"
    and fresh: "u \<in> V \<Longrightarrow> u \<in> set (sc_tried sc)"
  obtains V' where "refuted snap validate V' sc'" "V \<subseteq> V'" "V' \<subseteq> insert u V" "u < length (us_entries snap) \<longrightarrow> u \<in> V'"
    "sc_budget_exhausted sc' = sc_budget_exhausted sc" "set (sc_tried sc) \<subseteq> set (sc_tried sc')"
    "length (sc_tried sc') \<le> Suc (length (sc_tried sc))" "length (sc_tried sc) < 64 \<longrightarrow> u \<in> set (sc_tried sc')"
proof (cases "u \<in> set (sc_tried sc)")
  case True
  then have "sc' = sc" using t b by (simp add: try_user_id_def mark_candidate_if_new_def)
  then show ?thesis using r True by (intro that [of V]) (auto simp: refuted_def)
next
  case False
  then have new: "u \<notin> V" using fresh by blast
  show ?thesis
  proof (cases "u < length (us_entries snap)")
    case True
    then have e: "entry_by_id snap u = Some (us_entries snap ! u)" by (simp add: entry_by_id_def get_byte_def)
    have fin: "finite V" using r by (auto simp: refuted_def intro: finite_subset)
    have "card V < length (us_entries snap)"
      using r new True psubset_card_mono [of "{..<length (us_entries snap)}" V] by (auto simp: refuted_def)
    then have "sat_add U64_MAX (card V) 1 = Suc (card V)" using n by (simp add: sat_add_def)
    then have "refuted snap validate (insert u V) sc'"
      using t b False r e True new fin
      by (auto simp: try_user_id_def mark_candidate_if_new_def refuted_def Let_def split: option.splits if_splits)
    then show ?thesis using t b False e
      by (intro that [of "insert u V"]) (auto simp: try_user_id_def mark_candidate_if_new_def Let_def split: option.splits)
  next
    case ge: False
    then have e: "entry_by_id snap u = None" by (simp add: entry_by_id_def get_byte_def)
    then show ?thesis using t b False r ge
      by (intro that [of V]) (auto simp: try_user_id_def mark_candidate_if_new_def refuted_def Let_def split: if_splits)
  qed
qed

text \<open>While fewer than 64 identifiers have been tried, all of them are remembered.\<close>

definition remembered :: "user_auth_snapshot \<Rightarrow> (bytes \<Rightarrow> 'v option) \<Rightarrow> nat \<Rightarrow> 'v scan_state \<Rightarrow> bool" where
  "remembered snap validate k sc \<longleftrightarrow>
     (\<exists>V. refuted snap validate V sc \<and> V \<subseteq> set (sc_tried sc)) \<and> length (sc_tried sc) \<le> k \<and>
     (sc_budget_exhausted sc \<longrightarrow> length (us_entries snap) \<le> sc_checks sc)"

abbreviation n_users :: "user_auth_snapshot \<Rightarrow> nat" where
  "n_users snap \<equiv> length (us_entries snap)"

lemma try_remembered:
  assumes "remembered snap validate k sc" and "try_user_id snap validate (n_users snap) u sc = (False, sc')"
    and "k < 64" and "n_users snap \<le> mx" "mx = U64_MAX"
  shows "remembered snap validate (Suc k) sc'"
proof (cases "sc_checks sc < n_users snap")
  case True
  from assms(1) obtain V where V: "refuted snap validate V sc" "V \<subseteq> set (sc_tried sc)" by (auto simp: remembered_def)
  have fr: "u \<in> V \<Longrightarrow> u \<in> set (sc_tried sc)" using V(2) by blast
  obtain V' where V': "refuted snap validate V' sc'" "V \<subseteq> V'" "V' \<subseteq> insert u V" "u < length (us_entries snap) \<longrightarrow> u \<in> V'"
    "sc_budget_exhausted sc' = sc_budget_exhausted sc" "set (sc_tried sc) \<subseteq> set (sc_tried sc')"
    "length (sc_tried sc') \<le> Suc (length (sc_tried sc))" "length (sc_tried sc) < 64 \<longrightarrow> u \<in> set (sc_tried sc')"
    by (rule try_refuted [OF V(1) assms(2) True assms(4,5) fr])
  have u: "u \<in> set (sc_tried sc')" using V'(8) assms(1,3) by (simp add: remembered_def)
  have "V' \<subseteq> set (sc_tried sc')" using V'(3,6) V(2) u by blast
  moreover have "\<not> sc_budget_exhausted sc'" using assms(1) True V'(5) by (auto simp: remembered_def)
  moreover have "length (sc_tried sc') \<le> Suc k" using V'(7) assms(1) by (simp add: remembered_def)
  ultimately show ?thesis unfolding remembered_def by (intro conjI exI [of _ V'] V'(1)) simp_all
next
  case False
  then have sc': "sc' = sc\<lparr>sc_budget_exhausted := True\<rparr>" using assms(2) by (simp add: try_user_id_def)
  have "refuted snap validate V sc' = refuted snap validate V sc" for V by (simp add: sc' refuted_def)
  then show ?thesis using assms(1) False by (simp add: remembered_def sc')
qed

lemma hints_remembered:
  assumes "n_users snap \<le> mx" "mx = U64_MAX"
  shows "remembered snap validate k sc \<Longrightarrow> k + length hints \<le> 64 \<Longrightarrow>
    try_hints snap validate (n_users snap) hints sc = (False, sc') \<Longrightarrow> remembered snap validate (k + length hints) sc'"
proof (induction hints arbitrary: k sc)
  case (Cons h hints)
  show ?case
  proof (cases h)
    case None
    have "remembered snap validate (Suc k) sc" using Cons.prems(1) by (auto simp: remembered_def)
    then show ?thesis using Cons.IH [of "Suc k" sc] Cons.prems None by simp
  next
    case (Some u)
    obtain b sc1 where t: "try_user_id snap validate (n_users snap) u sc = (b, sc1)" by fastforce
    then have "\<not> b" using Cons.prems(3) Some by (auto split: bool.splits)
    with t have t: "try_user_id snap validate (n_users snap) u sc = (False, sc1)" by simp
    have "remembered snap validate (Suc k) sc1"
      using try_remembered [OF Cons.prems(1) t _ assms] Cons.prems(2) by simp
    then show ?thesis using Cons.IH [of "Suc k" sc1] Cons.prems t Some by simp
  qed
qed simp

lemma remembered_mono: "remembered snap validate k sc \<Longrightarrow> k \<le> l \<Longrightarrow> remembered snap validate l sc"
  by (auto simp: remembered_def)

lemma ids_remembered:
  assumes "n_users snap \<le> mx" "mx = U64_MAX"
  shows "remembered snap validate k sc \<Longrightarrow> k + length ids \<le> 64 \<Longrightarrow>
    try_ids snap validate (n_users snap) ids sc = (False, sc') \<Longrightarrow> remembered snap validate (k + length ids) sc'"
proof (induction ids arbitrary: k sc)
  case (Cons u ids)
  obtain b sc1 where t: "try_user_id snap validate (n_users snap) u sc = (b, sc1)" by fastforce
  then have "\<not> b" using Cons.prems(3) by (auto split: bool.splits)
  with t have t: "try_user_id snap validate (n_users snap) u sc = (False, sc1)" by simp
  have s: "remembered snap validate (Suc k) sc1"
    using try_remembered [OF Cons.prems(1) t _ assms] Cons.prems(2) by simp
  show ?case
  proof (cases "sc_budget_exhausted sc1")
    case True
    then show ?thesis using remembered_mono [OF s, of "k + length (u # ids)"] Cons.prems(3) t by simp
  next
    case False
    then show ?thesis using Cons.IH [OF s] Cons.prems t by simp
  qed
qed simp

lemma all_ids_refute:
  assumes "n_users snap \<le> mx" "mx = U64_MAX"
  shows "refuted snap validate V sc \<Longrightarrow> {..<k} \<subseteq> V \<Longrightarrow> V \<subseteq> set (sc_tried sc) \<union> {..<k} \<Longrightarrow> \<not> sc_budget_exhausted sc \<Longrightarrow>
    k \<le> n_users snap \<Longrightarrow> try_ids snap validate (n_users snap) [k..<n_users snap] sc = (False, sc') \<Longrightarrow> i < n_users snap \<Longrightarrow>
    validate (ua_secret (us_entries snap ! i)) = None"
proof (induction "n_users snap - k" arbitrary: k V sc)
  case 0
  then show ?case by (auto simp: refuted_def)
next
  case (Suc d)
  then have k: "k < n_users snap" by simp
  show ?case
  proof (cases "sc_checks sc < n_users snap")
    case True
    obtain b sc1 where t: "try_user_id snap validate (n_users snap) k sc = (b, sc1)" by fastforce
    then have "\<not> b" using Suc.prems(6) k by (auto simp: upt_conv_Cons split: bool.splits)
    with t have t: "try_user_id snap validate (n_users snap) k sc = (False, sc1)" by simp
    have fr: "k \<in> V \<Longrightarrow> k \<in> set (sc_tried sc)" using Suc.prems(3) by blast
    obtain V' where V': "refuted snap validate V' sc1" "V \<subseteq> V'" "V' \<subseteq> insert k V" "k < length (us_entries snap) \<longrightarrow> k \<in> V'"
    "sc_budget_exhausted sc1 = sc_budget_exhausted sc" "set (sc_tried sc) \<subseteq> set (sc_tried sc1)"
    "length (sc_tried sc1) \<le> Suc (length (sc_tried sc))" "length (sc_tried sc) < 64 \<longrightarrow> k \<in> set (sc_tried sc1)"
      by (rule try_refuted [OF Suc.prems(1) t True assms fr])
    have a: "{..<Suc k} \<subseteq> V'" "V' \<subseteq> set (sc_tried sc1) \<union> {..<Suc k}"
      using V'(2,3,4,6) Suc.prems(2,3) k by (auto simp: lessThan_Suc)
    have "try_ids snap validate (n_users snap) [Suc k..<n_users snap] sc1 = (False, sc')"
      using Suc.prems(4,6) t k V'(5) by (simp add: upt_conv_Cons)
    then show ?thesis using Suc.hyps(1) [OF _ V'(1) a] V'(5) Suc.prems(4,7) Suc.hyps(2) k by simp
  next
    case False
    then have "V = {..<n_users snap}" using refuted_full [OF Suc.prems(1)] by simp
    then show ?thesis using Suc.prems(1,7) by (auto simp: refuted_def)
  qed
qed

text \<open>
  With the budget for all users, a scan that tries at most 64 identifiers before it goes through
  all entries leaves none out.
\<close>

lemma lists_remembered:
  assumes "n_users snap \<le> mx" "mx = U64_MAX"
  shows "remembered snap validate k sc \<Longrightarrow> k + sum_list (map length groups) \<le> 64 \<Longrightarrow>
    try_lists snap validate (n_users snap) (groups @ [ids]) sc = (False, sc') \<Longrightarrow>
    \<exists>sc1. remembered snap validate 64 sc1 \<and>
      (if sc_budget_exhausted sc1 then (False, sc1) else try_ids snap validate (n_users snap) ids sc1) = (False, sc')"
proof (induction groups arbitrary: k sc)
  case Nil
  have "remembered snap validate 64 sc" using remembered_mono [OF Nil.prems(1)] Nil.prems(2) by simp
  then show ?case using Nil.prems(3) by (intro exI [of _ sc]) (auto split: if_splits prod.splits bool.splits)
next
  case (Cons g groups)
  show ?case
  proof (cases "sc_budget_exhausted sc")
    case True
    then show ?thesis using Cons.IH [OF Cons.prems(1)] Cons.prems(2,3) by simp
  next
    case False
    obtain b sc1 where t: "try_ids snap validate (n_users snap) g sc = (b, sc1)" by fastforce
    then have "\<not> b" using Cons.prems(3) False by (auto split: bool.splits)
    with t have t: "try_ids snap validate (n_users snap) g sc = (False, sc1)" by simp
    have "remembered snap validate (k + length g) sc1"
      using ids_remembered [OF assms Cons.prems(1) _ t] Cons.prems(2) by simp
    then show ?thesis using Cons.IH [of "k + length g" sc1] Cons.prems(2,3) t False by (simp add: add.assoc)
  qed
qed

lemma scan_users_complete:
  assumes n: "n_users snap \<le> m" "m = U32_MAX + 1"
    and l: "length hints + sum_list (map length groups) \<le> 64"
    and f: "scan_users snap validate (n_users snap) hints (groups @ [all_ids snap]) = (False, sc)"
    and i: "i < n_users snap"
  shows "validate (ua_secret (us_entries snap ! i)) = None"
proof -
  have n64: "n_users snap \<le> U64_MAX" using n by simp
  obtain b sc0 where t: "try_hints snap validate (n_users snap) hints scan_new = (b, sc0)" by fastforce
  then have "\<not> b" using f by (auto simp: scan_users_def split: bool.splits)
  with t have t: "try_hints snap validate (n_users snap) hints scan_new = (False, sc0)" by simp
  have "remembered snap validate 0 scan_new" by (auto simp: remembered_def refuted_def scan_new_def)
  from hints_remembered [OF n64 refl this _ t] l have "remembered snap validate (length hints) sc0" by simp
  moreover have "try_lists snap validate (n_users snap) (groups @ [all_ids snap]) sc0 = (False, sc)"
    using f t by (simp add: scan_users_def)
  ultimately obtain sc1 where r: "remembered snap validate 64 sc1"
    and u: "(if sc_budget_exhausted sc1 then (False, sc1) else try_ids snap validate (n_users snap) (all_ids snap) sc1) = (False, sc)"
    using lists_remembered [OF n64 refl] l by blast
  from r obtain V where V: "refuted snap validate V sc1" "V \<subseteq> set (sc_tried sc1)" by (auto simp: remembered_def)
  show ?thesis
  proof (cases "sc_budget_exhausted sc1")
    case True
    then have "V = {..<n_users snap}" using refuted_full [OF V(1)] r by (simp add: remembered_def)
    then show ?thesis using V(1) i by (auto simp: refuted_def)
  next
    case False
    have "all_ids snap = [0..<n_users snap]" using n by (simp add: all_ids_def min_def)
    with u False have a: "try_ids snap validate (n_users snap) [0..<n_users snap] sc1 = (False, sc)" by simp
    show ?thesis by (rule all_ids_refute [OF n64 refl V(1) _ _ False _ a i]) (use V(2) in auto)
  qed
qed

subsection \<open>Where a long list of candidates hides a user\<close>

text \<open>
  Validations that go past the 64 remembered identifiers are repeated by the last scan and use
  up the budget a second time.
\<close>

lemma try_failing:
  assumes "u < n_users snap" and "validate (ua_secret (us_entries snap ! u)) = None"
    and "u \<notin> set (sc_tried sc)" and "sc_checks sc < budget" and "sc_checks sc < mx" "mx = U64_MAX"
  shows "try_user_id snap validate budget u sc =
    (False, sc\<lparr>sc_tried := (if length (sc_tried sc) < 64 then sc_tried sc @ [u] else sc_tried sc), sc_checks := Suc (sc_checks sc)\<rparr>)"
  using assms by (simp add: try_user_id_def mark_candidate_if_new_def entry_by_id_def get_byte_def sat_add_def Let_def)

lemma try_ids_failing:
  assumes "\<forall>i. k \<le> i \<and> i < k + d \<longrightarrow> i < n_users snap \<and> validate (ua_secret (us_entries snap ! i)) = None"
    and "set (sc_tried sc) \<subseteq> {..<k}" and "\<not> sc_budget_exhausted sc" and "sc_checks sc + d \<le> budget" and "budget \<le> mx" "mx = U64_MAX"
  shows "try_ids snap validate budget ([k..<k + d] @ ids) sc =
    try_ids snap validate budget ids
      (sc\<lparr>sc_tried := sc_tried sc @ take (64 - length (sc_tried sc)) [k..<k + d], sc_checks := sc_checks sc + d\<rparr>)"
  using assms(1-4)
proof (induction d arbitrary: k sc)
  case (Suc d)
  let ?sc1 = "sc\<lparr>sc_tried := (if length (sc_tried sc) < 64 then sc_tried sc @ [k] else sc_tried sc), sc_checks := Suc (sc_checks sc)\<rparr>"
  have t: "try_user_id snap validate budget k sc = (False, ?sc1)"
    using Suc.prems assms(5,6) by (intro try_failing [where mx = mx]) auto
  have "try_ids snap validate budget ([Suc k..<Suc k + d] @ ids) ?sc1 =
    try_ids snap validate budget ids
      (?sc1\<lparr>sc_tried := sc_tried ?sc1 @ take (64 - length (sc_tried ?sc1)) [Suc k..<Suc k + d], sc_checks := sc_checks ?sc1 + d\<rparr>)"
    by (rule Suc.IH) (use Suc.prems in auto)
  moreover have "[k..<k + Suc d] = k # [Suc k..<Suc k + d]" by (simp add: upt_conv_Cons)
  ultimately show ?case using t Suc.prems(3)
    by (cases "length (sc_tried sc) < 64") (simp_all add: Suc_diff_Suc [symmetric] del: upt_Suc)
qed simp

lemma try_ids_tried:
  assumes "set ids \<subseteq> set (sc_tried sc)" and "sc_checks sc < budget" and "\<not> sc_budget_exhausted sc"
  shows "try_ids snap validate budget (ids @ ids') sc = try_ids snap validate budget ids' sc"
  using assms(1) by (induction ids) (use assms(2,3) in \<open>auto simp: try_user_id_def mark_candidate_if_new_def\<close>)

lemma scan_users_misses:
  assumes "64 < m" "m < n_users snap" and "n_users snap \<le> mx" "mx = U32_MAX + 1"
    and f: "\<forall>i < n_users snap - 1. validate (ua_secret (us_entries snap ! i)) = None"
  shows "fst (scan_users snap validate (n_users snap) [] [[0..<m], [], all_ids snap]) = False"
proof -
  let ?n = "n_users snap"
  define sc1 where "sc1 = (scan_new :: 'a scan_state)\<lparr>sc_tried := [0..<64], sc_checks := m\<rparr>"
  define sc2 where "sc2 = sc1\<lparr>sc_checks := ?n\<rparr>"
  have "take 64 [0..<m] = [0..<64]" using assms(1) by (simp add: take_upt)
  then have 1: "try_ids snap validate ?n [0..<m] scan_new = (False, sc1)"
    using try_ids_failing [of 0 m snap validate scan_new ?n U64_MAX "[]"] f assms(2-4) by (simp add: scan_new_def sc1_def)
  have split: "[0..<?n] = [0..<64] @ [64..<64 + (?n - m)] @ (64 + ?n - m) # [Suc (64 + ?n - m)..<?n]"
  proof -
    have "(64 + ?n - m) # [Suc (64 + ?n - m)..<?n] = [64 + (?n - m)..<?n]" using assms(1,2) by (subst upt_conv_Cons) auto
    moreover have "[64..<64 + (?n - m)] @ [64 + (?n - m)..<?n] = [64..<?n]"
      using assms(1,2) upt_add_eq_append [of 64 "64 + (?n - m)" "m - 64"] by simp
    moreover have "[0..<64] @ [64..<?n] = [0..<?n]"
      using assms(1,2) upt_add_eq_append [of 0 64 "?n - 64"] by simp
    ultimately show ?thesis by simp
  qed
  have 2: "try_ids snap validate ?n [0..<?n] sc1 =
      try_ids snap validate ?n ([64..<64 + (?n - m)] @ (64 + ?n - m) # [Suc (64 + ?n - m)..<?n]) sc1"
    unfolding split by (rule try_ids_tried) (use assms(2) in \<open>auto simp: sc1_def scan_new_def\<close>)
  have 3: "try_ids snap validate ?n ([64..<64 + (?n - m)] @ (64 + ?n - m) # [Suc (64 + ?n - m)..<?n]) sc1 =
      try_ids snap validate ?n ((64 + ?n - m) # [Suc (64 + ?n - m)..<?n]) sc2"
  proof -
    have "\<forall>i. 64 \<le> i \<and> i < 64 + (?n - m) \<longrightarrow> i < ?n \<and> validate (ua_secret (us_entries snap ! i)) = None"
      using f assms(1,2) by auto
    moreover have "set (sc_tried sc1) \<subseteq> {..<64}" "\<not> sc_budget_exhausted sc1" "sc_checks sc1 + (?n - m) \<le> ?n" "?n \<le> U64_MAX"
      using assms(2-4) by (auto simp: sc1_def scan_new_def)
    ultimately have "try_ids snap validate ?n ([64..<64 + (?n - m)] @ (64 + ?n - m) # [Suc (64 + ?n - m)..<?n]) sc1 =
      try_ids snap validate ?n ((64 + ?n - m) # [Suc (64 + ?n - m)..<?n])
        (sc1\<lparr>sc_tried := sc_tried sc1 @ take (64 - length (sc_tried sc1)) [64..<64 + (?n - m)], sc_checks := sc_checks sc1 + (?n - m)\<rparr>)"
      by (intro try_ids_failing [OF _ _ _ _ _ refl])
    moreover have "sc1\<lparr>sc_tried := sc_tried sc1 @ take (64 - length (sc_tried sc1)) [64..<64 + (?n - m)], sc_checks := sc_checks sc1 + (?n - m)\<rparr> = sc2"
      using assms(2) by (simp add: sc1_def sc2_def scan_new_def)
    ultimately show ?thesis by (simp only:)
  qed
  have 4: "fst (try_ids snap validate ?n ((64 + ?n - m) # [Suc (64 + ?n - m)..<?n]) sc2) = False"
    by (simp add: sc2_def try_user_id_def)
  have "all_ids snap = [0..<?n]" using assms(3,4) by (simp add: all_ids_def min_def)
  moreover have "\<not> sc_budget_exhausted sc1" by (simp add: sc1_def scan_new_def)
  ultimately show ?thesis using 1 2 3 4 by (auto simp: scan_users_def split: bool.splits prod.splits)
qed

subsection \<open>The indexes of the snapshot\<close>

definition candidates :: "(string \<Rightarrow> 'k option) \<Rightarrow> (string \<times> string) list \<Rightarrow> 'k \<Rightarrow> nat list option" where
  "candidates f users k =
     (let ids = filter (\<lambda>i. f (fst (users ! i)) = Some k) [0..<length users] in if ids = [] then None else Some ids)"

lemma filter_snoc_ids:
  "filter (\<lambda>i. P (fst ((pre @ [(u, x)]) ! i))) [0..<Suc (length pre)] =
     filter (\<lambda>i. P (fst (pre ! i))) [0..<length pre] @ (if P u then [length pre] else [])"
proof -
  have "filter (\<lambda>i. P (fst ((pre @ [(u, x)]) ! i))) [0..<length pre] = filter (\<lambda>i. P (fst (pre ! i))) [0..<length pre]"
    by (rule filter_cong) (auto simp: nth_append)
  then show ?thesis by simp
qed

lemma candidates_snoc:
  assumes "\<And>k. map_of m k = candidates f pre k"
  shows "map_of (case f u of None \<Rightarrow> m | Some j \<Rightarrow> index_push j (length pre) m) k = candidates f (pre @ [(u, x)]) k"
proof -
  have "candidates f (pre @ [(u, x)]) k =
      (if f u = Some k then Some ((case candidates f pre k of None \<Rightarrow> [] | Some l \<Rightarrow> l) @ [length pre]) else candidates f pre k)"
    using filter_snoc_ids [of "\<lambda>u. f u = Some k" pre u x] by (simp add: candidates_def Let_def del: upt_Suc)
  then show ?thesis by (auto simp: assms index_push_def hm.lookup_insert split: option.split)
qed

definition snapshot_of :: "hex_decode \<Rightarrow> byte_hasher \<Rightarrow> (string \<times> string) list \<Rightarrow> user_auth_snapshot \<Rightarrow> bool" where
  "snapshot_of hex H users s \<longleftrightarrow>
     list_all2 (\<lambda>(u, x) e. ua_user e = u \<and> hex x = Some (ua_secret e) \<and> length (ua_secret e) = ACCESS_SECRET_BYTES) users (us_entries s) \<and>
     (\<forall>u i. map_of (us_by_name s) u = Some i \<longleftrightarrow> i < length users \<and> fst (users ! i) = u) \<and>
     (\<forall>k. map_of (us_sni_index s) k = candidates (\<lambda>u. Some (sni_lookup_hash H u)) users k) \<and>
     (\<forall>k. map_of (us_sni_initial_index s) k = candidates sni_initial users k)"

lemma push_user_snapshot:
  assumes s: "snapshot_of hex H pre s" and u: "u \<notin> fst ` set pre" and x: "hex x = Some d" "length d = ACCESS_SECRET_BYTES"
  shows "snapshot_of hex H (pre @ [(u, x)]) (push_user H u d s)"
proof -
  have len: "length (us_entries s) = length pre" using s by (auto simp: snapshot_of_def dest: list_all2_lengthD)
  have "map_of (AList.update u (length pre) (us_by_name s)) v = Some i \<longleftrightarrow>
      i < length (pre @ [(u, x)]) \<and> fst ((pre @ [(u, x)]) ! i) = v" for v i
    using s u by (auto simp: snapshot_of_def hm.lookup_insert nth_append less_Suc_eq)
  moreover have "map_of (index_push (sni_lookup_hash H u) (length pre) (us_sni_index s)) k =
      candidates (\<lambda>u. Some (sni_lookup_hash H u)) (pre @ [(u, x)]) k" for k
    using candidates_snoc [of "us_sni_index s" "\<lambda>u. Some (sni_lookup_hash H u)" pre u k x] s by (simp add: snapshot_of_def)
  moreover have "map_of (case sni_initial u of None \<Rightarrow> us_sni_initial_index s
        | Some j \<Rightarrow> index_push j (length pre) (us_sni_initial_index s)) k = candidates sni_initial (pre @ [(u, x)]) k" for k
    using candidates_snoc [of "us_sni_initial_index s" sni_initial pre u k x] s by (simp add: snapshot_of_def)
  moreover have "list_all2 (\<lambda>(u, x) e. ua_user e = u \<and> hex x = Some (ua_secret e) \<and> length (ua_secret e) = ACCESS_SECRET_BYTES)
      (pre @ [(u, x)]) (us_entries (push_user H u d s))"
    using s x by (auto simp: snapshot_of_def push_user_def Let_def intro: list_all2_appendI)
  ultimately show ?thesis by (simp add: snapshot_of_def push_user_def Let_def len)
qed

lemma add_users_snapshot:
  "snapshot_of hex H pre s \<Longrightarrow> map_wf (pre @ users) \<Longrightarrow> add_users hex H users s = Inr s' \<Longrightarrow> snapshot_of hex H (pre @ users) s'"
proof (induction users arbitrary: pre s)
  case (Cons ux users)
  obtain u x where ux: "ux = (u, x)" by fastforce
  from Cons.prems(3) ux obtain d where d: "hex x = Some d" "length d = ACCESS_SECRET_BYTES"
    and r: "add_users hex H users (push_user H u d s) = Inr s'"
    by (auto split: option.splits if_splits)
  have "u \<notin> fst ` set pre" using Cons.prems(2) ux by (auto simp: map_wf_def)
  from Cons.IH [OF push_user_snapshot [where x = x, OF Cons.prems(1) this d] _ r] Cons.prems(2) ux show ?case by simp
qed simp

text \<open>
  The snapshot of a configuration is its table of users: entry \<open>i\<close> has the name and the decoded
  16-byte secret of the \<open>i\<close>-th user, the name index inverts the table, and the two indexes by
  server name list exactly the users whose lower-case name has the same hash, and the same
  first byte, in order.
\<close>

theorem snapshot_indexes:
  assumes "from_users hex H users = Inr s" and "map_wf users"
  shows "length (us_entries s) = length users \<and>
    (i < length users \<longrightarrow> entry_by_id s i = Some \<lparr>ua_user = fst (users ! i), ua_secret = the (hex (snd (users ! i)))\<rparr> \<and>
       hex (snd (users ! i)) \<noteq> None \<and> length (the (hex (snd (users ! i)))) = 16) \<and>
    (user_id_by_name s u = Some i \<longleftrightarrow> i < length users \<and> fst (users ! i) = u) \<and>
    sni_candidates H s sni = candidates (\<lambda>u. Some (sni_lookup_hash H u)) users (sni_lookup_hash H sni) \<and>
    sni_initial_candidates s sni = Option.bind (sni_initial sni) (candidates sni_initial users)"
proof -
  have "snapshot_of hex H [] empty_snapshot" by (simp add: snapshot_of_def empty_snapshot_def candidates_def)
  from add_users_snapshot [OF this, of users s] assms have s: "snapshot_of hex H users s" by (simp add: from_users_def)
  then have l: "length (us_entries s) = length users" by (auto simp: snapshot_of_def dest: list_all2_lengthD)
  have "entry_by_id s i = Some \<lparr>ua_user = fst (users ! i), ua_secret = the (hex (snd (users ! i)))\<rparr> \<and>
       hex (snd (users ! i)) \<noteq> None \<and> length (the (hex (snd (users ! i)))) = 16" if "i < length users"
    using s l that by (cases "us_entries s ! i")
      (auto simp: snapshot_of_def entry_by_id_def get_byte_def list_all2_conv_all_nth case_prod_beta)
  with s l show ?thesis
    by (simp add: snapshot_of_def user_id_by_name_def sni_candidates_def sni_initial_candidates_def split: option.split)
qed

definition demo_hex :: hex_decode where
  "demo_hex x = (if x = ''00'' then None else Some (replicate 16 (of_char (hd (x @ ''a'')))))"

definition demo_users :: "(string \<times> string) list" where
  "demo_users = [(''ann'', ''1''), (''bob'', ''2''), (''Amy'', ''3'')]"

theorem snapshot_indexes_witness:
  "\<exists>s. from_users demo_hex from_be demo_users = Inr s \<and> length (us_entries s) = 3 \<and>
    user_id_by_name s ''bob'' = Some 1 \<and> sni_initial_candidates s ''apple.com'' = Some [0, 2]"
proof -
  obtain s where s: "from_users demo_hex from_be demo_users = Inr s"
    by (simp add: from_users_def demo_users_def demo_hex_def push_user_def empty_snapshot_def Let_def)
  have wf: "map_wf demo_users" by (simp add: demo_users_def map_wf_def)
  have "candidates sni_initial demo_users 0x61 = Some [0, 2]"
    by (simp add: candidates_def demo_users_def sni_initial_def as_bytes_def to_ascii_lowercase_def numeral_3_eq_3 Let_def)
  with snapshot_indexes [OF s wf, of 1 "''bob''" "''apple.com''"] s show ?thesis
    by (simp add: demo_users_def sni_initial_def as_bytes_def to_ascii_lowercase_def)
qed

end
