(* ===== verification/Stream_State.thy ===== *)
theory Stream_State
  imports Proxy_Error
begin

section \<open>Buffers and transitions of the stream wrappers\<close>

text \<open>
  \<^verbatim>\<open>src/src/stream/state.rs\<close>: the results of transitions and polls, and the four buffers the wrappers
  keep between polls. The capacity with which a buffer is allocated has no effect on what it
  does and is left out.
\<close>

subsection \<open>Transitions and polls\<close>

datatype ('s, 'o) transition =
    Tr_Same | Tr_Next 's | Tr_Complete 'o | Tr_Yield 'o 's | Tr_Error io_error_kind

fun has_output :: "('s, 'o) transition \<Rightarrow> bool" where
  "has_output (Tr_Complete _) = True"
| "has_output (Tr_Yield _ _) = True"
| "has_output _ = False"

fun map_output :: "('o \<Rightarrow> 'u) \<Rightarrow> ('s, 'o) transition \<Rightarrow> ('s, 'u) transition" where
  "map_output f Tr_Same = Tr_Same"
| "map_output f (Tr_Next s) = Tr_Next s"
| "map_output f (Tr_Complete v) = Tr_Complete (f v)"
| "map_output f (Tr_Yield v s) = Tr_Yield (f v) s"
| "map_output f (Tr_Error e) = Tr_Error e"

fun map_state :: "('s \<Rightarrow> 't) \<Rightarrow> ('s, 'o) transition \<Rightarrow> ('t, 'o) transition" where
  "map_state f Tr_Same = Tr_Same"
| "map_state f (Tr_Next s) = Tr_Next (f s)"
| "map_state f (Tr_Complete v) = Tr_Complete v"
| "map_state f (Tr_Yield v s) = Tr_Yield v (f s)"
| "map_state f (Tr_Error e) = Tr_Error e"

datatype 't poll_result = Pr_Ready 't | Pr_Pending | Pr_NeedInput nat | Pr_Eof | Pr_Error io_error_kind

fun pr_is_ready :: "'t poll_result \<Rightarrow> bool" where
  "pr_is_ready (Pr_Ready _) = True"
| "pr_is_ready _ = False"

fun pr_is_eof :: "'t poll_result \<Rightarrow> bool" where
  "pr_is_eof Pr_Eof = True"
| "pr_is_eof _ = False"

fun pr_ok :: "'t poll_result \<Rightarrow> 't option" where
  "pr_ok (Pr_Ready t) = Some t"
| "pr_ok _ = None"

fun pr_map :: "('t \<Rightarrow> 'u) \<Rightarrow> 't poll_result \<Rightarrow> 'u poll_result" where
  "pr_map f (Pr_Ready t) = Pr_Ready (f t)"
| "pr_map f Pr_Pending = Pr_Pending"
| "pr_map f (Pr_NeedInput n) = Pr_NeedInput n"
| "pr_map f Pr_Eof = Pr_Eof"
| "pr_map f (Pr_Error e) = Pr_Error e"

fun pr_from :: "io_error_kind + 't \<Rightarrow> 't poll_result" where
  "pr_from (Inr t) = Pr_Ready t"
| "pr_from (Inl e) =
     (if e = IO_WouldBlock then Pr_Pending else if e = IO_UnexpectedEof then Pr_Eof else Pr_Error e)"

subsection \<open>Read buffer\<close>

record read_buffer =
  rb_buffer :: bytes
  rb_target :: "nat option"

definition rb_new :: read_buffer where
  "rb_new = \<lparr>rb_buffer = [], rb_target = None\<rparr>"

definition rb_with_target :: "nat \<Rightarrow> read_buffer" where
  "rb_with_target t = \<lparr>rb_buffer = [], rb_target = Some t\<rparr>"

definition rb_is_complete :: "read_buffer \<Rightarrow> bool" where
  "rb_is_complete b = (case rb_target b of Some t \<Rightarrow> length (rb_buffer b) \<ge> t | None \<Rightarrow> False)"

definition rb_remaining :: "read_buffer \<Rightarrow> nat" where
  "rb_remaining b = (case rb_target b of Some t \<Rightarrow> t - length (rb_buffer b) | None \<Rightarrow> 0)"

definition rb_extend :: "bytes \<Rightarrow> read_buffer \<Rightarrow> read_buffer" where
  "rb_extend data b = b\<lparr>rb_buffer := rb_buffer b @ data\<rparr>"

definition rb_take :: "read_buffer \<Rightarrow> bytes \<times> read_buffer" where
  "rb_take b = (rb_buffer b, b\<lparr>rb_target := None, rb_buffer := []\<rparr>)"

definition rb_take_exact :: "nat \<Rightarrow> read_buffer \<Rightarrow> bytes option \<times> read_buffer" where
  "rb_take_exact n b =
     (if length (rb_buffer b) \<ge> n then (Some (take n (rb_buffer b)), b\<lparr>rb_buffer := drop n (rb_buffer b)\<rparr>)
      else (None, b))"

definition rb_clear :: "read_buffer \<Rightarrow> read_buffer" where
  "rb_clear b = b\<lparr>rb_buffer := [], rb_target := None\<rparr>"

definition rb_set_target :: "nat \<Rightarrow> read_buffer \<Rightarrow> read_buffer" where
  "rb_set_target t b = b\<lparr>rb_target := Some t\<rparr>"

subsection \<open>Write buffer\<close>

record write_buffer =
  wb_buffer :: bytes
  wb_position :: nat
  wb_max_size :: nat

definition wb_with_max_size :: "nat \<Rightarrow> write_buffer" where
  "wb_with_max_size mx = \<lparr>wb_buffer = [], wb_position = 0, wb_max_size = mx\<rparr>"

definition wb_new :: write_buffer where
  "wb_new = wb_with_max_size (256 * 1024)"

definition wb_len :: "write_buffer \<Rightarrow> nat" where
  "wb_len b = length (wb_buffer b) - wb_position b"

definition wb_is_empty :: "write_buffer \<Rightarrow> bool" where
  "wb_is_empty b \<longleftrightarrow> wb_position b \<ge> length (wb_buffer b)"

definition wb_is_full :: "write_buffer \<Rightarrow> bool" where
  "wb_is_full b \<longleftrightarrow> length (wb_buffer b) \<ge> wb_max_size b"

definition wb_remaining_capacity :: "write_buffer \<Rightarrow> nat" where
  "wb_remaining_capacity b = wb_max_size b - length (wb_buffer b)"

definition wb_extend :: "bytes \<Rightarrow> write_buffer \<Rightarrow> bool \<times> write_buffer" where
  "wb_extend data b =
     (if length (wb_buffer b) + length data > wb_max_size b then (False, b)
      else (True, b\<lparr>wb_buffer := wb_buffer b @ data\<rparr>))"

definition wb_pending :: "write_buffer \<Rightarrow> bytes" where
  "wb_pending b = drop (wb_position b) (wb_buffer b)"

definition wb_advance :: "nat \<Rightarrow> write_buffer \<Rightarrow> write_buffer" where
  "wb_advance n b =
     (let b1 = b\<lparr>wb_position := wb_position b + n\<rparr>
      in if wb_position b1 \<ge> length (wb_buffer b1) then b1\<lparr>wb_buffer := [], wb_position := 0\<rparr> else b1)"

definition wb_clear :: "write_buffer \<Rightarrow> write_buffer" where
  "wb_clear b = b\<lparr>wb_buffer := [], wb_position := 0\<rparr>"

subsection \<open>Header buffer\<close>

text \<open>The size of the array is \<open>length (hb_data h)\<close>. Reading into the unfilled part writes its front.\<close>

record header_buffer =
  hb_data :: bytes
  hb_filled :: nat

definition hb_new :: "nat \<Rightarrow> header_buffer" where
  "hb_new n = \<lparr>hb_data = replicate n 0, hb_filled = 0\<rparr>"

definition hb_remaining :: "header_buffer \<Rightarrow> nat" where
  "hb_remaining h = length (hb_data h) - hb_filled h"

definition hb_read_into :: "bytes \<Rightarrow> header_buffer \<Rightarrow> header_buffer" where
  "hb_read_into bs h = h\<lparr>hb_data := splice (hb_data h) (hb_filled h) bs\<rparr>"

definition hb_advance :: "nat \<Rightarrow> header_buffer \<Rightarrow> header_buffer" where
  "hb_advance n h = h\<lparr>hb_filled := min (hb_filled h + n) (length (hb_data h))\<rparr>"

definition hb_is_complete :: "header_buffer \<Rightarrow> bool" where
  "hb_is_complete h \<longleftrightarrow> hb_filled h \<ge> length (hb_data h)"

definition hb_as_slice :: "header_buffer \<Rightarrow> bytes" where
  "hb_as_slice h = take (hb_filled h) (hb_data h)"

text \<open>\<open>as_array\<close> panics on an incomplete buffer.\<close>

definition hb_as_array :: "header_buffer \<Rightarrow> bytes option" where
  "hb_as_array h = (if hb_is_complete h then Some (hb_data h) else None)"

definition hb_take :: "header_buffer \<Rightarrow> bytes \<times> header_buffer" where
  "hb_take h = (hb_data h, \<lparr>hb_data = replicate (length (hb_data h)) 0, hb_filled = 0\<rparr>)"

definition hb_reset :: "header_buffer \<Rightarrow> header_buffer" where
  "hb_reset h = h\<lparr>hb_filled := 0\<rparr>"

subsection \<open>Yield buffer\<close>

record yield_buffer =
  yb_data :: bytes
  yb_position :: nat

definition yb_new :: "bytes \<Rightarrow> yield_buffer" where
  "yb_new data = \<lparr>yb_data = data, yb_position = 0\<rparr>"

definition yb_is_empty :: "yield_buffer \<Rightarrow> bool" where
  "yb_is_empty b \<longleftrightarrow> yb_position b \<ge> length (yb_data b)"

definition yb_remaining :: "yield_buffer \<Rightarrow> nat" where
  "yb_remaining b = length (yb_data b) - yb_position b"

definition yb_as_slice :: "yield_buffer \<Rightarrow> bytes" where
  "yb_as_slice b = drop (yb_position b) (yb_data b)"

text \<open>The argument is the length of the destination; the bytes copied are returned.\<close>

definition yb_copy_to :: "nat \<Rightarrow> yield_buffer \<Rightarrow> bytes \<times> yield_buffer" where
  "yb_copy_to dst b =
     (let available = drop (yb_position b) (yb_data b); to_copy = min (length available) dst
      in (take to_copy available, b\<lparr>yb_position := yb_position b + to_copy\<rparr>))"

subsection \<open>Laws\<close>

lemma wb_advance_pending: "n \<le> length (wb_pending b) \<Longrightarrow> wb_pending (wb_advance n b) = drop n (wb_pending b)"
  by (auto simp: wb_pending_def wb_advance_def Let_def add.commute)

lemma wb_is_empty_pending: "wb_is_empty b \<longleftrightarrow> wb_pending b = []"
  by (simp add: wb_is_empty_def wb_pending_def)

lemma wb_advance_less:
  "\<not> wb_is_empty b \<Longrightarrow> 0 < n \<Longrightarrow> length (wb_pending (wb_advance n b)) < length (wb_pending b)"
  by (auto simp: wb_pending_def wb_advance_def wb_is_empty_def Let_def)

lemma wb_fresh_pending: "length data \<le> mx \<Longrightarrow> wb_pending (snd (wb_extend data (wb_with_max_size mx))) = data"
  by (simp add: wb_extend_def wb_with_max_size_def wb_pending_def)

definition hb_ok :: "nat \<Rightarrow> header_buffer \<Rightarrow> bool" where
  "hb_ok n h \<longleftrightarrow> length (hb_data h) = n \<and> hb_filled h \<le> n"

lemma hb_new_ok [simp]: "hb_ok n (hb_new n)" "hb_as_slice (hb_new n) = []"
  by (simp_all add: hb_ok_def hb_new_def hb_as_slice_def)

lemma hb_fill:
  assumes "hb_ok n h" and "length bs \<le> hb_remaining h"
  shows "hb_ok n (hb_advance (length bs) (hb_read_into bs h)) \<and>
    hb_as_slice (hb_advance (length bs) (hb_read_into bs h)) = hb_as_slice h @ bs"
  using assms by (auto simp: hb_ok_def hb_remaining_def hb_advance_def hb_read_into_def hb_as_slice_def splice_def min_def)

lemma hb_complete_slice: "hb_ok n h \<Longrightarrow> hb_is_complete h \<Longrightarrow> hb_as_slice h = hb_data h \<and> length (hb_data h) = n"
  by (simp add: hb_ok_def hb_is_complete_def hb_as_slice_def)

lemma hb_remaining_slice: "hb_ok n h \<Longrightarrow> hb_remaining h = n - length (hb_as_slice h)"
  by (simp add: hb_ok_def hb_remaining_def hb_as_slice_def)

lemma yb_copy: "fst (yb_copy_to k b) @ yb_as_slice (snd (yb_copy_to k b)) = yb_as_slice b"
  using append_take_drop_id [of "min (length (yb_as_slice b)) k" "yb_as_slice b"]
  by (simp add: yb_copy_to_def yb_as_slice_def Let_def add.commute)

lemma yb_copy_length: "length (fst (yb_copy_to k b)) = min (length (yb_as_slice b)) k"
  by (simp add: yb_copy_to_def yb_as_slice_def Let_def)

lemma yb_empty_slice: "yb_is_empty b \<longleftrightarrow> yb_as_slice b = []"
  by (simp add: yb_is_empty_def yb_as_slice_def)

end
