(* ===== verification/Async_Stream.thy ===== *)
theory Async_Stream
  imports Stream_State
begin

section \<open>Polled byte streams\<close>

text \<open>
  The interface between the stream wrappers: the traits \<^verbatim>\<open>AsyncRead\<close> and \<^verbatim>\<open>AsyncWrite\<close> of tokio as records of
  operations, and their documented contracts as locales. A wrapper takes the operations of
  the stream under it as an argument and offers operations of its own, so that wrappers
  stack. A call that panics or does not return is \<open>None\<close>.
\<close>

datatype 'a io_poll = Pending | Ready "io_error_kind + 'a"

record 'u async_write =
  aw_write :: "bytes \<Rightarrow> 'u \<Rightarrow> (nat io_poll \<times> 'u) option"
  aw_flush :: "'u \<Rightarrow> (unit io_poll \<times> 'u) option"
  aw_shutdown :: "'u \<Rightarrow> (unit io_poll \<times> 'u) option"

text \<open>A read is given the room in the buffer and returns the bytes it filled in.\<close>

record 'u async_read =
  ar_read :: "nat \<Rightarrow> 'u \<Rightarrow> (bytes io_poll \<times> 'u) option"

subsection \<open>Sinks\<close>

text \<open>
  \<open>taken u\<close> is every byte the sink has accepted and \<open>good\<close> the states in which it works. A write
  accepts a front part of its argument or is put off; an error, or a write of nothing, happens
  only to a sink that \<open>fails\<close>.
\<close>

locale byte_sink =
  fixes U :: "'u async_write"
    and taken :: "'u \<Rightarrow> bytes"
    and good :: "'u \<Rightarrow> bool"
    and fails :: bool
  assumes write_returns: "good u \<Longrightarrow> aw_write U data u \<noteq> None"
    and write_ok: "good u \<Longrightarrow> aw_write U data u = Some (Ready (Inr n), u') \<Longrightarrow>
          good u' \<and> n \<le> length data \<and> taken u' = taken u @ take n data"
    and write_pending: "good u \<Longrightarrow> aw_write U data u = Some (Pending, u') \<Longrightarrow> good u' \<and> taken u' = taken u"
    and write_some: "good u \<Longrightarrow> aw_write U data u = Some (Ready (Inr 0), u') \<Longrightarrow> data \<noteq> [] \<Longrightarrow> fails"
    and write_fails: "good u \<Longrightarrow> aw_write U data u = Some (Ready (Inl e), u') \<Longrightarrow> fails"
    and flush_returns: "good u \<Longrightarrow> aw_flush U u \<noteq> None"
    and flush_ok: "good u \<Longrightarrow> aw_flush U u = Some (Ready (Inr x), u') \<Longrightarrow> good u' \<and> taken u' = taken u"
    and flush_pending: "good u \<Longrightarrow> aw_flush U u = Some (Pending, u') \<Longrightarrow> good u' \<and> taken u' = taken u"
    and flush_fails: "good u \<Longrightarrow> aw_flush U u = Some (Ready (Inl e), u') \<Longrightarrow> fails"

text \<open>A client of a sink makes calls until one fails; what the sink reported as written counts.\<close>

datatype write_call = Call_Write bytes | Call_Flush

fun make_call :: "'u async_write \<Rightarrow> write_call \<Rightarrow> 'u \<Rightarrow> (bytes \<times> 'u) option" where
  "make_call U (Call_Write data) u =
     (case aw_write U data u of
        Some (Ready (Inr n), u') \<Rightarrow> Some (take n data, u')
      | Some (Pending, u') \<Rightarrow> Some ([], u')
      | _ \<Rightarrow> None)"
| "make_call U Call_Flush u =
     (case aw_flush U u of
        Some (Ready (Inr _), u') \<Rightarrow> Some ([], u')
      | Some (Pending, u') \<Rightarrow> Some ([], u')
      | _ \<Rightarrow> None)"

fun make_calls :: "'u async_write \<Rightarrow> write_call list \<Rightarrow> 'u \<Rightarrow> (bytes \<times> 'u) option" where
  "make_calls U [] u = Some ([], u)"
| "make_calls U (c # cs) u =
     (case make_call U c u of
        None \<Rightarrow> None
      | Some (a, u1) \<Rightarrow> (case make_calls U cs u1 of None \<Rightarrow> None | Some (b, u2) \<Rightarrow> Some (a @ b, u2)))"

context byte_sink
begin

lemma make_call_taken: "good u \<Longrightarrow> make_call U c u = Some (a, u') \<Longrightarrow> good u' \<and> taken u' = taken u @ a"
  by (cases c) (auto dest: write_ok write_pending flush_ok flush_pending split: option.splits io_poll.splits sum.splits)

lemma make_calls_taken: "good u \<Longrightarrow> make_calls U cs u = Some (a, u') \<Longrightarrow> good u' \<and> taken u' = taken u @ a"
proof (induction cs arbitrary: u a)
  case (Cons c cs)
  then obtain a1 u1 a2 where "make_call U c u = Some (a1, u1)" "make_calls U cs u1 = Some (a2, u')" "a = a1 @ a2"
    by (auto split: option.splits prod.splits)
  with make_call_taken [OF Cons.prems(1)] Cons.IH show ?case by fastforce
qed simp

lemma make_call_succeeds: "good u \<Longrightarrow> \<not> fails \<Longrightarrow> make_call U c u \<noteq> None"
  using write_returns write_fails flush_returns flush_fails
  by (cases c) (fastforce split: option.splits io_poll.splits sum.splits)+

lemma make_calls_succeed: "good u \<Longrightarrow> \<not> fails \<Longrightarrow> make_calls U cs u \<noteq> None"
proof (induction cs arbitrary: u)
  case (Cons c cs)
  obtain a u1 where c: "make_call U c u = Some (a, u1)" using make_call_succeeds [OF Cons.prems, of c] by auto
  from make_call_taken [OF Cons.prems(1) c] Cons.IH [of u1] Cons.prems(2) show ?case using c by auto
qed simp

end

subsection \<open>Sources\<close>

text \<open>
  \<open>left u\<close> is every byte still to come. A read returns a front part of it, and nothing only at
  the end of the stream.
\<close>

locale byte_source =
  fixes R :: "'u async_read"
    and left :: "'u \<Rightarrow> bytes"
    and good :: "'u \<Rightarrow> bool"
    and fails :: bool
  assumes read_returns: "good u \<Longrightarrow> ar_read R n u \<noteq> None"
    and read_ok: "good u \<Longrightarrow> ar_read R n u = Some (Ready (Inr bs), u') \<Longrightarrow>
          good u' \<and> length bs \<le> n \<and> left u = bs @ left u' \<and> (bs = [] \<longrightarrow> n = 0 \<or> left u = [])"
    and read_pending: "good u \<Longrightarrow> ar_read R n u = Some (Pending, u') \<Longrightarrow> good u' \<and> left u' = left u"
    and read_fails: "good u \<Longrightarrow> ar_read R n u = Some (Ready (Inl e), u') \<Longrightarrow> fails"

fun make_read :: "'u async_read \<Rightarrow> nat \<Rightarrow> 'u \<Rightarrow> (bytes \<times> 'u) option" where
  "make_read R n u =
     (case ar_read R n u of
        Some (Ready (Inr bs), u') \<Rightarrow> Some (bs, u')
      | Some (Pending, u') \<Rightarrow> Some ([], u')
      | _ \<Rightarrow> None)"

fun make_reads :: "'u async_read \<Rightarrow> nat list \<Rightarrow> 'u \<Rightarrow> (bytes \<times> 'u) option" where
  "make_reads R [] u = Some ([], u)"
| "make_reads R (n # ns) u =
     (case make_read R n u of
        None \<Rightarrow> None
      | Some (a, u1) \<Rightarrow> (case make_reads R ns u1 of None \<Rightarrow> None | Some (b, u2) \<Rightarrow> Some (a @ b, u2)))"

context byte_source
begin

lemma make_read_left: "good u \<Longrightarrow> make_read R n u = Some (a, u') \<Longrightarrow> good u' \<and> left u = a @ left u'"
  using read_ok [of u n a u'] read_pending [of u n u'] by (auto split: option.splits io_poll.splits sum.splits)

lemma make_reads_left: "good u \<Longrightarrow> make_reads R ns u = Some (a, u') \<Longrightarrow> good u' \<and> left u = a @ left u'"
proof (induction ns arbitrary: u a)
  case (Cons n ns)
  then obtain a1 u1 a2 where "make_read R n u = Some (a1, u1)" "make_reads R ns u1 = Some (a2, u')" "a = a1 @ a2"
    by (auto split: option.splits prod.splits simp del: make_read.simps)
  with make_read_left [OF Cons.prems(1)] Cons.IH show ?case by fastforce
qed simp

lemma make_reads_succeed: "good u \<Longrightarrow> \<not> fails \<Longrightarrow> make_reads R ns u \<noteq> None"
proof (induction ns arbitrary: u)
  case (Cons n ns)
  have "make_read R n u \<noteq> None"
    using read_returns [OF Cons.prems(1), of n] read_fails [OF Cons.prems(1)] Cons.prems(2)
    by (fastforce split: option.splits io_poll.splits sum.splits)
  then obtain a u1 where c: "make_read R n u = Some (a, u1)" by auto
  from make_read_left [OF Cons.prems(1) c] Cons.IH [of u1] Cons.prems(2) show ?case using c by (auto simp del: make_read.simps)
qed simp

end

subsection \<open>Sockets\<close>

text \<open>
  A socket as the wrappers see it: a script of what happens at each call. \<open>Io_Some k\<close> lets
  at most \<open>k + 1\<close> bytes through; when the script is over, nothing more happens.
\<close>

datatype io_event = Io_Some nat | Io_Block | Io_Fail io_error_kind

record socket =
  sk_script :: "io_event list"
  sk_bytes :: bytes

definition next_event :: "socket \<Rightarrow> io_event \<times> socket" where
  "next_event s = (case sk_script s of [] \<Rightarrow> (Io_Block, s) | e # es \<Rightarrow> (e, s\<lparr>sk_script := es\<rparr>))"

definition sock_write :: "bytes \<Rightarrow> socket \<Rightarrow> (nat io_poll \<times> socket) option" where
  "sock_write data s =
     Some (case next_event s of
        (Io_Some k, s1) \<Rightarrow> let n = min (Suc k) (length data) in (Ready (Inr n), s1\<lparr>sk_bytes := sk_bytes s1 @ take n data\<rparr>)
      | (Io_Block, s1) \<Rightarrow> (Pending, s1)
      | (Io_Fail e, s1) \<Rightarrow> (Ready (Inl e), s1))"

definition sock_idle :: "socket \<Rightarrow> (unit io_poll \<times> socket) option" where
  "sock_idle s =
     Some (case next_event s of
        (Io_Some k, s1) \<Rightarrow> (Ready (Inr ()), s1)
      | (Io_Block, s1) \<Rightarrow> (Pending, s1)
      | (Io_Fail e, s1) \<Rightarrow> (Ready (Inl e), s1))"

definition sock_read :: "nat \<Rightarrow> socket \<Rightarrow> (bytes io_poll \<times> socket) option" where
  "sock_read n s =
     Some (case next_event s of
        (Io_Some k, s1) \<Rightarrow> let m = min (Suc k) n in (Ready (Inr (take m (sk_bytes s1))), s1\<lparr>sk_bytes := drop m (sk_bytes s1)\<rparr>)
      | (Io_Block, s1) \<Rightarrow> (Pending, s1)
      | (Io_Fail e, s1) \<Rightarrow> (Ready (Inl e), s1))"

definition sock_sink :: "socket async_write" where
  "sock_sink = \<lparr>aw_write = sock_write, aw_flush = sock_idle, aw_shutdown = sock_idle\<rparr>"

definition sock_source :: "socket async_read" where
  "sock_source = \<lparr>ar_read = sock_read\<rparr>"

definition sock_good :: "socket \<Rightarrow> bool" where
  "sock_good s \<longleftrightarrow> (\<forall>e\<in>set (sk_script s). case e of Io_Fail _ \<Rightarrow> False | _ \<Rightarrow> True)"

lemma next_eventD: "next_event s = (e, s') \<Longrightarrow> sk_bytes s' = sk_bytes s"
  by (auto simp: next_event_def split: list.splits)

lemma next_event_good: "sock_good s \<Longrightarrow> next_event s = (e, s') \<Longrightarrow> sock_good s' \<and> (\<forall>k. e \<noteq> Io_Fail k)"
  by (auto simp: sock_good_def next_event_def split: list.splits)

lemma sock_good_bytes [simp]: "sock_good (s\<lparr>sk_bytes := bs\<rparr>) = sock_good s"
  by (simp add: sock_good_def)

interpretation sock_out: byte_sink sock_sink sk_bytes sock_good False
  by unfold_locales (auto simp: sock_sink_def sock_write_def sock_idle_def Let_def min_def
      split: prod.splits io_event.splits if_splits dest: next_eventD next_event_good)

interpretation sock_in: byte_source sock_source sk_bytes sock_good False
proof (unfold_locales, goal_cases)
  case (2 u n bs u')
  then obtain k s1 where "next_event u = (Io_Some k, s1)" and "bs = take (min (Suc k) n) (sk_bytes s1)"
      and "u' = s1\<lparr>sk_bytes := drop (min (Suc k) n) (sk_bytes s1)\<rparr>"
    by (auto simp: sock_source_def sock_read_def Let_def split: prod.splits io_event.splits)
  then show ?case using next_eventD [of u] next_event_good [OF 2(1)] by auto
qed (auto simp: sock_source_def sock_read_def Let_def split: prod.splits io_event.splits dest: next_eventD next_event_good)

end
