(* ===== verification/Cipher_Stream.thy ===== *)
theory Cipher_Stream
  imports Async_Stream Aes_Modes
begin

section \<open>The encrypting stream wrappers\<close>

text \<open>
  \<^verbatim>\<open>src/src/stream/crypto_stream.rs\<close>: the reader that decrypts what it reads and the writer that
  encrypts what it is given and keeps the ciphertext the stream under it did not take. The
  statements of its module comment are theorems here: the cipher never drifts, what was
  accepted is sent or pending, and the pending ciphertext is bounded.
\<close>

abbreviation (input) "DEFAULT_MAX_PENDING_WRITE \<equiv> (65536 :: nat)"
abbreviation (input) "COMPACT_THRESHOLD \<equiv> (16384 :: nat)"

subsection \<open>The reader\<close>

datatype cr_state = Cr_Idle | Cr_Yielding yield_buffer | Cr_Poisoned "io_error_kind option"

record 'u crypto_reader =
  cr_upstream :: 'u
  cr_decryptor :: aes_ctr
  cr_state :: cr_state

definition cr_new :: "'u \<Rightarrow> aes_ctr \<Rightarrow> 'u crypto_reader" where
  "cr_new upstream decryptor = \<lparr>cr_upstream = upstream, cr_decryptor = decryptor, cr_state = Cr_Idle\<rparr>"

definition cr_is_poisoned :: "'u crypto_reader \<Rightarrow> bool" where
  "cr_is_poisoned r = (case cr_state r of Cr_Poisoned _ \<Rightarrow> True | _ \<Rightarrow> False)"

definition cr_take_poison_error :: "'u crypto_reader \<Rightarrow> io_error_kind \<times> 'u crypto_reader" where
  "cr_take_poison_error r =
     (case cr_state r of
        Cr_Poisoned error \<Rightarrow> (case error of Some e \<Rightarrow> e | None \<Rightarrow> IO_Other, r\<lparr>cr_state := Cr_Poisoned None\<rparr>)
      | _ \<Rightarrow> (IO_Other, r))"

definition yield_state :: "yield_buffer \<Rightarrow> cr_state" where
  "yield_state buffer = (if yb_is_empty buffer then Cr_Idle else Cr_Yielding buffer)"

definition cr_poll_read ::
  "keystream \<Rightarrow> 'u async_read \<Rightarrow> nat \<Rightarrow> 'u crypto_reader \<Rightarrow> (bytes io_poll \<times> 'u crypto_reader) option" where
  "cr_poll_read ks R room r =
     (case cr_state r of
        Cr_Poisoned _ \<Rightarrow> (let (err, r1) = cr_take_poison_error r in Some (Ready (Inl err), r1))
      | Cr_Yielding buffer \<Rightarrow>
          if room = 0 then Some (Ready (Inr []), r)
          else let to_copy = min (yb_remaining buffer) room;
                   (copied, buffer1) = yb_copy_to to_copy buffer
               in Some (Ready (Inr copied), r\<lparr>cr_state := yield_state buffer1\<rparr>)
      | Cr_Idle \<Rightarrow>
          if room = 0 then Some (Ready (Inr []), r)
          else case ar_read R room (cr_upstream r) of
                 None \<Rightarrow> None
               | Some (Pending, u) \<Rightarrow> Some (Pending, r\<lparr>cr_upstream := u\<rparr>)
               | Some (Ready (Inl e), u) \<Rightarrow> Some (Ready (Inl e), r\<lparr>cr_upstream := u, cr_state := Cr_Poisoned (Some e)\<rparr>)
               | Some (Ready (Inr filled), u) \<Rightarrow>
                   if filled = [] then Some (Ready (Inr []), r\<lparr>cr_upstream := u\<rparr>)
                   else let (plain, decryptor1) = ctr_apply ks (cr_decryptor r) filled
                        in Some (Ready (Inr plain), r\<lparr>cr_upstream := u, cr_decryptor := decryptor1\<rparr>))"

definition cipher_source :: "keystream \<Rightarrow> 'u async_read \<Rightarrow> 'u crypto_reader async_read" where
  "cipher_source ks R = \<lparr>ar_read = cr_poll_read ks R\<rparr>"

text \<open>Awaiting a read polls until the stream is ready, which need not happen.\<close>

partial_function (option) await_read ::
  "'u async_read \<Rightarrow> nat \<Rightarrow> 'u \<Rightarrow> ((io_error_kind + bytes) \<times> 'u) option" where
  "await_read R n u =
     (case ar_read R n u of
        None \<Rightarrow> None
      | Some (p, u1) \<Rightarrow> (case p of Ready x \<Rightarrow> Some (x, u1) | Pending \<Rightarrow> await_read R n u1))"

partial_function (option) read_up_to ::
  "'u async_read \<Rightarrow> nat \<Rightarrow> bytes \<Rightarrow> 'u \<Rightarrow> ((io_error_kind + bytes) \<times> 'u) option" where
  "read_up_to R n result u =
     (if length result < n
      then (case await_read R (n - length result) u of
              None \<Rightarrow> None
            | Some (x, u1) \<Rightarrow>
                (case x of
                   Inl e \<Rightarrow> Some (Inl e, u1)
                 | Inr bs \<Rightarrow> if bs = [] then Some (Inl IO_UnexpectedEof, u1) else read_up_to R n (result @ bs) u1))
      else Some (Inr result, u))"

definition cr_read_exact_decrypt ::
  "keystream \<Rightarrow> 'u async_read \<Rightarrow> nat \<Rightarrow> 'u crypto_reader \<Rightarrow> ((io_error_kind + bytes) \<times> 'u crypto_reader) option" where
  "cr_read_exact_decrypt ks R n r =
     (if cr_is_poisoned r then (let (err, r1) = cr_take_poison_error r in Some (Inl err, r1))
      else case cr_state r of
             Cr_Yielding buffer \<Rightarrow>
               (let to_take = min (yb_remaining buffer) n;
                    (temp, buffer1) = yb_copy_to to_take buffer
                in read_up_to (cipher_source ks R) n temp
                     (r\<lparr>cr_state := yield_state buffer1\<rparr>))
           | _ \<Rightarrow> read_up_to (cipher_source ks R) n [] r)"

definition cr_read_decrypt ::
  "keystream \<Rightarrow> 'u async_read \<Rightarrow> nat \<Rightarrow> 'u crypto_reader \<Rightarrow> ((io_error_kind + bytes) \<times> 'u crypto_reader) option" where
  "cr_read_decrypt ks R max_size r =
     (if cr_is_poisoned r then (let (err, r1) = cr_take_poison_error r in Some (Inl err, r1))
      else case cr_state r of
             Cr_Yielding buffer \<Rightarrow>
               (let to_take = min (yb_remaining buffer) max_size;
                    (temp, buffer1) = yb_copy_to to_take buffer
                in Some (Inr temp, r\<lparr>cr_state := yield_state buffer1\<rparr>))
           | _ \<Rightarrow> await_read (cipher_source ks R) max_size r)"

subsection \<open>Pending ciphertext\<close>

record pending_ciphertext =
  pd_buf :: bytes
  pd_pos :: nat
  pd_max_len :: nat

definition pd_new :: "nat \<Rightarrow> pending_ciphertext" where
  "pd_new max_len = \<lparr>pd_buf = [], pd_pos = 0, pd_max_len = max_len\<rparr>"

definition pd_pending_len :: "pending_ciphertext \<Rightarrow> nat" where
  "pd_pending_len p = length (pd_buf p) - pd_pos p"

definition pd_is_empty :: "pending_ciphertext \<Rightarrow> bool" where
  "pd_is_empty p \<longleftrightarrow> pd_pending_len p = 0"

definition pd_slice :: "pending_ciphertext \<Rightarrow> bytes" where
  "pd_slice p = drop (pd_pos p) (pd_buf p)"

definition pd_remaining_capacity :: "pending_ciphertext \<Rightarrow> nat" where
  "pd_remaining_capacity p = pd_max_len p - pd_pending_len p"

definition pd_compact :: "pending_ciphertext \<Rightarrow> pending_ciphertext" where
  "pd_compact p =
     (if pd_pos p = 0 then p
      else if pd_pos p \<ge> length (pd_buf p) then p\<lparr>pd_buf := [], pd_pos := 0\<rparr>
      else p\<lparr>pd_buf := drop (pd_pos p) (pd_buf p), pd_pos := 0\<rparr>)"

definition pd_advance :: "nat \<Rightarrow> pending_ciphertext \<Rightarrow> pending_ciphertext" where
  "pd_advance n p =
     (let p1 = p\<lparr>pd_pos := min (pd_pos p + n) (length (pd_buf p))\<rparr>
      in if pd_pos p1 = length (pd_buf p1) then pd_compact p1
         else if pd_pos p1 \<ge> COMPACT_THRESHOLD then pd_compact p1
         else p1)"

definition pd_replace_with :: "bytes \<Rightarrow> pending_ciphertext \<Rightarrow> pending_ciphertext" where
  "pd_replace_with src p = p\<lparr>pd_buf := src, pd_pos := 0\<rparr>"

definition pd_push_encrypted ::
  "keystream \<Rightarrow> aes_ctr \<Rightarrow> bytes \<Rightarrow> pending_ciphertext \<Rightarrow> (io_error_kind + unit) \<times> aes_ctr \<times> pending_ciphertext" where
  "pd_push_encrypted ks encryptor plaintext p =
     (if plaintext = [] then (Inr (), encryptor, p)
      else if length plaintext > pd_remaining_capacity p then (Inl IO_WouldBlock, encryptor, p)
      else let p1 = (if pd_pos p > 0 \<and> length (pd_buf p) + length plaintext > pd_max_len p then pd_compact p else p);
               (ciphertext, encryptor1) = ctr_apply ks encryptor plaintext
           in (Inr (), encryptor1, p1\<lparr>pd_buf := pd_buf p1 @ ciphertext\<rparr>))"

subsection \<open>The writer\<close>

datatype cw_state = Cw_Idle | Cw_Flushing pending_ciphertext | Cw_Poisoned "io_error_kind option"

record 'u crypto_writer =
  cw_upstream :: 'u
  cw_encryptor :: aes_ctr
  cw_state :: cw_state
  cw_scratch :: bytes
  cw_max_pending_write :: nat

definition cw_new :: "'u \<Rightarrow> aes_ctr \<Rightarrow> nat \<Rightarrow> 'u crypto_writer" where
  "cw_new upstream encryptor max_pending_write =
     (let max_pending = (if max_pending_write = 0 then DEFAULT_MAX_PENDING_WRITE else max_pending_write)
      in \<lparr>cw_upstream = upstream, cw_encryptor = encryptor, cw_state = Cw_Idle, cw_scratch = [],
          cw_max_pending_write = max max_pending 4096\<rparr>)"

definition cw_is_poisoned :: "'u crypto_writer \<Rightarrow> bool" where
  "cw_is_poisoned w = (case cw_state w of Cw_Poisoned _ \<Rightarrow> True | _ \<Rightarrow> False)"

definition cw_has_pending :: "'u crypto_writer \<Rightarrow> bool" where
  "cw_has_pending w = (case cw_state w of Cw_Flushing _ \<Rightarrow> True | _ \<Rightarrow> False)"

definition cw_pending_len :: "'u crypto_writer \<Rightarrow> nat" where
  "cw_pending_len w = (case cw_state w of Cw_Flushing p \<Rightarrow> pd_pending_len p | _ \<Rightarrow> 0)"

definition cw_take_poison_error :: "'u crypto_writer \<Rightarrow> io_error_kind \<times> 'u crypto_writer" where
  "cw_take_poison_error w =
     (case cw_state w of
        Cw_Poisoned error \<Rightarrow> (case error of Some e \<Rightarrow> e | None \<Rightarrow> IO_Other, w\<lparr>cw_state := Cw_Poisoned None\<rparr>)
      | _ \<Rightarrow> (IO_Other, w))"

text \<open>\<open>None\<close> is the \<open>unreachable!\<close> of the source.\<close>

definition ensure_pending :: "cw_state \<Rightarrow> nat \<Rightarrow> pending_ciphertext option" where
  "ensure_pending state max_pending =
     (case state of Cw_Idle \<Rightarrow> Some (pd_new max_pending) | Cw_Flushing p \<Rightarrow> Some p | Cw_Poisoned _ \<Rightarrow> None)"

definition select_to_accept_for_buffering :: "cw_state \<Rightarrow> nat \<Rightarrow> nat \<Rightarrow> nat" where
  "select_to_accept_for_buffering state buf_len max_pending =
     (if buf_len = 0 then 0
      else case state of
             Cw_Flushing p \<Rightarrow> min buf_len (pd_remaining_capacity p)
           | Cw_Idle \<Rightarrow> min buf_len max_pending
           | Cw_Poisoned _ \<Rightarrow> 0)"

lemma pd_advance_less:
  "\<not> pd_is_empty p \<Longrightarrow> 0 < n \<Longrightarrow> pd_pending_len (pd_advance n p) < pd_pending_len p"
  by (auto simp: pd_is_empty_def pd_pending_len_def pd_advance_def pd_compact_def Let_def)

function cw_poll_flush_pending ::
  "'u async_write \<Rightarrow> 'u crypto_writer \<Rightarrow> (unit io_poll \<times> 'u crypto_writer) option" where
  "cw_poll_flush_pending U w =
     (case cw_state w of
        Cw_Poisoned _ \<Rightarrow> (let (err, w1) = cw_take_poison_error w in Some (Ready (Inl err), w1))
      | Cw_Idle \<Rightarrow> Some (Ready (Inr ()), w)
      | Cw_Flushing p \<Rightarrow>
          if pd_is_empty p then Some (Ready (Inr ()), w\<lparr>cw_state := Cw_Idle\<rparr>)
          else case aw_write U (pd_slice p) (cw_upstream w) of
                 None \<Rightarrow> None
               | Some (Pending, u) \<Rightarrow> Some (Pending, w\<lparr>cw_upstream := u\<rparr>)
               | Some (Ready (Inl e), u) \<Rightarrow> Some (Ready (Inl e), w\<lparr>cw_upstream := u, cw_state := Cw_Poisoned (Some e)\<rparr>)
               | Some (Ready (Inr n), u) \<Rightarrow>
                   if n = 0 then Some (Ready (Inl IO_WriteZero), w\<lparr>cw_upstream := u, cw_state := Cw_Poisoned (Some IO_WriteZero)\<rparr>)
                   else cw_poll_flush_pending U (w\<lparr>cw_upstream := u, cw_state := Cw_Flushing (pd_advance n p)\<rparr>))"
  by pat_completeness auto
termination
  by (relation "measure (\<lambda>(U, w). cw_pending_len w)") (auto simp: cw_pending_len_def intro: pd_advance_less)

declare cw_poll_flush_pending.simps [simp del]

text \<open>The write-through path, taken when nothing is pending.\<close>

definition cw_write_through ::
  "keystream \<Rightarrow> 'u async_write \<Rightarrow> bytes \<Rightarrow> 'u crypto_writer \<Rightarrow> (nat io_poll \<times> 'u crypto_writer) option" where
  "cw_write_through ks U buf w =
     (let to_accept = min (length buf) (cw_max_pending_write w);
          (scratch, encryptor1) = ctr_apply ks (cw_encryptor w) (take to_accept buf);
          w1 = w\<lparr>cw_encryptor := encryptor1, cw_scratch := scratch\<rparr>
      in case aw_write U scratch (cw_upstream w1) of
           None \<Rightarrow> None
         | Some (Pending, u) \<Rightarrow>
             (case ensure_pending (cw_state w1) (cw_max_pending_write w1) of
                None \<Rightarrow> None
              | Some p \<Rightarrow> Some (Ready (Inr to_accept),
                  w1\<lparr>cw_upstream := u, cw_scratch := [], cw_state := Cw_Flushing (pd_replace_with scratch p)\<rparr>))
         | Some (Ready (Inl e), u) \<Rightarrow> Some (Ready (Inl e), w1\<lparr>cw_upstream := u, cw_state := Cw_Poisoned (Some e)\<rparr>)
         | Some (Ready (Inr n), u) \<Rightarrow>
             if n = 0 then
               Some (Ready (Inl IO_WriteZero), w1\<lparr>cw_upstream := u, cw_state := Cw_Poisoned (Some IO_WriteZero)\<rparr>)
             else if n = length scratch then Some (Ready (Inr to_accept), w1\<lparr>cw_upstream := u, cw_scratch := []\<rparr>)
             else (case ensure_pending (cw_state w1) (cw_max_pending_write w1) of
                     None \<Rightarrow> None
                   | Some p \<Rightarrow> Some (Ready (Inr to_accept),
                       w1\<lparr>cw_upstream := u, cw_scratch := [], cw_state := Cw_Flushing (pd_replace_with (drop n scratch) p)\<rparr>)))"

text \<open>The path taken when the stream under it blocks while ciphertext is pending.\<close>

definition cw_write_buffered ::
  "keystream \<Rightarrow> bytes \<Rightarrow> 'u crypto_writer \<Rightarrow> (nat io_poll \<times> 'u crypto_writer) option" where
  "cw_write_buffered ks buf w =
     (let to_accept = select_to_accept_for_buffering (cw_state w) (length buf) (cw_max_pending_write w)
      in if to_accept = 0 then Some (Pending, w)
         else case ensure_pending (cw_state w) (cw_max_pending_write w) of
                None \<Rightarrow> None
              | Some p \<Rightarrow>
                  (case pd_push_encrypted ks (cw_encryptor w) (take to_accept buf) p of
                     (Inl e, encryptor1, p1) \<Rightarrow>
                       let w1 = w\<lparr>cw_encryptor := encryptor1, cw_state := Cw_Flushing p1\<rparr>
                       in if e = IO_WouldBlock then Some (Pending, w1) else Some (Ready (Inl e), w1)
                   | (Inr _, encryptor1, p1) \<Rightarrow>
                       Some (Ready (Inr to_accept), w\<lparr>cw_encryptor := encryptor1, cw_state := Cw_Flushing p1\<rparr>)))"

definition cw_poll_write ::
  "keystream \<Rightarrow> 'u async_write \<Rightarrow> bytes \<Rightarrow> 'u crypto_writer \<Rightarrow> (nat io_poll \<times> 'u crypto_writer) option" where
  "cw_poll_write ks U buf w =
     (if cw_is_poisoned w then (let (err, w1) = cw_take_poison_error w in Some (Ready (Inl err), w1))
      else if buf = [] then Some (Ready (Inr 0), w)
      else if cw_has_pending w then
        (case cw_poll_flush_pending U w of
           None \<Rightarrow> None
         | Some (Ready (Inr _), w1) \<Rightarrow> cw_write_through ks U buf w1
         | Some (Ready (Inl e), w1) \<Rightarrow> Some (Ready (Inl e), w1)
         | Some (Pending, w1) \<Rightarrow> cw_write_buffered ks buf w1)
      else cw_write_through ks U buf w)"

definition cw_poll_flush ::
  "'u async_write \<Rightarrow> 'u crypto_writer \<Rightarrow> (unit io_poll \<times> 'u crypto_writer) option" where
  "cw_poll_flush U w =
     (if cw_is_poisoned w then (let (err, w1) = cw_take_poison_error w in Some (Ready (Inl err), w1))
      else case cw_poll_flush_pending U w of
             None \<Rightarrow> None
           | Some (Pending, w1) \<Rightarrow> Some (Pending, w1)
           | Some (Ready (Inl e), w1) \<Rightarrow> Some (Ready (Inl e), w1)
           | Some (Ready (Inr _), w1) \<Rightarrow>
               (case aw_flush U (cw_upstream w1) of
                  None \<Rightarrow> None
                | Some (p, u) \<Rightarrow> Some (p, w1\<lparr>cw_upstream := u\<rparr>)))"

definition cw_poll_shutdown ::
  "'u async_write \<Rightarrow> 'u crypto_writer \<Rightarrow> (unit io_poll \<times> 'u crypto_writer) option" where
  "cw_poll_shutdown U w =
     (case cw_poll_flush_pending U w of
        None \<Rightarrow> None
      | Some (_, w1) \<Rightarrow>
          (case aw_shutdown U (cw_upstream w1) of
             None \<Rightarrow> None
           | Some (p, u) \<Rightarrow> Some (p, w1\<lparr>cw_upstream := u\<rparr>)))"

definition cipher_sink :: "keystream \<Rightarrow> 'u async_write \<Rightarrow> 'u crypto_writer async_write" where
  "cipher_sink ks U = \<lparr>aw_write = cw_poll_write ks U, aw_flush = cw_poll_flush U, aw_shutdown = cw_poll_shutdown U\<rparr>"

subsection \<open>The contract of the writer\<close>

text \<open>
  \<open>cw_wire\<close> is the ciphertext of a writer, sent or pending, behind the bytes \<open>b0\<close> the stream had taken
  before; \<open>cw_plain\<close> is the plaintext it stands for. The invariant fixes the position of the cipher.
\<close>

definition cw_wire :: "('u \<Rightarrow> bytes) \<Rightarrow> 'u crypto_writer \<Rightarrow> bytes" where
  "cw_wire taken w = taken (cw_upstream w) @ (case cw_state w of Cw_Flushing p \<Rightarrow> pd_slice p | _ \<Rightarrow> [])"

definition advance_ctr :: "nat \<Rightarrow> aes_ctr \<Rightarrow> aes_ctr" where
  "advance_ctr n c = c\<lparr>ctr_pos := ctr_pos c + n\<rparr>"

definition pd_ok :: "nat \<Rightarrow> pending_ciphertext \<Rightarrow> bool" where
  "pd_ok mx p \<longleftrightarrow> pd_pos p \<le> length (pd_buf p) \<and> pd_pending_len p \<le> mx \<and> pd_max_len p = mx"

definition cw_inv :: "('u \<Rightarrow> bytes) \<Rightarrow> ('u \<Rightarrow> bool) \<Rightarrow> aes_ctr \<Rightarrow> bytes \<Rightarrow> 'u crypto_writer \<Rightarrow> bool" where
  "cw_inv taken good c0 b0 w \<longleftrightarrow> good (cw_upstream w) \<and> 0 < cw_max_pending_write w \<and>
     (case cw_state w of Cw_Idle \<Rightarrow> True | Cw_Flushing p \<Rightarrow> pd_ok (cw_max_pending_write w) p | Cw_Poisoned _ \<Rightarrow> False) \<and>
     take (length b0) (cw_wire taken w) = b0 \<and>
     cw_encryptor w = advance_ctr (length (cw_wire taken w) - length b0) c0"

definition cw_plain :: "keystream \<Rightarrow> ('u \<Rightarrow> bytes) \<Rightarrow> aes_ctr \<Rightarrow> bytes \<Rightarrow> 'u crypto_writer \<Rightarrow> bytes" where
  "cw_plain ks taken c0 b0 w = fst (ctr_apply ks c0 (drop (length b0) (cw_wire taken w)))"

lemma ctr_apply_snd: "snd (ctr_apply ks c d) = advance_ctr (length d) c"
  by (simp add: ctr_apply_def advance_ctr_def)

lemma advance_ctr_add [simp]: "advance_ctr m (advance_ctr n c) = advance_ctr (n + m) c" "advance_ctr 0 c = c"
  by (simp_all add: advance_ctr_def add.assoc)

lemma length_ctr [simp]: "length (fst (ctr_apply ks c d)) = length d"
  by (rule ctr_apply_length)

lemma pd_compact_slice: "pd_slice (pd_compact p) = pd_slice p" "pd_max_len (pd_compact p) = pd_max_len p"
  by (auto simp: pd_slice_def pd_compact_def)

lemma pd_pending_slice: "pd_pending_len p = length (pd_slice p)"
  by (simp add: pd_pending_len_def pd_slice_def)

lemma pd_advance_ok:
  assumes "pd_ok mx p" and "n \<le> length (pd_slice p)"
  shows "pd_ok mx (pd_advance n p) \<and> pd_slice (pd_advance n p) = drop n (pd_slice p)"
proof -
  have "pd_slice (p\<lparr>pd_pos := min (pd_pos p + n) (length (pd_buf p))\<rparr>) = drop n (pd_slice p)"
    using assms by (simp add: pd_ok_def pd_slice_def min_def add.commute)
  then have s: "pd_slice (pd_advance n p) = drop n (pd_slice p)" by (auto simp: pd_advance_def pd_compact_slice Let_def)
  moreover have "pd_pos (pd_advance n p) \<le> length (pd_buf (pd_advance n p)) \<and> pd_max_len (pd_advance n p) = pd_max_len p"
    by (auto simp: pd_advance_def pd_compact_def Let_def)
  ultimately show ?thesis using assms by (auto simp: pd_ok_def pd_pending_slice)
qed

lemma pd_push_ok:
  assumes "pd_ok mx p" and "d \<noteq> []" and "length d \<le> pd_remaining_capacity p"
  obtains p1 where "pd_push_encrypted ks c d p = (Inr (), snd (ctr_apply ks c d), p1)" "pd_ok mx p1"
    "pd_slice p1 = pd_slice p @ fst (ctr_apply ks c d)"
proof -
  let ?q = "if pd_pos p > 0 \<and> length (pd_buf p) + length d > pd_max_len p then pd_compact p else p"
  have q: "pd_slice ?q = pd_slice p" "pd_pos ?q \<le> length (pd_buf ?q)" "pd_max_len ?q = mx"
    using assms(1) by (auto simp: pd_compact_slice pd_ok_def) (auto simp: pd_compact_def)
  let ?p1 = "?q\<lparr>pd_buf := pd_buf ?q @ fst (ctr_apply ks c d)\<rparr>"
  have "pd_slice ?p1 = pd_slice p @ fst (ctr_apply ks c d)" using q(1,2) by (simp add: pd_slice_def)
  moreover have "pd_ok mx ?p1"
    using q assms(1,3) calculation by (auto simp: pd_ok_def pd_pending_slice pd_remaining_capacity_def)
  moreover have "pd_push_encrypted ks c d p = (Inr (), snd (ctr_apply ks c d), ?p1)"
    using assms(2,3) by (simp add: pd_push_encrypted_def Let_def case_prod_beta)
  ultimately show ?thesis using that by blast
qed

text \<open>What a write may return, given the plaintext \<open>pl\<close> before it.\<close>

definition write_outcome ::
  "bool \<Rightarrow> keystream \<Rightarrow> ('u \<Rightarrow> bytes) \<Rightarrow> ('u \<Rightarrow> bool) \<Rightarrow> aes_ctr \<Rightarrow> bytes \<Rightarrow> bytes \<Rightarrow> bytes \<Rightarrow> (nat io_poll \<times> 'u crypto_writer) option \<Rightarrow> bool" where
  "write_outcome fails ks taken good c0 b0 pl buf r =
     (case r of
        None \<Rightarrow> False
      | Some (Pending, w') \<Rightarrow> cw_inv taken good c0 b0 w' \<and> cw_plain ks taken c0 b0 w' = pl \<and>
          cw_pending_len w' = cw_max_pending_write w'
      | Some (Ready (Inl e), w') \<Rightarrow> fails
      | Some (Ready (Inr n), w') \<Rightarrow> n \<le> length buf \<and> (buf \<noteq> [] \<longrightarrow> 0 < n) \<and> cw_inv taken good c0 b0 w' \<and>
          cw_plain ks taken c0 b0 w' = pl @ take n buf)"

text \<open>A writer over a sink.\<close>

locale cipher_over_sink = byte_sink U taken good fails
  for U :: "'u async_write" and taken :: "'u \<Rightarrow> bytes" and good :: "'u \<Rightarrow> bool" and fails :: bool +
  fixes ks :: keystream and c0 :: aes_ctr and b0 :: bytes
begin

lemma flush_pending_step:
  assumes "cw_inv taken good c0 b0 w"
  shows "\<exists>p w'. cw_poll_flush_pending U w = Some (p, w') \<and>
    ((\<exists>e. p = Ready (Inl e)) \<and> fails \<or>
     cw_inv taken good c0 b0 w' \<and> cw_wire taken w' = cw_wire taken w \<and>
     (if p = Pending then cw_has_pending w' else p = Ready (Inr ()) \<and> cw_state w' = Cw_Idle))"
  using assms
proof (induction "cw_pending_len w" arbitrary: w rule: less_induct)
  case less
  note i = less.prems
  show ?case
  proof (cases "cw_state w")
    case Cw_Idle
    then show ?thesis using i by (subst cw_poll_flush_pending.simps) simp
  next
    case (Cw_Poisoned e)
    then show ?thesis using i by (simp add: cw_inv_def)
  next
    case (Cw_Flushing p)
    then have p: "pd_ok (cw_max_pending_write w) p" and gu: "good (cw_upstream w)" using i by (simp_all add: cw_inv_def)
    show ?thesis
    proof (cases "pd_is_empty p")
      case True
      then have "pd_slice p = []" by (simp add: pd_is_empty_def pd_pending_slice)
      then show ?thesis using i True Cw_Flushing
        by (subst cw_poll_flush_pending.simps) (simp add: cw_inv_def cw_wire_def)
    next
      case False
      obtain q u where q: "aw_write U (pd_slice p) (cw_upstream w) = Some (q, u)"
        using write_returns [OF gu, of "pd_slice p"] by auto
      consider (pend) "q = Pending" | (err) e where "q = Ready (Inl e)" | (zero) "q = Ready (Inr 0)"
        | (more) n where "q = Ready (Inr (Suc n))"
        by (metis io_poll.exhaust not0_implies_Suc sum.exhaust)
      then show ?thesis
      proof cases
        case pend
        then show ?thesis using q write_pending [OF gu q [unfolded pend]] i Cw_Flushing False
          by (subst cw_poll_flush_pending.simps) (simp add: cw_inv_def cw_wire_def cw_has_pending_def)
      next
        case (more n)
        let ?w = "w\<lparr>cw_upstream := u, cw_state := Cw_Flushing (pd_advance (Suc n) p)\<rparr>"
        note ok = write_ok [OF gu q [unfolded more]]
        have a: "pd_ok (cw_max_pending_write w) (pd_advance (Suc n) p)"
            "pd_slice (pd_advance (Suc n) p) = drop (Suc n) (pd_slice p)"
          using pd_advance_ok [OF p, of "Suc n"] ok by simp_all
        have w: "cw_wire taken ?w = cw_wire taken w" using ok a(2) Cw_Flushing by (simp add: cw_wire_def)
        then have iw: "cw_inv taken good c0 b0 ?w" using i ok a(1) by (simp add: cw_inv_def)
        have lt: "cw_pending_len ?w < cw_pending_len w"
          using pd_advance_less [OF False, of "Suc n"] Cw_Flushing by (simp add: cw_pending_len_def)
        have "cw_poll_flush_pending U w = cw_poll_flush_pending U ?w"
          using q more Cw_Flushing False by (subst cw_poll_flush_pending.simps) simp
        then show ?thesis using less.hyps [OF lt iw] by (simp only: w)
      next
        case (err e)
        then show ?thesis using q write_fails [OF gu q [unfolded err]] Cw_Flushing False
          by (subst cw_poll_flush_pending.simps) simp
      next
        case zero
        have "pd_slice p \<noteq> []" using False by (simp add: pd_is_empty_def pd_pending_slice)
        then show ?thesis using q write_some [OF gu q [unfolded zero]] zero Cw_Flushing False
          by (subst cw_poll_flush_pending.simps) simp
      qed
    qed
  qed
qed

lemma wire_extended:
  assumes "cw_inv taken good c0 b0 w" and "cw_wire taken w' = cw_wire taken w @ fst (ctr_apply ks (cw_encryptor w) d)"
  shows "cw_plain ks taken c0 b0 w' = cw_plain ks taken c0 b0 w @ d"
    and "take (length b0) (cw_wire taken w') = b0"
    and "snd (ctr_apply ks (cw_encryptor w) d) = advance_ctr (length (cw_wire taken w') - length b0) c0"
proof -
  let ?c = "drop (length b0) (cw_wire taken w)"
  have t: "take (length b0) (cw_wire taken w) = b0" and e: "cw_encryptor w = advance_ctr (length ?c) c0"
    using assms(1) by (simp_all add: cw_inv_def)
  then have l: "length b0 \<le> length (cw_wire taken w)" by (metis length_take min.absorb_iff2 min.commute)
  then have d: "drop (length b0) (cw_wire taken w') = ?c @ fst (ctr_apply ks (cw_encryptor w) d)" using assms(2) by simp
  show "take (length b0) (cw_wire taken w') = b0" using t l assms(2) by simp
  have "cw_encryptor w = snd (ctr_apply ks c0 ?c)" by (simp add: e ctr_apply_snd)
  then show "cw_plain ks taken c0 b0 w' = cw_plain ks taken c0 b0 w @ d"
    by (simp add: cw_plain_def d ctr_apply_append case_prod_beta Let_def ctr_apply_twice)
  show "snd (ctr_apply ks (cw_encryptor w) d) = advance_ctr (length (cw_wire taken w') - length b0) c0"
    using l assms(2) by (simp add: ctr_apply_snd e)
qed

lemma write_through_step:
  assumes i: "cw_inv taken good c0 b0 w" and idle: "cw_state w = Cw_Idle" and "buf \<noteq> []"
  shows "write_outcome fails ks taken good c0 b0 (cw_plain ks taken c0 b0 w) buf (cw_write_through ks U buf w)"
proof -
  let ?n = "min (length buf) (cw_max_pending_write w)"
  let ?d = "take ?n buf" and ?c = "cw_encryptor w"
  let ?s = "fst (ctr_apply ks ?c ?d)"
  have gu: "good (cw_upstream w)" and mx: "0 < cw_max_pending_write w" using i by (simp_all add: cw_inv_def)
  have n: "0 < ?n" "?n \<le> length buf" "length ?s = ?n" "length ?s \<le> cw_max_pending_write w" using assms(3) mx by simp_all
  obtain q u where q: "aw_write U ?s (cw_upstream w) = Some (q, u)" using write_returns [OF gu, of ?s] by auto
  define w1 where "w1 = w\<lparr>cw_encryptor := snd (ctr_apply ks ?c ?d), cw_scratch := []\<rparr>"
  have fin: "cw_inv taken good c0 b0 w' \<and> cw_plain ks taken c0 b0 w' = cw_plain ks taken c0 b0 w @ ?d"
    if "cw_wire taken w' = cw_wire taken w @ ?s" "good (cw_upstream w')" "cw_encryptor w' = snd (ctr_apply ks ?c ?d)"
      "cw_max_pending_write w' = cw_max_pending_write w"
      "case cw_state w' of Cw_Idle \<Rightarrow> True | Cw_Flushing p \<Rightarrow> pd_ok (cw_max_pending_write w) p | Cw_Poisoned _ \<Rightarrow> False" for w'
    using wire_extended [OF i that(1)] that mx by (simp add: cw_inv_def split: cw_state.splits)
  have wire: "cw_wire taken w = taken (cw_upstream w)" using idle by (simp add: cw_wire_def)
  have fresh: "pd_ok mx (pd_replace_with d (pd_new mx)) \<and> pd_slice (pd_replace_with d (pd_new mx)) = d" if "length d \<le> mx" for d mx
    using that by (simp add: pd_ok_def pd_replace_with_def pd_new_def pd_slice_def pd_pending_len_def)
  consider (pend) "q = Pending" | (err) e where "q = Ready (Inl e)" | (zero) "q = Ready (Inr 0)"
    | (all) "q = Ready (Inr ?n)" | (part) k where "q = Ready (Inr k)" "0 < k" "k \<noteq> ?n"
    by (metis io_poll.exhaust neq0_conv sum.exhaust)
  then show ?thesis
  proof cases
    case pend
    let ?w = "w1\<lparr>cw_upstream := u, cw_state := Cw_Flushing (pd_replace_with ?s (pd_new (cw_max_pending_write w)))\<rparr>"
    have "cw_write_through ks U buf w = Some (Ready (Inr ?n), ?w)"
      using q pend idle by (simp add: cw_write_through_def Let_def case_prod_beta ensure_pending_def w1_def)
    moreover have "cw_inv taken good c0 b0 ?w \<and> cw_plain ks taken c0 b0 ?w = cw_plain ks taken c0 b0 w @ ?d"
      using write_pending [OF gu q [unfolded pend]] fresh [OF n(4)] wire
      by (intro fin) (simp_all add: cw_wire_def w1_def)
    ultimately show ?thesis using n by (simp add: write_outcome_def)
  next
    case (err e)
    then show ?thesis using q write_fails [OF gu q [unfolded err]]
      by (simp add: cw_write_through_def write_outcome_def Let_def case_prod_beta)
  next
    case zero
    have "?s \<noteq> []" using n by (metis length_0_conv not_less_zero)
    then show ?thesis using q zero write_some [OF gu q [unfolded zero]] by (simp add: cw_write_through_def write_outcome_def Let_def case_prod_beta)
  next
    case all
    let ?w = "w1\<lparr>cw_upstream := u\<rparr>"
    have "cw_write_through ks U buf w = Some (Ready (Inr ?n), ?w)"
      using q all n by (simp add: cw_write_through_def Let_def case_prod_beta w1_def)
    moreover have "cw_inv taken good c0 b0 ?w \<and> cw_plain ks taken c0 b0 ?w = cw_plain ks taken c0 b0 w @ ?d"
      using write_ok [OF gu q [unfolded all]] wire idle by (intro fin) (simp_all add: cw_wire_def w1_def)
    ultimately show ?thesis using n by (simp add: write_outcome_def)
  next
    case part
    let ?w = "w1\<lparr>cw_upstream := u, cw_state := Cw_Flushing (pd_replace_with (drop k ?s) (pd_new (cw_max_pending_write w)))\<rparr>"
    have "cw_write_through ks U buf w = Some (Ready (Inr ?n), ?w)"
      using q part n idle by (simp add: cw_write_through_def Let_def case_prod_beta ensure_pending_def w1_def)
    moreover have "cw_inv taken good c0 b0 ?w \<and> cw_plain ks taken c0 b0 ?w = cw_plain ks taken c0 b0 w @ ?d"
      using write_ok [OF gu q [unfolded part(1)]] fresh [of "drop k ?s" "cw_max_pending_write w"] wire n(4)
      by (intro fin) (simp_all add: cw_wire_def w1_def)
    ultimately show ?thesis using n by (simp add: write_outcome_def)
  qed
qed

lemma write_buffered_step:
  assumes i: "cw_inv taken good c0 b0 w" and "cw_has_pending w" and "buf \<noteq> []"
  shows "write_outcome fails ks taken good c0 b0 (cw_plain ks taken c0 b0 w) buf (cw_write_buffered ks buf w)"
proof -
  from assms(2) obtain p where st: "cw_state w = Cw_Flushing p" by (auto simp: cw_has_pending_def split: cw_state.splits)
  then have p: "pd_ok (cw_max_pending_write w) p" using i by (simp add: cw_inv_def)
  let ?n = "min (length buf) (pd_remaining_capacity p)" and ?c = "cw_encryptor w"
  show ?thesis
  proof (cases "?n = 0")
    case True
    then have "pd_pending_len p = cw_max_pending_write w"
      using p assms(3) by (auto simp: pd_remaining_capacity_def pd_ok_def min_def split: if_splits)
    then show ?thesis using True st assms(3) i
      by (simp add: cw_pending_len_def cw_write_buffered_def select_to_accept_for_buffering_def write_outcome_def Let_def)
  next
    case False
    let ?d = "take ?n buf"
    have "?d \<noteq> []" "length ?d \<le> pd_remaining_capacity p" using False assms(3) by auto
    from pd_push_ok [OF p this, of ks ?c] obtain p1 where p1: "pd_push_encrypted ks ?c ?d p = (Inr (), snd (ctr_apply ks ?c ?d), p1)"
      "pd_ok (cw_max_pending_write w) p1" "pd_slice p1 = pd_slice p @ fst (ctr_apply ks ?c ?d)" by blast
    let ?w = "w\<lparr>cw_encryptor := snd (ctr_apply ks ?c ?d), cw_state := Cw_Flushing p1\<rparr>"
    have "cw_wire taken ?w = cw_wire taken w @ fst (ctr_apply ks ?c ?d)" using st p1(3) by (simp add: cw_wire_def)
    from wire_extended [OF i this] have "cw_inv taken good c0 b0 ?w \<and> cw_plain ks taken c0 b0 ?w = cw_plain ks taken c0 b0 w @ ?d"
      using i p1(2) st by (simp add: cw_inv_def)
    moreover have "cw_write_buffered ks buf w = Some (Ready (Inr ?n), ?w)"
      using st p1(1) False assms(3)
      by (simp add: cw_write_buffered_def select_to_accept_for_buffering_def ensure_pending_def Let_def)
    ultimately show ?thesis using False by (simp add: write_outcome_def)
  qed
qed

lemma good_not_poisoned: "cw_inv taken good c0 b0 w \<Longrightarrow> \<not> cw_is_poisoned w"
  by (auto simp: cw_inv_def cw_is_poisoned_def split: cw_state.splits)

lemma poll_write_step:
  assumes i: "cw_inv taken good c0 b0 w"
  shows "write_outcome fails ks taken good c0 b0 (cw_plain ks taken c0 b0 w) buf (cw_poll_write ks U buf w)"
proof (cases "buf = []")
  case True
  with i good_not_poisoned [OF i] show ?thesis by (simp add: cw_poll_write_def write_outcome_def)
next
  case False
  note np = good_not_poisoned [OF i]
  show ?thesis
  proof (cases "cw_has_pending w")
    case True
    from flush_pending_step [OF i] obtain p w1 where f: "cw_poll_flush_pending U w = Some (p, w1)"
      and o: "(\<exists>e. p = Ready (Inl e)) \<and> fails \<or> cw_inv taken good c0 b0 w1 \<and> cw_wire taken w1 = cw_wire taken w \<and>
        (if p = Pending then cw_has_pending w1 else p = Ready (Inr ()) \<and> cw_state w1 = Cw_Idle)" by blast
    consider (pend) "p = Pending" | (err) e where "p = Ready (Inl e)" | (ok) "p = Ready (Inr ())"
      by (metis io_poll.exhaust old.unit.exhaust sum.exhaust)
    then show ?thesis
    proof cases
      case pend
      then have "cw_plain ks taken c0 b0 w1 = cw_plain ks taken c0 b0 w" using o by (simp add: cw_plain_def)
      then show ?thesis using write_buffered_step [of w1 buf] o pend False np True f by (simp add: cw_poll_write_def)
    next
      case err
      then show ?thesis using np False True f o by (simp add: cw_poll_write_def write_outcome_def)
    next
      case ok
      then have "cw_plain ks taken c0 b0 w1 = cw_plain ks taken c0 b0 w" using o by (simp add: cw_plain_def)
      then show ?thesis using write_through_step [of w1 buf] o ok False np True f by (simp add: cw_poll_write_def)
    qed
  next
    case nf: False
    then have "cw_state w = Cw_Idle" using np by (auto simp: cw_has_pending_def cw_is_poisoned_def split: cw_state.splits)
    then show ?thesis using write_through_step [OF i _ False] np False nf by (simp add: cw_poll_write_def)
  qed
qed

lemma poll_flush_step:
  assumes i: "cw_inv taken good c0 b0 w"
  shows "case cw_poll_flush U w of
      None \<Rightarrow> False
    | Some (Ready (Inl e), w') \<Rightarrow> fails
    | Some (p, w') \<Rightarrow> cw_inv taken good c0 b0 w' \<and> cw_wire taken w' = cw_wire taken w \<and> (p \<noteq> Pending \<longrightarrow> cw_state w' = Cw_Idle)"
proof -
  note np = good_not_poisoned [OF i]
  from flush_pending_step [OF i] obtain p w1 where f: "cw_poll_flush_pending U w = Some (p, w1)"
    and o: "(\<exists>e. p = Ready (Inl e)) \<and> fails \<or> cw_inv taken good c0 b0 w1 \<and> cw_wire taken w1 = cw_wire taken w \<and>
      (if p = Pending then cw_has_pending w1 else p = Ready (Inr ()) \<and> cw_state w1 = Cw_Idle)" by blast
  show ?thesis
  proof (cases "p = Ready (Inr ())")
    case True
    with o have i1: "cw_inv taken good c0 b0 w1" "cw_state w1 = Cw_Idle" "cw_wire taken w1 = cw_wire taken w" by simp_all
    then have gu: "good (cw_upstream w1)" by (simp add: cw_inv_def)
    obtain q u where q: "aw_flush U (cw_upstream w1) = Some (q, u)" using flush_returns [OF gu] by auto
    have r: "cw_poll_flush U w = Some (q, w1\<lparr>cw_upstream := u\<rparr>)" using np f True q by (simp add: cw_poll_flush_def)
    have k: "cw_inv taken good c0 b0 (w1\<lparr>cw_upstream := u\<rparr>) \<and> cw_wire taken (w1\<lparr>cw_upstream := u\<rparr>) = cw_wire taken w"
      if "good u \<and> taken u = taken (cw_upstream w1)"
      using i1 that by (simp add: cw_inv_def cw_wire_def)
    show ?thesis
    proof (cases q)
      case Pending
      then show ?thesis using r k flush_pending [OF gu q [unfolded Pending]] i1 by simp
    next
      case (Ready x)
      then show ?thesis using r k flush_ok [OF gu] flush_fails [OF gu] q i1 by (cases x) simp_all
    qed
  next
    case False
    then have "cw_poll_flush U w = Some (p, w1)" using np f by (simp add: cw_poll_flush_def split: io_poll.splits sum.splits)
    then show ?thesis using o False by (cases p) (auto split: sum.splits)
  qed
qed

text \<open>So the writer is a sink itself, for plaintext.\<close>

sublocale plain: byte_sink "cipher_sink ks U" "cw_plain ks taken c0 b0" "cw_inv taken good c0 b0" fails
proof (unfold_locales, goal_cases)
  case (1 w data) then show ?case using poll_write_step [of w data]
    by (cases "cw_poll_write ks U data w") (simp_all add: cipher_sink_def write_outcome_def)
next
  case (2 w data n w') then show ?case using poll_write_step [of w data] by (simp add: cipher_sink_def write_outcome_def)
next
  case (3 w data w') then show ?case using poll_write_step [of w data] by (simp add: cipher_sink_def write_outcome_def)
next
  case (4 w data w') then show ?case using poll_write_step [of w data] by (simp add: cipher_sink_def write_outcome_def)
next
  case (5 w data e w') then show ?case using poll_write_step [of w data] by (simp add: cipher_sink_def write_outcome_def)
next
  case (6 w) then show ?case using poll_flush_step [of w]
    by (cases "cw_poll_flush U w") (simp_all add: cipher_sink_def)
next
  case (7 w x w') then show ?case using poll_flush_step [of w] by (simp add: cipher_sink_def cw_plain_def)
next
  case (8 w w') then show ?case using poll_flush_step [of w] by (simp add: cipher_sink_def cw_plain_def)
next
  case (9 w e w') then show ?case using poll_flush_step [of w] by (simp add: cipher_sink_def)
qed

lemma is_sink: "byte_sink (cipher_sink ks U) (cw_plain ks taken c0 b0) (cw_inv taken good c0 b0) fails"
  by (rule plain.byte_sink_axioms)

end

text \<open>A new writer.\<close>

lemma cw_new_inv:
  "good u \<Longrightarrow> cw_inv taken good c0 (taken u) (cw_new u c0 mx) \<and> cw_plain ks taken c0 (taken u) (cw_new u c0 mx) = []"
  by (simp add: cw_inv_def cw_new_def cw_wire_def cw_plain_def advance_ctr_def ctr_apply_nil Let_def)

lemma cw_inv_wire:
  assumes "cw_inv taken good c0 b0 w"
  shows "cw_wire taken w = b0 @ fst (ctr_apply ks c0 (cw_plain ks taken c0 b0 w))"
    and "cw_encryptor w = advance_ctr (length (cw_plain ks taken c0 b0 w)) c0"
    and "cw_pending_len w \<le> cw_max_pending_write w"
proof -
  have t: "take (length b0) (cw_wire taken w) = b0" using assms by (simp add: cw_inv_def)
  then show "cw_wire taken w = b0 @ fst (ctr_apply ks c0 (cw_plain ks taken c0 b0 w))"
    by (metis append_take_drop_id cw_plain_def ctr_apply_twice fst_conv)
  show "cw_encryptor w = advance_ctr (length (cw_plain ks taken c0 b0 w)) c0"
    using assms by (simp add: cw_inv_def cw_plain_def)
  show "cw_pending_len w \<le> cw_max_pending_write w"
    using assms by (auto simp: cw_inv_def cw_pending_len_def pd_ok_def split: cw_state.splits)
qed

subsection \<open>The contract of the reader\<close>

definition cr_good :: "('u \<Rightarrow> bool) \<Rightarrow> 'u crypto_reader \<Rightarrow> bool" where
  "cr_good good r \<longleftrightarrow> good (cr_upstream r) \<and> cr_state r = Cr_Idle"

definition cr_left :: "keystream \<Rightarrow> ('u \<Rightarrow> bytes) \<Rightarrow> 'u crypto_reader \<Rightarrow> bytes" where
  "cr_left ks left r = fst (ctr_apply ks (cr_decryptor r) (left (cr_upstream r)))"

locale cipher_over_source = byte_source R left good fails
  for R :: "'u async_read" and left :: "'u \<Rightarrow> bytes" and good :: "'u \<Rightarrow> bool" and fails :: bool +
  fixes ks :: keystream
begin

lemma poll_read_idle:
  assumes "cr_good good r" and "0 < n"
  shows "cr_poll_read ks R n r =
    (case the (ar_read R n (cr_upstream r)) of
       (Pending, u) \<Rightarrow> Some (Pending, r\<lparr>cr_upstream := u\<rparr>)
     | (Ready (Inl e), u) \<Rightarrow> Some (Ready (Inl e), r\<lparr>cr_upstream := u, cr_state := Cr_Poisoned (Some e)\<rparr>)
     | (Ready (Inr filled), u) \<Rightarrow> Some (Ready (Inr (fst (ctr_apply ks (cr_decryptor r) filled))),
         r\<lparr>cr_upstream := u, cr_decryptor := snd (ctr_apply ks (cr_decryptor r) filled)\<rparr>))"
proof -
  have gu: "good (cr_upstream r)" and st: "cr_state r = Cr_Idle" using assms by (simp_all add: cr_good_def)
  obtain q u where "ar_read R n (cr_upstream r) = Some (q, u)" using read_returns [OF gu, of n] by auto
  then show ?thesis using st assms(2)
    by (auto simp: cr_poll_read_def ctr_apply_nil Let_def case_prod_beta split: io_poll.split sum.split)
qed

sublocale plain: byte_source "cipher_source ks R" "cr_left ks left" "cr_good good" fails
proof (unfold_locales, goal_cases)
  case (1 r n)
  then show ?case using poll_read_idle [of r n]
    by (cases "n = 0") (auto simp: cipher_source_def cr_poll_read_def cr_good_def split: prod.split io_poll.split sum.split)
next
  case (2 r n bs r')
  then have gu: "good (cr_upstream r)" and st: "cr_state r = Cr_Idle" by (simp_all add: cr_good_def)
  show ?case
  proof (cases "n = 0")
    case True
    then show ?thesis using 2 st by (auto simp: cipher_source_def cr_poll_read_def)
  next
    case False
    obtain q u where q: "ar_read R n (cr_upstream r) = Some (q, u)" using read_returns [OF gu, of n] by auto
    then obtain filled where f: "q = Ready (Inr filled)" and b: "bs = fst (ctr_apply ks (cr_decryptor r) filled)"
      and r: "r' = r\<lparr>cr_upstream := u, cr_decryptor := snd (ctr_apply ks (cr_decryptor r) filled)\<rparr>"
      using 2(2) poll_read_idle [OF 2(1), of n] False by (cases q) (auto simp: cipher_source_def split: sum.splits)
    note ok = read_ok [OF gu q [unfolded f]]
    have "cr_left ks left r = bs @ cr_left ks left r'"
      using ok by (simp add: cr_left_def b r ctr_apply_append case_prod_beta Let_def)
    moreover have "bs = [] \<longrightarrow> cr_left ks left r = []"
      using ok False b by (auto simp: cr_left_def simp flip: length_0_conv)
    ultimately show ?thesis using ok st by (simp add: cr_good_def b r)
  qed
next
  case (3 r n r')
  then have gu: "good (cr_upstream r)" and st: "cr_state r = Cr_Idle" by (simp_all add: cr_good_def)
  have n: "0 < n" using 3 st by (cases "n = 0") (auto simp: cipher_source_def cr_poll_read_def)
  obtain q u where q: "ar_read R n (cr_upstream r) = Some (q, u)" using read_returns [OF gu, of n] by auto
  then have "q = Pending" "r' = r\<lparr>cr_upstream := u\<rparr>"
    using 3(2) poll_read_idle [OF 3(1) n] by (cases q; auto simp: cipher_source_def split: sum.splits)+
  with read_pending [OF gu] q st show ?case by (simp add: cr_good_def cr_left_def)
next
  case (4 r n e r')
  then have gu: "good (cr_upstream r)" and st: "cr_state r = Cr_Idle" by (simp_all add: cr_good_def)
  have n: "0 < n" using 4 st by (cases "n = 0") (auto simp: cipher_source_def cr_poll_read_def)
  obtain q u where q: "ar_read R n (cr_upstream r) = Some (q, u)" using read_returns [OF gu, of n] by auto
  then have "q = Ready (Inl e)"
    using 4(2) poll_read_idle [OF 4(1) n] by (cases q) (auto simp: cipher_source_def split: sum.splits)
  with read_fails [OF gu] q show ?case by simp
qed

lemma is_source: "byte_source (cipher_source ks R) (cr_left ks left) (cr_good good) fails"
  by (rule plain.byte_source_axioms)

end

subsection \<open>Properties\<close>

text \<open>
  C9. The cipher never drifts. Over a stream that keeps the contract of a sink, after any
  calls that succeeded, what the stream has taken followed by what is pending is exactly
  the encryption of the plaintext accepted so far; the cipher stands behind it; no more
  ciphertext is pending than configured; and a flush that reports success leaves nothing pending.
\<close>

theorem crypto_writer_faithful:
  assumes "byte_sink U taken good fails" and "good u"
    and "make_calls (cipher_sink ks U) cs (cw_new u c0 mx) = Some (acc, w)"
  shows "cw_wire taken w = taken u @ fst (ctr_apply ks c0 acc) \<and>
    cw_encryptor w = advance_ctr (length acc) c0 \<and>
    cw_pending_len w \<le> cw_max_pending_write w \<and>
    (cw_poll_flush U w = Some (Ready (Inr ()), w') \<longrightarrow> taken (cw_upstream w') = taken u @ fst (ctr_apply ks c0 acc))"
proof -
  have l: "cipher_over_sink U taken good fails" using assms(1) by (rule cipher_over_sink.intro)
  note sink = cipher_over_sink.is_sink [OF l, of ks c0 "taken u"]
  have i: "cw_inv taken good c0 (taken u) w" and p: "cw_plain ks taken c0 (taken u) w = acc"
    using byte_sink.make_calls_taken [OF sink _ assms(3)] cw_new_inv [of good u taken c0 mx ks] assms(2) by simp_all
  have "taken (cw_upstream w') = taken u @ fst (ctr_apply ks c0 acc)" if "cw_poll_flush U w = Some (Ready (Inr ()), w')"
  proof -
    have "cw_wire taken w' = cw_wire taken w \<and> cw_state w' = Cw_Idle"
      using cipher_over_sink.poll_flush_step [OF l i] that by simp
    then have "taken (cw_upstream w') = cw_wire taken w" by (simp add: cw_wire_def split: cw_state.splits)
    then show ?thesis using cw_inv_wire(1) [OF i, of ks] p by simp
  qed
  then show ?thesis using cw_inv_wire(1,2) [OF i, of ks] cw_inv_wire(3) [OF i] p by simp
qed

text \<open>
  The two wrappers fit together: a reader that starts from the same cipher on what the
  writer's stream has taken returns, over any reads that succeed, a front part of the plaintext the
  writer accepted, and all of it once everything sent has been read and nothing is pending.
\<close>

theorem crypto_stream_roundtrip:
  assumes "byte_sink U taken good fails" and "good u"
    and "make_calls (cipher_sink ks U) cs (cw_new u c0 mx) = Some (acc, w)"
    and "byte_source R left good' fails'" and "good' v" and "taken (cw_upstream w) = taken u @ left v"
    and "make_reads (cipher_source ks R) ns (cr_new v c0) = Some (out, r)"
  shows "take (length out) acc = out \<and> (left (cr_upstream r) = [] \<and> \<not> cw_has_pending w \<longrightarrow> out = acc)"
proof -
  have l: "cipher_over_sink U taken good fails" using assms(1) by (rule cipher_over_sink.intro)
  note sink = cipher_over_sink.is_sink [OF l, of ks c0 "taken u"]
  have i: "cw_inv taken good c0 (taken u) w" and p: "cw_plain ks taken c0 (taken u) w = acc"
    using byte_sink.make_calls_taken [OF sink _ assms(3)] cw_new_inv [of good u taken c0 mx ks] assms(2) by simp_all
  have m: "cipher_over_source R left good' fails'" using assms(4) by (rule cipher_over_source.intro)
  have "cr_good good' (cr_new v c0)" using assms(5) by (simp add: cr_good_def cr_new_def)
  from byte_source.make_reads_left [OF cipher_over_source.is_source [OF m, of ks] this assms(7)]
  have rd: "fst (ctr_apply ks c0 (left v)) = out @ cr_left ks left r" by (simp add: cr_left_def cr_new_def)
  let ?pend = "case cw_state w of Cw_Flushing p \<Rightarrow> pd_slice p | _ \<Rightarrow> []"
  have "cw_wire taken w = taken u @ left v @ ?pend" using assms(6) by (simp add: cw_wire_def)
  then have "acc = fst (ctr_apply ks c0 (left v @ ?pend))" using p by (simp add: cw_plain_def)
  then have acc: "acc = out @ cr_left ks left r @ fst (ctr_apply ks (snd (ctr_apply ks c0 (left v))) ?pend)"
    using rd by (simp add: ctr_apply_append case_prod_beta Let_def)
  moreover have "cr_left ks left r = []" if "left (cr_upstream r) = []" using that by (simp add: cr_left_def ctr_apply_nil)
  moreover have "?pend = []" if "\<not> cw_has_pending w" using that by (simp add: cw_has_pending_def split: cw_state.splits)
  ultimately show ?thesis by (simp add: ctr_apply_nil)
qed

text \<open>
  C35. Backpressure is honest: a write of some bytes accepts at least one of them, unless the
  pending ciphertext is exactly at its limit, when it is put off, or the stream under it fails.
\<close>

theorem crypto_backpressure:
  assumes "byte_sink U taken good fails" and "good u"
    and "make_calls (cipher_sink ks U) cs (cw_new u c0 mx) = Some (acc, w)" and "buf \<noteq> []"
  shows "case cw_poll_write ks U buf w of
      None \<Rightarrow> False
    | Some (Pending, w') \<Rightarrow> cw_pending_len w' = cw_max_pending_write w'
    | Some (Ready (Inl e), w') \<Rightarrow> fails
    | Some (Ready (Inr n), w') \<Rightarrow> 0 < n \<and> n \<le> length buf"
proof -
  have l: "cipher_over_sink U taken good fails" using assms(1) by (rule cipher_over_sink.intro)
  note sink = cipher_over_sink.is_sink [OF l, of ks c0 "taken u"]
  have i: "cw_inv taken good c0 (taken u) w"
    using byte_sink.make_calls_taken [OF sink _ assms(3)] cw_new_inv [of good u taken c0 mx ks] assms(2) by simp_all
  show ?thesis using cipher_over_sink.poll_write_step [OF l i, of ks buf] assms(4)
    by (auto simp: write_outcome_def split: option.splits io_poll.splits sum.splits)
qed

text \<open>Two sockets for the examples: one that takes bytes in small pieces, and one that delivers them so.\<close>

definition demo_ks :: keystream where
  "demo_ks key iv i = word_of_nat (7 * i + length key)"

definition demo_ctr :: aes_ctr where
  "demo_ctr = ctr_new [1] 5"

definition demo_calls :: "write_call list" where
  "demo_calls = [Call_Write [1, 2, 3], Call_Write [4, 5], Call_Flush, Call_Write [6]]"

definition demo_sock :: socket where
  "demo_sock = \<lparr>sk_script = [Io_Some 0, Io_Block, Io_Some 3, Io_Some 0, Io_Some 0, Io_Some 9], sk_bytes = [9]\<rparr>"

lemma demo_sock_good: "sock_good demo_sock"
  by (simp add: sock_good_def demo_sock_def)

lemmas cipher_run = cipher_sink_def cipher_source_def cw_poll_write_def cw_poll_flush_def cw_write_through_def cw_write_buffered_def
  cr_poll_read_def cr_new_def cw_new_def cw_is_poisoned_def cw_has_pending_def pd_new_def pd_replace_with_def pd_slice_def
  pd_is_empty_def pd_pending_len_def pd_advance_def pd_compact_def pd_push_encrypted_def pd_remaining_capacity_def
  select_to_accept_for_buffering_def ensure_pending_def sock_sink_def sock_source_def sock_write_def sock_read_def sock_idle_def
  next_event_def ctr_apply_def xor_bytes_def

lemma demo_written:
  "make_calls (cipher_sink demo_ks sock_sink) demo_calls (cw_new demo_sock demo_ctr 0) =
    Some ([1, 2, 3, 4, 5, 6], \<lparr>cw_upstream = \<lparr>sk_script = [Io_Some 9], sk_bytes = [9, 0, 10, 12, 18, 24, 34]\<rparr>,
      cw_encryptor = advance_ctr 6 demo_ctr, cw_state = Cw_Idle, cw_scratch = [], cw_max_pending_write = 65536\<rparr>)"
  by (simp add: demo_calls_def demo_sock_def demo_ctr_def demo_ks_def ctr_new_def cipher_run cw_poll_flush_pending.simps
      advance_ctr_def Let_def)

theorem crypto_writer_faithful_witness:
  "cw_wire sk_bytes (snd (the (make_calls (cipher_sink demo_ks sock_sink) demo_calls (cw_new demo_sock demo_ctr 0)))) =
    9 # fst (ctr_apply demo_ks demo_ctr [1, 2, 3, 4, 5, 6])"
  using conjunct1 [OF crypto_writer_faithful [OF sock_out.byte_sink_axioms demo_sock_good demo_written]]
  unfolding demo_written option.sel snd_conv by (simp add: demo_sock_def)

definition demo_source :: socket where
  "demo_source = \<lparr>sk_script = [Io_Some 1, Io_Block, Io_Some 9], sk_bytes = [0, 10, 12, 18, 24, 34]\<rparr>"

lemma demo_source_good: "sock_good demo_source"
  by (simp add: sock_good_def demo_source_def)

theorem crypto_stream_roundtrip_witness:
  "\<exists>r. make_reads (cipher_source demo_ks sock_source) [5, 5, 9] (cr_new demo_source demo_ctr) = Some ([1, 2, 3, 4, 5, 6], r)"
proof -
  obtain out r where o: "make_reads (cipher_source demo_ks sock_source) [5, 5, 9] (cr_new demo_source demo_ctr) = Some (out, r)"
    and e: "sk_bytes (cr_upstream r) = []"
    by (simp add: cipher_run demo_source_def demo_ctr_def ctr_new_def Let_def)
  have "out = [1, 2, 3, 4, 5, 6]"
    using crypto_stream_roundtrip [OF sock_out.byte_sink_axioms demo_sock_good demo_written sock_in.byte_source_axioms demo_source_good _ o] e
    by (simp add: demo_source_def demo_sock_def cw_has_pending_def)
  with o show ?thesis by blast
qed

theorem crypto_backpressure_witness:
  "case cw_poll_write demo_ks sock_sink [8] (snd (the (make_calls (cipher_sink demo_ks sock_sink) demo_calls (cw_new demo_sock demo_ctr 0)))) of
      None \<Rightarrow> False
    | Some (Pending, w') \<Rightarrow> cw_pending_len w' = cw_max_pending_write w'
    | Some (Ready (Inl e), w') \<Rightarrow> False
    | Some (Ready (Inr n), w') \<Rightarrow> 0 < n \<and> n \<le> length [8 :: u8]"
  using crypto_backpressure [OF sock_out.byte_sink_axioms demo_sock_good demo_written, of "[8]"] unfolding demo_written by simp

end
