(* ===== verification/Tls_Stream.thy ===== *)
theory Tls_Stream
  imports Cipher_Stream Proto_Constants
begin

section \<open>The record layer of the fake TLS streams\<close>

text \<open>
  \<^verbatim>\<open>src/src/stream/tls_stream.rs\<close>: the reader that takes the payload out of TLS records and the writer that
  wraps bytes into records. The scratch buffer of the reader only saves allocations and is
  left out. A read buffer cannot be filled beyond its room, hence the \<open>take\<close> where one is read into.
\<close>

abbreviation (input) "TLS_HEADER_SIZE \<equiv> (5 :: nat)"
abbreviation (input) "MAX_TLS_PAYLOAD \<equiv> MAX_TLS_CIPHERTEXT_SIZE"
abbreviation (input) "MAX_PENDING_WRITE \<equiv> (65536 :: nat)"

subsection \<open>Record headers\<close>

record tls_record_header =
  rh_record_type :: u8
  rh_version :: bytes
  rh_length :: nat

definition rh_parse :: "bytes \<Rightarrow> tls_record_header option" where
  "rh_parse header =
     Some \<lparr>rh_record_type = header ! 0, rh_version = [header ! 1, header ! 2],
           rh_length = u16_from_be_bytes (header ! 3) (header ! 4)\<rparr>"

definition rh_validate :: "tls_record_header \<Rightarrow> io_error_kind option" where
  "rh_validate h =
     (let len = rh_length h; bad = Some IO_InvalidData
      in if rh_version h \<noteq> [0x03, 0x01] \<and> rh_version h \<noteq> TLS_VERSION then bad
         else if rh_record_type h \<noteq> TLS_RECORD_HANDSHAKE \<and> rh_version h \<noteq> TLS_VERSION then bad
         else if rh_record_type h = TLS_RECORD_APPLICATION then
           (if len = 0 \<or> len > MAX_TLS_CIPHERTEXT_SIZE then bad else None)
         else if rh_record_type h = TLS_RECORD_CHANGE_CIPHER then (if len \<noteq> 1 then bad else None)
         else if rh_record_type h = TLS_RECORD_ALERT then (if len \<noteq> 2 then bad else None)
         else if rh_record_type h = TLS_RECORD_HANDSHAKE then
           (if \<not> (4 \<le> len \<and> len \<le> MAX_TLS_PLAINTEXT_SIZE) then bad else None)
         else bad)"

definition rh_to_bytes :: "tls_record_header \<Rightarrow> bytes" where
  "rh_to_bytes h =
     [rh_record_type h, rh_version h ! 0, rh_version h ! 1, word_of_nat (rh_length h div 256), word_of_nat (rh_length h)]"

subsection \<open>The reader\<close>

datatype tls_reader_state =
    Rd_Idle
  | Rd_Header header_buffer
  | Rd_Body u8 nat bytes
  | Rd_Yielding yield_buffer
  | Rd_Poisoned "io_error_kind option"

record 'u tls_reader =
  tr_upstream :: 'u
  tr_state :: tls_reader_state

definition tr_new :: "'u \<Rightarrow> 'u tls_reader" where
  "tr_new upstream = \<lparr>tr_upstream = upstream, tr_state = Rd_Idle\<rparr>"

definition tr_is_poisoned :: "'u tls_reader \<Rightarrow> bool" where
  "tr_is_poisoned r = (case tr_state r of Rd_Poisoned _ \<Rightarrow> True | _ \<Rightarrow> False)"

definition tr_take_poison_error :: "'u tls_reader \<Rightarrow> io_error_kind \<times> 'u tls_reader" where
  "tr_take_poison_error r =
     (case tr_state r of
        Rd_Poisoned error \<Rightarrow> (case error of Some e \<Rightarrow> e | None \<Rightarrow> IO_Other, r\<lparr>tr_state := Rd_Poisoned None\<rparr>)
      | _ \<Rightarrow> (IO_Other, r))"

definition into_inner_with_pending_plaintext :: "'u tls_reader \<Rightarrow> 'u \<times> bytes" where
  "into_inner_with_pending_plaintext r =
     (tr_upstream r,
      case tr_state r of
        Rd_Yielding buffer \<Rightarrow> yb_as_slice buffer
      | Rd_Body record_type len buffer \<Rightarrow> if record_type = TLS_RECORD_APPLICATION then buffer else []
      | _ \<Rightarrow> [])"

datatype header_poll = Hp_Pending | Hp_Eof | Hp_Complete tls_record_header | Hp_Error io_error_kind

datatype body_poll = Bp_Pending | Bp_Complete bytes | Bp_Error io_error_kind

function poll_read_header ::
  "'u async_read \<Rightarrow> 'u \<Rightarrow> header_buffer \<Rightarrow> (header_poll \<times> 'u \<times> header_buffer) option" where
  "poll_read_header R u header =
     (if hb_is_complete header then
        (case hb_as_array header of
           None \<Rightarrow> None
         | Some header_bytes \<Rightarrow>
             (case rh_parse header_bytes of
                Some h \<Rightarrow> Some (Hp_Complete h, u, header)
              | None \<Rightarrow> Some (Hp_Error IO_InvalidData, u, header)))
      else case ar_read R (hb_remaining header) u of
             None \<Rightarrow> None
           | Some (Pending, u1) \<Rightarrow> Some (Hp_Pending, u1, header)
           | Some (Ready (Inl e), u1) \<Rightarrow> Some (Hp_Error e, u1, header)
           | Some (Ready (Inr bs), u1) \<Rightarrow>
               let filled = take (hb_remaining header) bs
               in if filled = [] then
                    (if hb_as_slice header = [] then Some (Hp_Eof, u1, header)
                     else Some (Hp_Error IO_UnexpectedEof, u1, header))
                  else poll_read_header R u1 (hb_advance (length filled) (hb_read_into filled header)))"
  by pat_completeness auto
termination
proof (relation "measure (\<lambda>(R, u, h). hb_remaining h)", goal_cases)
  case (2 R u header a p x b bs filled)
  then have "0 < length filled" "length filled \<le> hb_remaining header" "0 < hb_remaining header" by auto
  then show ?case by (cases filled) (auto simp: hb_remaining_def hb_advance_def hb_read_into_def splice_def min_def)
qed simp

declare poll_read_header.simps [simp del]

function poll_read_body :: "'u async_read \<Rightarrow> 'u \<Rightarrow> bytes \<Rightarrow> nat \<Rightarrow> (body_poll \<times> 'u \<times> bytes) option" where
  "poll_read_body R u buffer target_len =
     (if length buffer < target_len then
        let chunk_len = min (target_len - length buffer) 8192
        in case ar_read R chunk_len u of
             None \<Rightarrow> None
           | Some (Pending, u1) \<Rightarrow> Some (Bp_Pending, u1, buffer)
           | Some (Ready (Inl e), u1) \<Rightarrow> Some (Bp_Error e, u1, buffer)
           | Some (Ready (Inr bs), u1) \<Rightarrow>
               let filled = take chunk_len bs
               in if filled = [] then Some (Bp_Error IO_UnexpectedEof, u1, buffer)
                  else poll_read_body R u1 (buffer @ filled) target_len
      else Some (Bp_Complete buffer, u, []))"
  by pat_completeness auto
termination
  by (relation "measure (\<lambda>(R, u, b, n). n - length b)") (auto simp flip: length_greater_0_conv)

declare poll_read_body.simps [simp del]

definition tr_poison :: "io_error_kind \<Rightarrow> 'u tls_reader \<Rightarrow> (bytes io_poll \<times> 'u tls_reader) option" where
  "tr_poison e r = Some (Ready (Inl e), r\<lparr>tr_state := Rd_Poisoned (Some e)\<rparr>)"

text \<open>One \<open>poll_read\<close>: it goes on until it has something to return, which a stream of nothing but skipped records can prevent.\<close>

partial_function (option) tr_poll_read ::
  "'u async_read \<Rightarrow> nat \<Rightarrow> 'u tls_reader \<Rightarrow> (bytes io_poll \<times> 'u tls_reader) option" where
  "tr_poll_read R room r =
     (case tr_state r of
        Rd_Poisoned error \<Rightarrow>
          Some (Ready (Inl (case error of Some e \<Rightarrow> e | None \<Rightarrow> IO_Other)), r\<lparr>tr_state := Rd_Poisoned None\<rparr>)
      | Rd_Yielding buffer \<Rightarrow>
          if room = 0 then Some (Ready (Inr []), r)
          else Some (Ready (Inr (fst (yb_copy_to (min (yb_remaining buffer) room) buffer))),
                 r\<lparr>tr_state := (if yb_is_empty (snd (yb_copy_to (min (yb_remaining buffer) room) buffer)) then Rd_Idle
                                else Rd_Yielding (snd (yb_copy_to (min (yb_remaining buffer) room) buffer)))\<rparr>)
      | Rd_Idle \<Rightarrow>
          if room = 0 then Some (Ready (Inr []), r)
          else tr_poll_read R room (r\<lparr>tr_state := Rd_Header (hb_new TLS_HEADER_SIZE)\<rparr>)
      | Rd_Header header \<Rightarrow>
          (case poll_read_header R (tr_upstream r) header of
             None \<Rightarrow> None
           | Some (result, u, header1) \<Rightarrow>
               (case result of
                  Hp_Pending \<Rightarrow> Some (Pending, r\<lparr>tr_upstream := u, tr_state := Rd_Header header1\<rparr>)
                | Hp_Eof \<Rightarrow> Some (Ready (Inr []), r\<lparr>tr_upstream := u, tr_state := Rd_Idle\<rparr>)
                | Hp_Error e \<Rightarrow> tr_poison e (r\<lparr>tr_upstream := u\<rparr>)
                | Hp_Complete parsed \<Rightarrow>
                    (case rh_validate parsed of
                       Some e \<Rightarrow> tr_poison e (r\<lparr>tr_upstream := u\<rparr>)
                     | None \<Rightarrow> tr_poll_read R room
                         (r\<lparr>tr_upstream := u, tr_state := Rd_Body (rh_record_type parsed) (rh_length parsed) []\<rparr>))))
      | Rd_Body record_type len buffer \<Rightarrow>
          (case poll_read_body R (tr_upstream r) buffer len of
             None \<Rightarrow> None
           | Some (result, u, buffer1) \<Rightarrow>
               (case result of
                  Bp_Pending \<Rightarrow> Some (Pending, r\<lparr>tr_upstream := u, tr_state := Rd_Body record_type len buffer1\<rparr>)
                | Bp_Error e \<Rightarrow> tr_poison e (r\<lparr>tr_upstream := u\<rparr>)
                | Bp_Complete data \<Rightarrow>
                    if record_type = TLS_RECORD_CHANGE_CIPHER then
                      tr_poll_read R room (r\<lparr>tr_upstream := u, tr_state := Rd_Idle\<rparr>)
                    else if record_type = TLS_RECORD_APPLICATION then
                      (if data = [] then tr_poll_read R room (r\<lparr>tr_upstream := u, tr_state := Rd_Idle\<rparr>)
                       else tr_poll_read R room (r\<lparr>tr_upstream := u, tr_state := Rd_Yielding (yb_new data)\<rparr>))
                    else if record_type = TLS_RECORD_ALERT then
                      Some (Ready (Inr []), r\<lparr>tr_upstream := u, tr_state := Rd_Idle\<rparr>)
                    else tr_poison IO_InvalidData (r\<lparr>tr_upstream := u\<rparr>))))"

definition tls_source :: "'u async_read \<Rightarrow> 'u tls_reader async_read" where
  "tls_source R = \<lparr>ar_read = tr_poll_read R\<rparr>"

definition tr_read_exact ::
  "'u async_read \<Rightarrow> nat \<Rightarrow> 'u tls_reader \<Rightarrow> ((io_error_kind + bytes) \<times> 'u tls_reader) option" where
  "tr_read_exact R n r =
     (if tr_is_poisoned r then (let (err, r1) = tr_take_poison_error r in Some (Inl err, r1))
      else read_up_to (tls_source R) n [] r)"

subsection \<open>The writer\<close>

datatype tls_writer_state = Wr_Idle | Wr_Record write_buffer nat | Wr_Poisoned "io_error_kind option"

record 'u tls_writer =
  tw_upstream :: 'u
  tw_state :: tls_writer_state

definition tw_new :: "'u \<Rightarrow> 'u tls_writer" where
  "tw_new upstream = \<lparr>tw_upstream = upstream, tw_state = Wr_Idle\<rparr>"

definition tw_is_poisoned :: "'u tls_writer \<Rightarrow> bool" where
  "tw_is_poisoned w = (case tw_state w of Wr_Poisoned _ \<Rightarrow> True | _ \<Rightarrow> False)"

definition tw_has_pending :: "'u tls_writer \<Rightarrow> bool" where
  "tw_has_pending w = (case tw_state w of Wr_Record record _ \<Rightarrow> \<not> wb_is_empty record | _ \<Rightarrow> False)"

definition tw_build_record :: "bytes \<Rightarrow> bytes" where
  "tw_build_record data =
     rh_to_bytes \<lparr>rh_record_type = TLS_RECORD_APPLICATION, rh_version = TLS_VERSION, rh_length = length data mod 65536\<rparr> @ data"

datatype flush_result = Fl_Complete nat | Fl_Pending | Fl_Error io_error_kind

function poll_flush_record_inner ::
  "'u async_write \<Rightarrow> 'u \<Rightarrow> write_buffer \<Rightarrow> (flush_result \<times> 'u \<times> write_buffer) option" where
  "poll_flush_record_inner U u record =
     (if wb_is_empty record then Some (Fl_Complete 0, u, record)
      else case aw_write U (wb_pending record) u of
             None \<Rightarrow> None
           | Some (Pending, u1) \<Rightarrow> Some (Fl_Pending, u1, record)
           | Some (Ready (Inl e), u1) \<Rightarrow> Some (Fl_Error e, u1, record)
           | Some (Ready (Inr n), u1) \<Rightarrow>
               if n = 0 then Some (Fl_Error IO_WriteZero, u1, record)
               else poll_flush_record_inner U u1 (wb_advance n record))"
  by pat_completeness auto
termination
  by (relation "measure (\<lambda>(U, u, b). length (wb_pending b))") (auto intro: wb_advance_less)

declare poll_flush_record_inner.simps [simp del]

definition tw_poison_result :: "io_error_kind option \<Rightarrow> io_error_kind" where
  "tw_poison_result error = (case error of Some e \<Rightarrow> e | None \<Rightarrow> IO_Other)"

text \<open>
  The part of \<open>poll_write\<close> that starts a record, in the idle state. Slicing off what was written panics when
  the stream claims to have written more than it was given.
\<close>

definition tw_start_record ::
  "'u async_write \<Rightarrow> bytes \<Rightarrow> 'u tls_writer \<Rightarrow> (nat io_poll \<times> 'u tls_writer) option" where
  "tw_start_record U buf w =
     (if buf = [] then Some (Ready (Inr 0), w)
      else let chunk_size = min (length buf) MAX_TLS_PAYLOAD;
               record_data = tw_build_record (take chunk_size buf);
               store = (\<lambda>rest. Wr_Record (snd (wb_extend rest (wb_with_max_size MAX_PENDING_WRITE))) chunk_size)
           in case aw_write U record_data (tw_upstream w) of
                None \<Rightarrow> None
              | Some (Ready (Inr n), u) \<Rightarrow>
                  if n = length record_data then Some (Ready (Inr chunk_size), w\<lparr>tw_upstream := u\<rparr>)
                  else if n > length record_data then None
                  else Some (Ready (Inr chunk_size), w\<lparr>tw_upstream := u, tw_state := store (drop n record_data)\<rparr>)
              | Some (Ready (Inl e), u) \<Rightarrow> Some (Ready (Inl e), w\<lparr>tw_upstream := u, tw_state := Wr_Poisoned (Some e)\<rparr>)
              | Some (Pending, u) \<Rightarrow> Some (Ready (Inr chunk_size), w\<lparr>tw_upstream := u, tw_state := store record_data\<rparr>))"

definition tw_poll_write ::
  "'u async_write \<Rightarrow> bytes \<Rightarrow> 'u tls_writer \<Rightarrow> (nat io_poll \<times> 'u tls_writer) option" where
  "tw_poll_write U buf w =
     (case tw_state w of
        Wr_Poisoned error \<Rightarrow> Some (Ready (Inl (tw_poison_result error)), w\<lparr>tw_state := Wr_Poisoned None\<rparr>)
      | Wr_Record record payload_size \<Rightarrow>
          (case poll_flush_record_inner U (tw_upstream w) record of
             None \<Rightarrow> None
           | Some (Fl_Pending, u, record1) \<Rightarrow>
               Some (Pending, w\<lparr>tw_upstream := u, tw_state := Wr_Record record1 payload_size\<rparr>)
           | Some (Fl_Error e, u, _) \<Rightarrow> Some (Ready (Inl e), w\<lparr>tw_upstream := u, tw_state := Wr_Poisoned (Some e)\<rparr>)
           | Some (Fl_Complete _, u, _) \<Rightarrow> tw_start_record U buf (w\<lparr>tw_upstream := u, tw_state := Wr_Idle\<rparr>))
      | Wr_Idle \<Rightarrow> tw_start_record U buf w)"

definition tw_flush_upstream :: "'u async_write \<Rightarrow> 'u tls_writer \<Rightarrow> (unit io_poll \<times> 'u tls_writer) option" where
  "tw_flush_upstream U w =
     (case aw_flush U (tw_upstream w) of None \<Rightarrow> None | Some (p, u) \<Rightarrow> Some (p, w\<lparr>tw_upstream := u\<rparr>))"

definition tw_poll_flush :: "'u async_write \<Rightarrow> 'u tls_writer \<Rightarrow> (unit io_poll \<times> 'u tls_writer) option" where
  "tw_poll_flush U w =
     (case tw_state w of
        Wr_Poisoned error \<Rightarrow> Some (Ready (Inl (tw_poison_result error)), w\<lparr>tw_state := Wr_Poisoned None\<rparr>)
      | Wr_Record record payload_size \<Rightarrow>
          (case poll_flush_record_inner U (tw_upstream w) record of
             None \<Rightarrow> None
           | Some (Fl_Pending, u, record1) \<Rightarrow>
               Some (Pending, w\<lparr>tw_upstream := u, tw_state := Wr_Record record1 payload_size\<rparr>)
           | Some (Fl_Error e, u, _) \<Rightarrow> Some (Ready (Inl e), w\<lparr>tw_upstream := u, tw_state := Wr_Poisoned (Some e)\<rparr>)
           | Some (Fl_Complete _, u, _) \<Rightarrow> tw_flush_upstream U (w\<lparr>tw_upstream := u, tw_state := Wr_Idle\<rparr>))
      | Wr_Idle \<Rightarrow> tw_flush_upstream U w)"

definition tw_poll_shutdown :: "'u async_write \<Rightarrow> 'u tls_writer \<Rightarrow> (unit io_poll \<times> 'u tls_writer) option" where
  "tw_poll_shutdown U w =
     (let shut = (\<lambda>u. case aw_shutdown U u of
                        None \<Rightarrow> None
                      | Some (p, u1) \<Rightarrow> Some (p, w\<lparr>tw_upstream := u1, tw_state := Wr_Idle\<rparr>))
      in case tw_state w of
           Wr_Record record _ \<Rightarrow>
             (case poll_flush_record_inner U (tw_upstream w) record of
                None \<Rightarrow> None
              | Some (_, u, _) \<Rightarrow> shut u)
         | _ \<Rightarrow> shut (tw_upstream w))"

definition tls_sink :: "'u async_write \<Rightarrow> 'u tls_writer async_write" where
  "tls_sink U = \<lparr>aw_write = tw_poll_write U, aw_flush = tw_poll_flush U, aw_shutdown = tw_poll_shutdown U\<rparr>"

text \<open>Awaiting: \<open>write_all\<close> and \<open>flush\<close> of the extension trait poll until they are done.\<close>

partial_function (option) await_write_all ::
  "'u async_write \<Rightarrow> bytes \<Rightarrow> 'u \<Rightarrow> ((io_error_kind + unit) \<times> 'u) option" where
  "await_write_all U data u =
     (if data = [] then Some (Inr (), u)
      else case aw_write U data u of
             None \<Rightarrow> None
           | Some (p, u1) \<Rightarrow>
               (case p of
                  Pending \<Rightarrow> await_write_all U data u1
                | Ready x \<Rightarrow>
                    (case x of
                       Inl e \<Rightarrow> Some (Inl e, u1)
                     | Inr n \<Rightarrow> if n = 0 then Some (Inl IO_WriteZero, u1) else await_write_all U (drop n data) u1)))"

partial_function (option) await_flush ::
  "'u async_write \<Rightarrow> 'u \<Rightarrow> ((io_error_kind + unit) \<times> 'u) option" where
  "await_flush U u =
     (case aw_flush U u of
        None \<Rightarrow> None
      | Some (p, u1) \<Rightarrow> (case p of Pending \<Rightarrow> await_flush U u1 | Ready x \<Rightarrow> Some (x, u1)))"

partial_function (option) write_chunks ::
  "'u async_write \<Rightarrow> bytes \<Rightarrow> nat \<Rightarrow> 'u \<Rightarrow> ((io_error_kind + unit) \<times> 'u) option" where
  "write_chunks U data written u =
     (if written < length data then
        (case await_write_all U (take (min (length data - written) MAX_TLS_PAYLOAD) (drop written data)) u of
           None \<Rightarrow> None
         | Some (x, u1) \<Rightarrow>
             (case x of
                Inl e \<Rightarrow> Some (Inl e, u1)
              | Inr _ \<Rightarrow> write_chunks U data (written + min (length data - written) MAX_TLS_PAYLOAD) u1))
      else await_flush U u)"

definition tw_write_all_tls ::
  "'u async_write \<Rightarrow> bytes \<Rightarrow> 'u tls_writer \<Rightarrow> ((io_error_kind + unit) \<times> 'u tls_writer) option" where
  "tw_write_all_tls U data w = write_chunks (tls_sink U) data 0 w"


subsection \<open>What a stream of records carries\<close>

text \<open>
  The payload of a byte stream that consists of whole records of application data and changes of cipher: the
  specification of both wrappers. A stream that ends inside a record, or has any other record, has none.
\<close>

function unframe :: "bytes \<Rightarrow> bytes option" where
  "unframe bs =
     (if bs = [] then Some []
      else if length bs < 5 then None
      else let h = the (rh_parse (take 5 bs)); n = rh_length h
           in if rh_validate h \<noteq> None \<or> length bs < 5 + n then None
              else if rh_record_type h = TLS_RECORD_APPLICATION then
                map_option ((@) (take n (drop 5 bs))) (unframe (drop (5 + n) bs))
              else if rh_record_type h = TLS_RECORD_CHANGE_CIPHER then unframe (drop (5 + n) bs)
              else None)"
  by pat_completeness auto
termination
  by (relation "measure length") auto

declare unframe.simps [simp del]

lemma unframe_nil [simp]: "unframe [] = Some []"
  by (simp add: unframe.simps)

lemma rh_parse_append: "length hdr = 5 \<Longrightarrow> rh_parse (hdr @ bs) = rh_parse hdr"
  by (simp add: rh_parse_def nth_append)

lemma rh_parse_to_bytes:
  assumes "length (rh_version h) = 2" and "rh_length h \<le> U16_MAX"
  shows "rh_parse (rh_to_bytes h) = Some h"
proof -
  obtain a b where "rh_version h = [a, b]" using assms(1) by (auto simp: length_Suc_conv eval_nat_numeral)
  then show ?thesis using assms(2) by (simp add: rh_parse_def rh_to_bytes_def u16_be_roundtrip)
qed

lemma length_to_bytes [simp]: "length (rh_to_bytes h) = 5"
  by (simp add: rh_to_bytes_def)

text \<open>One record at a time.\<close>

lemma unframe_record:
  assumes "length hdr = 5" and "rh_parse hdr = Some h" and "rh_validate h = None" and "length body = rh_length h"
  shows "unframe (hdr @ body @ rest) =
    (if rh_record_type h = TLS_RECORD_APPLICATION then map_option ((@) body) (unframe rest)
     else if rh_record_type h = TLS_RECORD_CHANGE_CIPHER then unframe rest else None)"
  using assms by (subst unframe.simps) (auto simp: Let_def)

lemma unframe_someE:
  assumes "unframe bs = Some x" and "bs \<noteq> []"
  obtains hdr h body rest y where "bs = hdr @ body @ rest" "length hdr = 5" "rh_parse hdr = Some h" "rh_validate h = None"
    "length body = rh_length h" "unframe rest = Some y"
    "rh_record_type h = TLS_RECORD_APPLICATION \<and> x = body @ y \<or> rh_record_type h = TLS_RECORD_CHANGE_CIPHER \<and> x = y"
proof -
  let ?hdr = "take 5 bs"
  obtain h where h: "rh_parse ?hdr = Some h" by (simp add: rh_parse_def)
  let ?n = "rh_length h"
  have l: "\<not> length bs < 5" and v: "rh_validate h = None" and m: "\<not> length bs < 5 + ?n"
    and c: "rh_record_type h = TLS_RECORD_APPLICATION \<and> map_option ((@) (take ?n (drop 5 bs))) (unframe (drop (5 + ?n) bs)) = Some x \<or>
      rh_record_type h = TLS_RECORD_CHANGE_CIPHER \<and> unframe (drop (5 + ?n) bs) = Some x"
    using assms by (subst (asm) unframe.simps, simp add: h Let_def split: if_splits)+
  from c obtain y where y: "unframe (drop (5 + ?n) bs) = Some y"
    "rh_record_type h = TLS_RECORD_APPLICATION \<and> x = take ?n (drop 5 bs) @ y \<or> rh_record_type h = TLS_RECORD_CHANGE_CIPHER \<and> x = y"
    by auto
  have "bs = ?hdr @ take ?n (drop 5 bs) @ drop (5 + ?n) bs"
    by (metis append_take_drop_id drop_drop add.commute)
  then show ?thesis using that [OF _ _ h v _ y] l m by simp
qed

lemma unframe_append: "unframe a = Some x \<Longrightarrow> unframe (a @ b) = map_option ((@) x) (unframe b)"
proof (induction "length a" arbitrary: a x rule: less_induct)
  case less
  show ?case
  proof (cases "a = []")
    case True
    then show ?thesis using less.prems by (cases "unframe b") simp_all
  next
    case False
    obtain hdr h body rest y where
      a: "a = hdr @ body @ rest" "length hdr = 5" "rh_parse hdr = Some h" "rh_validate h = None"
      "length body = rh_length h" "unframe rest = Some y" and
      t: "rh_record_type h = TLS_RECORD_APPLICATION \<and> x = body @ y \<or> rh_record_type h = TLS_RECORD_CHANGE_CIPHER \<and> x = y"
      by (rule unframe_someE [OF less.prems False])
    have "unframe (rest @ b) = map_option ((@) y) (unframe b)" using less.hyps [of rest y] a by simp
    then show ?thesis using unframe_record [OF a(2-5), of "rest @ b"] a(1) t
      by (cases "unframe b") auto
  qed
qed

lemma build_record_length [simp]: "length (tw_build_record data) = 5 + length data"
  by (simp add: tw_build_record_def)

lemma unframe_build:
  assumes "data \<noteq> []" and "length data \<le> MAX_TLS_PAYLOAD"
  shows "unframe (tw_build_record data) = Some data"
proof -
  let ?h = "\<lparr>rh_record_type = TLS_RECORD_APPLICATION, rh_version = TLS_VERSION, rh_length = length data mod 65536\<rparr>"
  have p: "rh_parse (rh_to_bytes ?h) = Some ?h" using assms by (intro rh_parse_to_bytes) (simp_all add: TLS_VERSION_def)
  have "rh_validate ?h = None" using assms by (simp add: rh_validate_def Let_def)
  then show ?thesis using unframe_record [OF _ p, of data "[]"] assms by (simp add: tw_build_record_def)
qed

text \<open>A valid header of a record that carries or skips data announces at least one byte of body.\<close>

lemma valid_length:
  assumes "rh_validate h = None" and "rh_record_type h = TLS_RECORD_APPLICATION \<or> rh_record_type h = TLS_RECORD_CHANGE_CIPHER"
  shows "0 < rh_length h" and "rh_record_type h = TLS_RECORD_APPLICATION \<Longrightarrow> rh_length h \<le> MAX_TLS_PAYLOAD"
  using assms by (auto simp: rh_validate_def Let_def split: if_splits)

subsection \<open>The contract of the writer\<close>

text \<open>
  The wire is what the stream under the writer has taken followed by the rest of the record in progress. From
  the byte at which the writer started, it is a stream of whole records.
\<close>

definition tw_wire :: "('u \<Rightarrow> bytes) \<Rightarrow> 'u tls_writer \<Rightarrow> bytes" where
  "tw_wire taken w = taken (tw_upstream w) @ (case tw_state w of Wr_Record record _ \<Rightarrow> wb_pending record | _ \<Rightarrow> [])"

definition tw_inv :: "('u \<Rightarrow> bytes) \<Rightarrow> ('u \<Rightarrow> bool) \<Rightarrow> bytes \<Rightarrow> 'u tls_writer \<Rightarrow> bool" where
  "tw_inv taken good b0 w \<longleftrightarrow> good (tw_upstream w) \<and> \<not> tw_is_poisoned w \<and>
     (\<exists>fs. tw_wire taken w = b0 @ fs \<and> unframe fs \<noteq> None)"

definition tw_plain :: "('u \<Rightarrow> bytes) \<Rightarrow> bytes \<Rightarrow> 'u tls_writer \<Rightarrow> bytes" where
  "tw_plain taken b0 w = the (unframe (drop (length b0) (tw_wire taken w)))"

lemma tw_new_inv: "good u \<Longrightarrow> tw_inv taken good (taken u) (tw_new u) \<and> tw_plain taken (taken u) (tw_new u) = []"
  by (simp add: tw_inv_def tw_new_def tw_wire_def tw_plain_def tw_is_poisoned_def)

lemma tw_inv_wire:
  assumes "tw_inv taken good b0 w"
  obtains fs where "tw_wire taken w = b0 @ fs" "unframe fs = Some (tw_plain taken b0 w)"
  using assms by (auto simp: tw_inv_def tw_plain_def)

lemma tw_inv_keep:
  assumes "tw_inv taken good b0 w" and "tw_wire taken w' = tw_wire taken w" and "good (tw_upstream w')" and "\<not> tw_is_poisoned w'"
  shows "tw_inv taken good b0 w' \<and> tw_plain taken b0 w' = tw_plain taken b0 w"
  using assms by (simp add: tw_inv_def tw_plain_def)

lemma tw_inv_extend:
  assumes "tw_inv taken good b0 w" and "tw_wire taken w' = tw_wire taken w @ tw_build_record d" and "d \<noteq> []" and
    "length d \<le> MAX_TLS_PAYLOAD" and "good (tw_upstream w')" and "\<not> tw_is_poisoned w'"
  shows "tw_inv taken good b0 w' \<and> tw_plain taken b0 w' = tw_plain taken b0 w @ d"
proof -
  obtain fs where fs: "tw_wire taken w = b0 @ fs" "unframe fs = Some (tw_plain taken b0 w)" by (rule tw_inv_wire [OF assms(1)])
  have "tw_wire taken w' = b0 @ fs @ tw_build_record d" using assms(2) fs(1) by simp
  moreover have "unframe (fs @ tw_build_record d) = Some (tw_plain taken b0 w @ d)"
    using unframe_append [OF fs(2)] unframe_build [OF assms(3,4)] by simp
  ultimately show ?thesis using assms(5,6) by (simp add: tw_inv_def tw_plain_def)
qed

text \<open>What a write may return, given the payload \<open>pl\<close> before it.\<close>

definition record_outcome ::
  "bool \<Rightarrow> ('u \<Rightarrow> bytes) \<Rightarrow> ('u \<Rightarrow> bool) \<Rightarrow> bytes \<Rightarrow> bytes \<Rightarrow> bytes \<Rightarrow> (nat io_poll \<times> 'u tls_writer) option \<Rightarrow> bool" where
  "record_outcome fails taken good b0 pl buf r =
     (case r of
        None \<Rightarrow> False
      | Some (Pending, w') \<Rightarrow> tw_inv taken good b0 w' \<and> tw_plain taken b0 w' = pl \<and> tw_has_pending w'
      | Some (Ready (Inl e), w') \<Rightarrow> fails
      | Some (Ready (Inr n), w') \<Rightarrow> n = min (length buf) MAX_TLS_PAYLOAD \<and> tw_inv taken good b0 w' \<and>
          tw_plain taken b0 w' = pl @ take n buf)"

locale tls_over_sink = byte_sink U taken good fails
  for U :: "'u async_write" and taken :: "'u \<Rightarrow> bytes" and good :: "'u \<Rightarrow> bool" and fails :: bool +
  fixes b0 :: bytes
begin

lemma flush_record:
  "good u \<Longrightarrow>
   case poll_flush_record_inner U u rcd of
     None \<Rightarrow> False
   | Some (Fl_Error e, u', rcd') \<Rightarrow> fails
   | Some (Fl_Pending, u', rcd') \<Rightarrow>
       good u' \<and> taken u' @ wb_pending rcd' = taken u @ wb_pending rcd \<and> \<not> wb_is_empty rcd'
   | Some (Fl_Complete n, u', rcd') \<Rightarrow> good u' \<and> taken u' = taken u @ wb_pending rcd"
proof (induction "length (wb_pending rcd)" arbitrary: u rcd rule: less_induct)
  case less
  note gu = less.prems
  show ?case
  proof (cases "wb_is_empty rcd")
    case True
    then show ?thesis using gu wb_is_empty_pending [of rcd] by (subst poll_flush_record_inner.simps) simp
  next
    case False
    then have ne: "wb_pending rcd \<noteq> []" by (simp add: wb_is_empty_pending)
    obtain q v where q: "aw_write U (wb_pending rcd) u = Some (q, v)" using write_returns [OF gu] by fastforce
    consider (pend) "q = Pending" | (err) e where "q = Ready (Inl e)" | (zero) "q = Ready (Inr 0)"
      | (more) n where "q = Ready (Inr (Suc n))"
      by (metis io_poll.exhaust not0_implies_Suc sum.exhaust)
    then show ?thesis
    proof cases
      case pend
      then show ?thesis using q write_pending [OF gu q [unfolded pend]] False
        by (subst poll_flush_record_inner.simps) simp
    next
      case (err e)
      then show ?thesis using q write_fails [OF gu q [unfolded err]] False by (subst poll_flush_record_inner.simps) simp
    next
      case zero
      then show ?thesis using q write_some [OF gu q [unfolded zero] ne] False by (subst poll_flush_record_inner.simps) simp
    next
      case (more n)
      let ?r = "wb_advance (Suc n) rcd"
      note ok = write_ok [OF gu q [unfolded more]]
      have p: "wb_pending ?r = drop (Suc n) (wb_pending rcd)" using ok by (intro wb_advance_pending) simp
      have e: "poll_flush_record_inner U u rcd = poll_flush_record_inner U v ?r"
        using q more False by (subst poll_flush_record_inner.simps) simp
      have t: "taken v @ wb_pending ?r = taken u @ wb_pending rcd" using ok p by simp
      have gv: "good v" using ok by simp
      show ?thesis using less.hyps [OF wb_advance_less [OF False, of "Suc n"] gv] by (simp only: e t zero_less_Suc)
    qed
  qed
qed

lemma start_record_step:
  assumes i: "tw_inv taken good b0 w" and idle: "tw_state w = Wr_Idle"
  shows "record_outcome fails taken good b0 (tw_plain taken b0 w) buf (tw_start_record U buf w)"
proof (cases "buf = []")
  case True
  then show ?thesis using i by (simp add: tw_start_record_def record_outcome_def)
next
  case False
  let ?n = "min (length buf) MAX_TLS_PAYLOAD"
  let ?d = "take ?n buf"
  let ?r = "tw_build_record ?d"
  let ?store = "\<lambda>rest. Wr_Record (snd (wb_extend rest (wb_with_max_size MAX_PENDING_WRITE))) ?n"
  have d: "?d \<noteq> []" "length ?d \<le> MAX_TLS_PAYLOAD" using False by simp_all
  have gu: "good (tw_upstream w)" using i by (simp add: tw_inv_def)
  have wire: "tw_wire taken w = taken (tw_upstream w)" using idle by (simp add: tw_wire_def)
  obtain q u where q: "aw_write U ?r (tw_upstream w) = Some (q, u)" using write_returns [OF gu, of ?r] by auto
  have st: "taken u @ wb_pending (snd (wb_extend (drop k ?r) (wb_with_max_size MAX_PENDING_WRITE))) = taken u @ drop k ?r" for k
    by (subst wb_fresh_pending) simp_all
  show ?thesis
  proof (cases q)
    case Pending
    let ?w = "w\<lparr>tw_upstream := u, tw_state := ?store ?r\<rparr>"
    have "tw_inv taken good b0 ?w \<and> tw_plain taken b0 ?w = tw_plain taken b0 w @ ?d"
      using write_pending [OF gu q [unfolded Pending]] wire st [of 0]
      by (intro tw_inv_extend [OF i _ d]) (simp_all add: tw_wire_def tw_is_poisoned_def)
    then show ?thesis using q Pending False by (simp add: tw_start_record_def record_outcome_def Let_def)
  next
    case (Ready x)
    show ?thesis
    proof (cases x)
      case (Inl e)
      then show ?thesis using q Ready write_fails [OF gu] False by (simp add: tw_start_record_def record_outcome_def Let_def)
    next
      case (Inr k)
      note ok = write_ok [OF gu q [unfolded Ready Inr]]
      show ?thesis
      proof (cases "k = length ?r")
        case True
        let ?w = "w\<lparr>tw_upstream := u\<rparr>"
        have "tw_inv taken good b0 ?w \<and> tw_plain taken b0 ?w = tw_plain taken b0 w @ ?d"
          using ok wire True idle by (intro tw_inv_extend [OF i _ d]) (simp_all add: tw_wire_def tw_is_poisoned_def)
        then show ?thesis using q Ready Inr True False by (simp add: tw_start_record_def record_outcome_def Let_def)
      next
        case part: False
        let ?w = "w\<lparr>tw_upstream := u, tw_state := ?store (drop k ?r)\<rparr>"
        have "tw_inv taken good b0 ?w \<and> tw_plain taken b0 ?w = tw_plain taken b0 w @ ?d"
          using ok wire st [of k] by (intro tw_inv_extend [OF i _ d]) (simp_all add: tw_wire_def tw_is_poisoned_def)
        then show ?thesis using q Ready Inr part ok False by (simp add: tw_start_record_def record_outcome_def Let_def)
      qed
    qed
  qed
qed

lemma poll_write_step:
  assumes i: "tw_inv taken good b0 w"
  shows "record_outcome fails taken good b0 (tw_plain taken b0 w) buf (tw_poll_write U buf w)"
proof (cases "tw_state w")
  case Wr_Idle
  then show ?thesis using start_record_step [OF i] by (simp add: tw_poll_write_def)
next
  case (Wr_Poisoned e)
  then show ?thesis using i by (simp add: tw_inv_def tw_is_poisoned_def)
next
  case (Wr_Record rcd k)
  have gu: "good (tw_upstream w)" using i by (simp add: tw_inv_def)
  obtain f u rcd1 where f: "poll_flush_record_inner U (tw_upstream w) rcd = Some (f, u, rcd1)"
    using flush_record [OF gu, of rcd] by (auto split: option.splits)
  note s = flush_record [OF gu, of rcd, unfolded f, simplified]
  show ?thesis
  proof (cases f)
    case (Fl_Complete n)
    let ?w = "w\<lparr>tw_upstream := u, tw_state := Wr_Idle\<rparr>"
    have "tw_inv taken good b0 ?w \<and> tw_plain taken b0 ?w = tw_plain taken b0 w"
      using s Fl_Complete Wr_Record by (intro tw_inv_keep [OF i]) (simp_all add: tw_wire_def tw_is_poisoned_def)
    then show ?thesis using start_record_step [of ?w buf] f Fl_Complete Wr_Record by (simp add: tw_poll_write_def)
  next
    case Fl_Pending
    let ?w = "w\<lparr>tw_upstream := u, tw_state := Wr_Record rcd1 k\<rparr>"
    have "tw_inv taken good b0 ?w \<and> tw_plain taken b0 ?w = tw_plain taken b0 w"
      using s Fl_Pending Wr_Record by (intro tw_inv_keep [OF i]) (simp_all add: tw_wire_def tw_is_poisoned_def)
    then show ?thesis using s f Fl_Pending Wr_Record by (simp add: tw_poll_write_def record_outcome_def tw_has_pending_def)
  next
    case (Fl_Error e)
    then show ?thesis using s f Wr_Record by (simp add: tw_poll_write_def record_outcome_def)
  qed
qed

lemma flush_upstream_step:
  assumes i: "tw_inv taken good b0 w" and idle: "tw_state w = Wr_Idle"
  shows "case tw_flush_upstream U w of
      None \<Rightarrow> False
    | Some (Ready (Inl e), w') \<Rightarrow> fails
    | Some (p, w') \<Rightarrow> tw_inv taken good b0 w' \<and> tw_wire taken w' = tw_wire taken w \<and> tw_state w' = Wr_Idle"
proof -
  have gu: "good (tw_upstream w)" using i by (simp add: tw_inv_def)
  obtain q u where q: "aw_flush U (tw_upstream w) = Some (q, u)" using flush_returns [OF gu] by auto
  have k: "tw_inv taken good b0 (w\<lparr>tw_upstream := u\<rparr>) \<and> tw_wire taken (w\<lparr>tw_upstream := u\<rparr>) = tw_wire taken w"
    if "good u \<and> taken u = taken (tw_upstream w)"
    using i that by (simp add: tw_inv_def tw_wire_def tw_is_poisoned_def)
  show ?thesis
  proof (cases q)
    case Pending
    then show ?thesis using q k flush_pending [OF gu q [unfolded Pending]] idle by (simp add: tw_flush_upstream_def)
  next
    case (Ready x)
    then show ?thesis using q k flush_ok [OF gu] flush_fails [OF gu] idle by (cases x) (simp_all add: tw_flush_upstream_def)
  qed
qed

lemma poll_flush_step:
  assumes i: "tw_inv taken good b0 w"
  shows "case tw_poll_flush U w of
      None \<Rightarrow> False
    | Some (Ready (Inl e), w') \<Rightarrow> fails
    | Some (p, w') \<Rightarrow> tw_inv taken good b0 w' \<and> tw_wire taken w' = tw_wire taken w \<and> (p \<noteq> Pending \<longrightarrow> tw_state w' = Wr_Idle)"
proof (cases "tw_state w")
  case Wr_Idle
  then show ?thesis using flush_upstream_step [OF i]
    by (auto simp: tw_poll_flush_def split: option.splits io_poll.splits sum.splits)
next
  case (Wr_Poisoned e)
  then show ?thesis using i by (simp add: tw_inv_def tw_is_poisoned_def)
next
  case (Wr_Record rcd k)
  have gu: "good (tw_upstream w)" using i by (simp add: tw_inv_def)
  obtain f u rcd1 where f: "poll_flush_record_inner U (tw_upstream w) rcd = Some (f, u, rcd1)"
    using flush_record [OF gu, of rcd] by (auto split: option.splits)
  note s = flush_record [OF gu, of rcd, unfolded f, simplified]
  show ?thesis
  proof (cases f)
    case (Fl_Complete n)
    let ?w = "w\<lparr>tw_upstream := u, tw_state := Wr_Idle\<rparr>"
    have wi: "tw_wire taken ?w = tw_wire taken w" using s Fl_Complete Wr_Record by (simp add: tw_wire_def)
    then have "tw_inv taken good b0 ?w"
      using s Fl_Complete by (intro conjunct1 [OF tw_inv_keep [OF i]]) (simp_all add: tw_is_poisoned_def)
    from flush_upstream_step [OF this] show ?thesis using f Fl_Complete Wr_Record unfolding wi
      by (auto simp: tw_poll_flush_def split: option.splits io_poll.splits sum.splits)
  next
    case Fl_Pending
    let ?w = "w\<lparr>tw_upstream := u, tw_state := Wr_Record rcd1 k\<rparr>"
    have wi: "tw_wire taken ?w = tw_wire taken w" using s Fl_Pending Wr_Record by (simp add: tw_wire_def)
    then have "tw_inv taken good b0 ?w"
      using s Fl_Pending by (intro conjunct1 [OF tw_inv_keep [OF i]]) (simp_all add: tw_is_poisoned_def)
    then show ?thesis using wi s f Fl_Pending Wr_Record by (simp add: tw_poll_flush_def)
  next
    case (Fl_Error e)
    then show ?thesis using s f Wr_Record by (simp add: tw_poll_flush_def)
  qed
qed

text \<open>So the writer is a sink itself, for payload.\<close>

sublocale payload: byte_sink "tls_sink U" "tw_plain taken b0" "tw_inv taken good b0" fails
proof (unfold_locales, goal_cases)
  case (1 w data) then show ?case using poll_write_step [of w data]
    by (cases "tw_poll_write U data w") (simp_all add: tls_sink_def record_outcome_def)
next
  case (2 w data n w') then show ?case using poll_write_step [of w data] by (simp add: tls_sink_def record_outcome_def)
next
  case (3 w data w') then show ?case using poll_write_step [of w data] by (simp add: tls_sink_def record_outcome_def)
next
  case (4 w data w') then show ?case using poll_write_step [of w data]
    by (auto simp: tls_sink_def record_outcome_def min_def split: if_splits)
next
  case (5 w data e w') then show ?case using poll_write_step [of w data] by (simp add: tls_sink_def record_outcome_def)
next
  case (6 w) then show ?case using poll_flush_step [of w]
    by (cases "tw_poll_flush U w") (simp_all add: tls_sink_def)
next
  case (7 w x w') then show ?case using poll_flush_step [of w] by (simp add: tls_sink_def tw_plain_def)
next
  case (8 w w') then show ?case using poll_flush_step [of w] by (simp add: tls_sink_def tw_plain_def)
next
  case (9 w e w') then show ?case using poll_flush_step [of w] by (simp add: tls_sink_def)
qed

lemma is_tls_sink: "byte_sink (tls_sink U) (tw_plain taken b0) (tw_inv taken good b0) fails"
  by (rule payload.byte_sink_axioms)

end

subsection \<open>The contract of the reader\<close>

text \<open>The payload from the middle of a record on, and what a reader has still to return, in each of its states.\<close>

definition body_rest :: "u8 \<Rightarrow> nat \<Rightarrow> bytes \<Rightarrow> bytes option" where
  "body_rest ty len bs =
     (if length bs < len then None
      else if ty = TLS_RECORD_APPLICATION then map_option ((@) (take len bs)) (unframe (drop len bs))
      else if ty = TLS_RECORD_CHANGE_CIPHER then unframe (drop len bs)
      else None)"

definition tr_rest :: "('u \<Rightarrow> bytes) \<Rightarrow> 'u tls_reader \<Rightarrow> bytes option" where
  "tr_rest left r =
     (case tr_state r of
        Rd_Idle \<Rightarrow> unframe (left (tr_upstream r))
      | Rd_Header header \<Rightarrow> unframe (hb_as_slice header @ left (tr_upstream r))
      | Rd_Body ty len buffer \<Rightarrow> body_rest ty len (buffer @ left (tr_upstream r))
      | Rd_Yielding buffer \<Rightarrow> map_option ((@) (yb_as_slice buffer)) (unframe (left (tr_upstream r)))
      | Rd_Poisoned _ \<Rightarrow> None)"

definition tr_left :: "('u \<Rightarrow> bytes) \<Rightarrow> 'u tls_reader \<Rightarrow> bytes" where
  "tr_left left r = the (tr_rest left r)"

definition tr_good :: "('u \<Rightarrow> bytes) \<Rightarrow> ('u \<Rightarrow> bool) \<Rightarrow> 'u tls_reader \<Rightarrow> bool" where
  "tr_good left good r \<longleftrightarrow> good (tr_upstream r) \<and> tr_rest left r \<noteq> None \<and>
     (case tr_state r of
        Rd_Header header \<Rightarrow> hb_ok TLS_HEADER_SIZE header
      | Rd_Body ty len buffer \<Rightarrow> length buffer \<le> len \<and> 0 < len
      | Rd_Yielding buffer \<Rightarrow> \<not> yb_is_empty buffer
      | _ \<Rightarrow> True)"

text \<open>How far the reader is from returning.\<close>

definition tr_rank :: "('u \<Rightarrow> bytes) \<Rightarrow> 'u tls_reader \<Rightarrow> nat" where
  "tr_rank left r =
     (case tr_state r of
        Rd_Idle \<Rightarrow> 4 * length (left (tr_upstream r)) + 3
      | Rd_Header header \<Rightarrow> 4 * length (hb_as_slice header @ left (tr_upstream r)) + 2
      | Rd_Body ty len buffer \<Rightarrow> 4 * length (buffer @ left (tr_upstream r)) + 1
      | _ \<Rightarrow> 0)"

lemma unframe_header:
  assumes "length hdr = 5" and "rh_parse hdr = Some h" and "unframe (hdr @ bs) = Some x"
  shows "rh_validate h = None" and "body_rest (rh_record_type h) (rh_length h) bs = Some x" and "0 < rh_length h"
proof -
  have ne: "hdr \<noteq> []" using assms(1) by auto
  have "rh_validate h = None \<and> body_rest (rh_record_type h) (rh_length h) bs = Some x"
    using assms ne by (subst (asm) unframe.simps) (auto simp: Let_def body_rest_def split: if_splits)
  then show "rh_validate h = None" "body_rest (rh_record_type h) (rh_length h) bs = Some x" by simp_all
  then show "0 < rh_length h" by (intro valid_length) (auto simp: body_rest_def split: if_splits)
qed

lemma unframe_short: "length bs < 5 \<Longrightarrow> unframe bs = (if bs = [] then Some [] else None)"
  by (subst unframe.simps) simp

definition read_outcome ::
  "bool \<Rightarrow> ('u \<Rightarrow> bytes) \<Rightarrow> ('u \<Rightarrow> bool) \<Rightarrow> nat \<Rightarrow> bytes \<Rightarrow> (bytes io_poll \<times> 'u tls_reader) option \<Rightarrow> bool" where
  "read_outcome fails left good room pl res =
     (case res of
        None \<Rightarrow> False
      | Some (Pending, r') \<Rightarrow> tr_good left good r' \<and> tr_left left r' = pl
      | Some (Ready (Inl e), r') \<Rightarrow> fails
      | Some (Ready (Inr bs), r') \<Rightarrow> tr_good left good r' \<and> length bs \<le> room \<and> pl = bs @ tr_left left r' \<and>
          (bs = [] \<longrightarrow> room = 0 \<or> pl = []))"

definition goes_on :: "'u async_read \<Rightarrow> ('u \<Rightarrow> bytes) \<Rightarrow> ('u \<Rightarrow> bool) \<Rightarrow> nat \<Rightarrow> 'u tls_reader \<Rightarrow> 'u tls_reader \<Rightarrow> bool" where
  "goes_on R left good room r r1 \<longleftrightarrow> tr_poll_read R room r = tr_poll_read R room r1 \<and> tr_rank left r1 < tr_rank left r \<and>
     tr_good left good r1 \<and> tr_rest left r1 = tr_rest left r"

text \<open>Whatever the bytes are: the states from which a poll returns.\<close>

definition tr_wf :: "('u \<Rightarrow> bool) \<Rightarrow> 'u tls_reader \<Rightarrow> bool" where
  "tr_wf good r \<longleftrightarrow>
     (case tr_state r of
        Rd_Poisoned _ \<Rightarrow> True
      | Rd_Header header \<Rightarrow> good (tr_upstream r) \<and> hb_ok TLS_HEADER_SIZE header
      | Rd_Body ty len buffer \<Rightarrow> good (tr_upstream r) \<and> length buffer \<le> len \<and> 0 < len
      | _ \<Rightarrow> good (tr_upstream r))"

fun is_failure :: "'a io_poll \<Rightarrow> bool" where
  "is_failure (Ready (Inl _)) = True"
| "is_failure _ = False"

definition stop_outcome :: "('u \<Rightarrow> bool) \<Rightarrow> 'u tls_reader \<Rightarrow> (bytes io_poll \<times> 'u tls_reader) option \<Rightarrow> bool" where
  "stop_outcome good r res =
     (case res of
        None \<Rightarrow> False
      | Some (p, r') \<Rightarrow> tr_wf good r' \<and> (is_failure p \<longrightarrow> tr_is_poisoned r') \<and> (tr_is_poisoned r \<longrightarrow> is_failure p))"

definition steps_to :: "'u async_read \<Rightarrow> ('u \<Rightarrow> bytes) \<Rightarrow> ('u \<Rightarrow> bool) \<Rightarrow> nat \<Rightarrow> 'u tls_reader \<Rightarrow> 'u tls_reader \<Rightarrow> bool" where
  "steps_to R left good room r r1 \<longleftrightarrow> tr_poll_read R room r = tr_poll_read R room r1 \<and> tr_rank left r1 < tr_rank left r \<and>
     tr_wf good r1 \<and> \<not> tr_is_poisoned r"

lemmas stop_defs = stop_outcome_def tr_wf_def tr_is_poisoned_def tr_poison_def

lemma valid_nonempty: "rh_validate h = None \<Longrightarrow> 0 < rh_length h"
  by (auto simp: rh_validate_def Let_def split: if_splits)

locale tls_over_source = byte_source R left good fails
  for R :: "'u async_read" and left :: "'u \<Rightarrow> bytes" and good :: "'u \<Rightarrow> bool" and fails :: bool
begin

lemma header_step:
  "good u \<Longrightarrow> hb_ok 5 header \<Longrightarrow>
   case poll_read_header R u header of
     None \<Rightarrow> False
   | Some (Hp_Pending, u', header') \<Rightarrow>
       good u' \<and> hb_ok 5 header' \<and> hb_as_slice header' @ left u' = hb_as_slice header @ left u
   | Some (Hp_Eof, u', header') \<Rightarrow> good u' \<and> hb_as_slice header @ left u = [] \<and> left u' = []
   | Some (Hp_Complete h, u', header') \<Rightarrow>
       good u' \<and> length (hb_as_slice header') = 5 \<and> rh_parse (hb_as_slice header') = Some h \<and>
       hb_as_slice header' @ left u' = hb_as_slice header @ left u
   | Some (Hp_Error e, u', header') \<Rightarrow>
       fails \<or> hb_as_slice header @ left u \<noteq> [] \<and> length (hb_as_slice header @ left u) < 5"
proof (induction "hb_remaining header" arbitrary: u header rule: less_induct)
  case less
  note gu = less.prems(1) and ok = less.prems(2)
  show ?case
  proof (cases "hb_is_complete header")
    case True
    then show ?thesis using gu hb_complete_slice [OF ok True]
      by (subst poll_read_header.simps) (simp add: hb_as_array_def rh_parse_def)
  next
    case False
    obtain q v where q: "ar_read R (hb_remaining header) u = Some (q, v)" using read_returns [OF gu] by fastforce
    have rem: "0 < hb_remaining header" "length (hb_as_slice header) < 5"
      using False ok by (auto simp: hb_is_complete_def hb_remaining_def hb_ok_def hb_as_slice_def)
    show ?thesis
    proof (cases q)
      case Pending
      then show ?thesis using q read_pending [OF gu q [unfolded Pending]] False ok
        by (subst poll_read_header.simps) simp
    next
      case (Ready x)
      show ?thesis
      proof (cases x)
        case (Inl e)
        then show ?thesis using q Ready read_fails [OF gu] False by (subst poll_read_header.simps) simp
      next
        case (Inr bs)
        note rd = read_ok [OF gu q [unfolded Ready Inr]]
        then have tk: "take (hb_remaining header) bs = bs" by simp
        show ?thesis
        proof (cases "bs = []")
          case True
          then have "left u = []" "left v = []" using rd rem by auto
          then show ?thesis using q Ready Inr False True rd rem by (subst poll_read_header.simps) simp
        next
          case ne: False
          let ?h = "hb_advance (length bs) (hb_read_into bs header)"
          have f: "hb_ok 5 ?h" "hb_as_slice ?h = hb_as_slice header @ bs" using hb_fill [OF ok, of bs] rd by simp_all
          have e: "poll_read_header R u header = poll_read_header R v ?h"
            using q Ready Inr False ne tk by (subst poll_read_header.simps) (simp add: Let_def)
          have l: "hb_as_slice ?h @ left v = hb_as_slice header @ left u" using f rd by simp
          have "hb_remaining ?h < hb_remaining header"
            using hb_remaining_slice [of 5 ?h] hb_remaining_slice [OF ok] f rd ne rem by (cases bs) simp_all
          from less.hyps [OF this _ f(1), of v] rd show ?thesis by (simp only: e l)
        qed
      qed
    qed
  qed
qed

lemma body_step:
  "good u \<Longrightarrow> length buffer \<le> n \<Longrightarrow>
   case poll_read_body R u buffer n of
     None \<Rightarrow> False
   | Some (Bp_Pending, u', buffer') \<Rightarrow> good u' \<and> length buffer' \<le> n \<and> buffer' @ left u' = buffer @ left u
   | Some (Bp_Complete data, u', buffer') \<Rightarrow> good u' \<and> length data = n \<and> data @ left u' = buffer @ left u
   | Some (Bp_Error e, u', buffer') \<Rightarrow> fails \<or> length (buffer @ left u) < n"
proof (induction "n - length buffer" arbitrary: u buffer rule: less_induct)
  case less
  note gu = less.prems(1)
  let ?c = "min (n - length buffer) 8192"
  show ?case
  proof (cases "length buffer < n")
    case False
    then show ?thesis using less.prems by (subst poll_read_body.simps) simp
  next
    case True
    obtain q v where q: "ar_read R ?c u = Some (q, v)" using read_returns [OF gu] by fastforce
    show ?thesis
    proof (cases q)
      case Pending
      then show ?thesis using q read_pending [OF gu q [unfolded Pending]] True
        by (subst poll_read_body.simps) simp
    next
      case (Ready x)
      show ?thesis
      proof (cases x)
        case (Inl e)
        then show ?thesis using q Ready read_fails [OF gu] True by (subst poll_read_body.simps) simp
      next
        case (Inr bs)
        note rd = read_ok [OF gu q [unfolded Ready Inr]]
        then have tk: "take ?c bs = bs" and lb: "length bs \<le> ?c" by simp_all
        show ?thesis
        proof (cases "bs = []")
          case nil: True
          then have "left u = []" using rd True by auto
          then show ?thesis using q Ready Inr nil True by (subst poll_read_body.simps) (simp add: Let_def)
        next
          case ne: False
          have e: "poll_read_body R u buffer n = poll_read_body R v (buffer @ bs) n"
            using q Ready Inr True ne tk by (subst poll_read_body.simps) (simp add: Let_def)
          have l: "(buffer @ bs) @ left v = buffer @ left u" using rd by simp
          have "n - length (buffer @ bs) < n - length buffer" "length (buffer @ bs) \<le> n"
            using lb ne True by (auto simp flip: length_greater_0_conv)
          from less.hyps [OF this(1) _ this(2), of v] rd show ?thesis by (simp only: e l)
        qed
      qed
    qed
  qed
qed

lemma yield_step:
  assumes "tr_good left good r" and "tr_state r = Rd_Yielding buffer"
  shows "read_outcome fails left good room (tr_left left r) (tr_poll_read R room r)"
proof (cases "room = 0")
  case True
  then show ?thesis using assms by (subst tr_poll_read.simps) (simp add: read_outcome_def)
next
  case False
  let ?c = "yb_copy_to (min (yb_remaining buffer) room) buffer"
  let ?r = "r\<lparr>tr_state := (if yb_is_empty (snd ?c) then Rd_Idle else Rd_Yielding (snd ?c))\<rparr>"
  obtain y where y: "unframe (left (tr_upstream r)) = Some y" and ne: "yb_as_slice buffer \<noteq> []"
    using assms by (auto simp: tr_good_def tr_rest_def yb_empty_slice)
  have "tr_rest left ?r = Some (yb_as_slice (snd ?c) @ y)"
    using y by (auto simp: tr_rest_def yb_empty_slice)
  moreover have "tr_left left r = fst ?c @ yb_as_slice (snd ?c) @ y"
    using y assms(2) yb_copy [of _ buffer] by (simp add: tr_left_def tr_rest_def flip: append_assoc)
  moreover have "length (fst ?c) \<le> room" "fst ?c \<noteq> []"
    using ne False yb_copy_length [of "min (yb_remaining buffer) room" buffer]
    by (auto simp: yb_remaining_def yb_as_slice_def simp flip: length_0_conv)
  ultimately show ?thesis using assms False
    by (subst tr_poll_read.simps) (simp add: read_outcome_def tr_good_def tr_left_def)
qed

lemma idle_read_step:
  assumes "tr_good left good r" and "tr_state r = Rd_Idle"
  shows "read_outcome fails left good room (tr_left left r) (tr_poll_read R room r) \<or>
    goes_on R left good room r (r\<lparr>tr_state := Rd_Header (hb_new TLS_HEADER_SIZE)\<rparr>)"
proof (cases "room = 0")
  case True
  then show ?thesis using assms by (subst tr_poll_read.simps) (simp add: read_outcome_def)
next
  case False
  then have "tr_poll_read R room r = tr_poll_read R room (r\<lparr>tr_state := Rd_Header (hb_new TLS_HEADER_SIZE)\<rparr>)"
    using assms by (subst tr_poll_read.simps) simp
  then show ?thesis using assms by (simp add: goes_on_def tr_rank_def tr_good_def tr_rest_def)
qed

lemma header_read_step:
  assumes g: "tr_good left good r" and st: "tr_state r = Rd_Header header"
  shows "read_outcome fails left good room (tr_left left r) (tr_poll_read R room r) \<or> (\<exists>r1. goes_on R left good room r r1)"
proof -
  let ?bs = "hb_as_slice header @ left (tr_upstream r)"
  have gu: "good (tr_upstream r)" and ok: "hb_ok 5 header" using g st by (simp_all add: tr_good_def)
  obtain x where x: "unframe ?bs = Some x" using g st by (auto simp: tr_good_def tr_rest_def)
  obtain p u h1 where p: "poll_read_header R (tr_upstream r) header = Some (p, u, h1)"
    using header_step [OF gu ok] by (auto split: option.splits)
  note s = header_step [OF gu ok, unfolded p, simplified]
  note defs = read_outcome_def tr_good_def tr_left_def tr_rest_def
  show ?thesis
  proof (cases p)
    case Hp_Pending
    then show ?thesis using p s st x by (subst tr_poll_read.simps) (simp add: defs)
  next
    case Hp_Eof
    then show ?thesis using p s st x by (subst tr_poll_read.simps) (simp add: defs)
  next
    case (Hp_Error e)
    then show ?thesis using p s st x unframe_short [of ?bs]
      by (subst tr_poll_read.simps) (auto simp: read_outcome_def tr_poison_def)
  next
    case (Hp_Complete h)
    let ?r = "r\<lparr>tr_upstream := u, tr_state := Rd_Body (rh_record_type h) (rh_length h) []\<rparr>"
    have c: "good u" "length (hb_as_slice h1) = 5" "rh_parse (hb_as_slice h1) = Some h" "hb_as_slice h1 @ left u = ?bs"
      using Hp_Complete s by simp_all
    note v = unframe_header [OF c(2,3), of "left u" x, unfolded c(4), OF x]
    have "length (left u) < length ?bs" using c(2) arg_cong [OF c(4), of length] by simp
    moreover have "tr_poll_read R room r = tr_poll_read R room ?r" using p Hp_Complete st v by (subst tr_poll_read.simps) simp
    ultimately have "goes_on R left good room r ?r" using st c v x by (simp add: goes_on_def tr_rank_def tr_good_def tr_rest_def)
    then show ?thesis by blast
  qed
qed

lemma body_read_step:
  assumes g: "tr_good left good r" and st: "tr_state r = Rd_Body ty len buffer"
  shows "read_outcome fails left good room (tr_left left r) (tr_poll_read R room r) \<or> (\<exists>r1. goes_on R left good room r r1)"
proof -
  let ?bs = "buffer @ left (tr_upstream r)"
  have gu: "good (tr_upstream r)" and lb: "length buffer \<le> len" and l0: "0 < len" using g st by (simp_all add: tr_good_def)
  obtain x where x: "body_rest ty len ?bs = Some x" using g st by (auto simp: tr_good_def tr_rest_def)
  obtain p u b1 where p: "poll_read_body R (tr_upstream r) buffer len = Some (p, u, b1)"
    using body_step [OF gu lb] by (auto split: option.splits)
  note s = body_step [OF gu lb, unfolded p, simplified]
  show ?thesis
  proof (cases p)
    case Bp_Pending
    then show ?thesis using p s st x l0
      by (subst tr_poll_read.simps) (simp add: read_outcome_def tr_good_def tr_left_def tr_rest_def)
  next
    case (Bp_Error e)
    then show ?thesis using p s st x by (subst tr_poll_read.simps) (auto simp: read_outcome_def tr_poison_def body_rest_def)
  next
    case (Bp_Complete data)
    let ?r = "r\<lparr>tr_upstream := u, tr_state := (if ty = TLS_RECORD_CHANGE_CIPHER then Rd_Idle else Rd_Yielding (yb_new data))\<rparr>"
    have c: "good u" "length data = len" "data @ left u = ?bs" using Bp_Complete s by simp_all
    have b: "body_rest ty len (data @ left u) = Some x" using x c(3) by simp
    then have ty: "ty = TLS_RECORD_CHANGE_CIPHER \<or> ty = TLS_RECORD_APPLICATION" by (simp add: body_rest_def split: if_splits)
    have ne: "data \<noteq> []" using c(2) l0 by auto
    have "tr_poll_read R room r = tr_poll_read R room ?r" using p Bp_Complete st ty ne by (subst tr_poll_read.simps) auto
    moreover have "tr_rank left ?r < tr_rank left r"
      using st c(2) l0 arg_cong [OF c(3), of length] by (simp add: tr_rank_def)
    moreover have "tr_rest left ?r = Some x"
      using b c(2) ty by (auto simp: tr_rest_def body_rest_def yb_new_def yb_as_slice_def)
    ultimately have "goes_on R left good room r ?r" using st c(1) x ne
      by (simp add: goes_on_def tr_good_def tr_rest_def yb_is_empty_def yb_new_def)
    then show ?thesis by blast
  qed
qed

lemma poll_read_step:
  "tr_good left good r \<Longrightarrow> read_outcome fails left good room (tr_left left r) (tr_poll_read R room r)"
proof (induction "tr_rank left r" arbitrary: r rule: less_induct)
  case less
  have "read_outcome fails left good room (tr_left left r) (tr_poll_read R room r) \<or> (\<exists>r1. goes_on R left good room r r1)"
  proof (cases "tr_state r")
    case (Rd_Poisoned e)
    then show ?thesis using less.prems by (simp add: tr_good_def tr_rest_def)
  next
    case (Rd_Yielding buffer)
    then show ?thesis using yield_step [OF less.prems] by simp
  next
    case Rd_Idle
    then show ?thesis using idle_read_step [OF less.prems] by blast
  next
    case (Rd_Header header)
    then show ?thesis by (rule header_read_step [OF less.prems])
  next
    case (Rd_Body ty len buffer)
    then show ?thesis by (rule body_read_step [OF less.prems])
  qed
  then show ?case
  proof
    assume "\<exists>r1. goes_on R left good room r r1"
    then obtain r1 where r1: "goes_on R left good room r r1" by blast
    then show ?thesis using less.hyps [of r1] by (simp add: goes_on_def tr_left_def)
  qed
qed

text \<open>So the reader is a source itself, of payload.\<close>

sublocale payload: byte_source "tls_source R" "tr_left left" "tr_good left good" fails
proof (unfold_locales, goal_cases)
  case (1 r n) then show ?case using poll_read_step [of r n]
    by (cases "tr_poll_read R n r") (simp_all add: tls_source_def read_outcome_def)
next
  case (2 r n bs r') then show ?case using poll_read_step [of r n] by (auto simp: tls_source_def read_outcome_def)
next
  case (3 r n r') then show ?case using poll_read_step [of r n] by (simp add: tls_source_def read_outcome_def)
next
  case (4 r n e r') then show ?case using poll_read_step [of r n] by (simp add: tls_source_def read_outcome_def)
qed

lemma is_tls_source: "byte_source (tls_source R) (tr_left left) (tr_good left good) fails"
  by (rule payload.byte_source_axioms)

text \<open>On any bytes at all: each poll returns, and a failure is final.\<close>

lemma header_total:
  assumes w: "tr_wf good r" and st: "tr_state r = Rd_Header header"
  shows "stop_outcome good r (tr_poll_read R room r) \<or> (\<exists>r1. steps_to R left good room r r1)"
proof -
  have gu: "good (tr_upstream r)" and ok: "hb_ok 5 header" using w st by (simp_all add: tr_wf_def)
  obtain p u h1 where p: "poll_read_header R (tr_upstream r) header = Some (p, u, h1)"
    using header_step [OF gu ok] by (auto split: option.splits)
  note s = header_step [OF gu ok, unfolded p, simplified]
  show ?thesis
  proof (cases "\<exists>h. p = Hp_Complete h \<and> rh_validate h = None")
    case False
    then show ?thesis using p s st by (subst tr_poll_read.simps) (cases p; auto simp: stop_defs split: option.split)
  next
    case True
    then obtain h where h: "p = Hp_Complete h" "rh_validate h = None" by blast
    let ?r = "r\<lparr>tr_upstream := u, tr_state := Rd_Body (rh_record_type h) (rh_length h) []\<rparr>"
    have c: "good u" "length (hb_as_slice h1) = 5" "hb_as_slice h1 @ left u = hb_as_slice header @ left (tr_upstream r)"
      using h s by simp_all
    have "length (left u) < length (hb_as_slice header @ left (tr_upstream r))"
      using c(2) arg_cong [OF c(3), of length] by simp
    moreover have "tr_poll_read R room r = tr_poll_read R room ?r" using p h st by (subst tr_poll_read.simps) simp
    ultimately have "steps_to R left good room r ?r" using c(1) st valid_nonempty [OF h(2)]
      by (simp add: steps_to_def tr_rank_def stop_defs)
    then show ?thesis by blast
  qed
qed

lemma body_total:
  assumes w: "tr_wf good r" and st: "tr_state r = Rd_Body ty len buffer"
  shows "stop_outcome good r (tr_poll_read R room r) \<or> (\<exists>r1. steps_to R left good room r r1)"
proof -
  have gu: "good (tr_upstream r)" and lb: "length buffer \<le> len" and l0: "0 < len" using w st by (simp_all add: tr_wf_def)
  obtain p u b1 where p: "poll_read_body R (tr_upstream r) buffer len = Some (p, u, b1)"
    using body_step [OF gu lb] by (auto split: option.splits)
  note s = body_step [OF gu lb, unfolded p, simplified]
  show ?thesis
  proof (cases "\<exists>d. p = Bp_Complete d \<and> (ty = TLS_RECORD_CHANGE_CIPHER \<or> ty = TLS_RECORD_APPLICATION)")
    case False
    then show ?thesis using p s st l0 by (subst tr_poll_read.simps) (cases p; auto simp: stop_defs)
  next
    case True
    then obtain d where d: "p = Bp_Complete d" and ty: "ty = TLS_RECORD_CHANGE_CIPHER \<or> ty = TLS_RECORD_APPLICATION" by blast
    let ?r = "r\<lparr>tr_upstream := u, tr_state := (if ty = TLS_RECORD_CHANGE_CIPHER then Rd_Idle else Rd_Yielding (yb_new d))\<rparr>"
    have c: "good u" "length d = len" "d @ left u = buffer @ left (tr_upstream r)" using d s by simp_all
    then have "d \<noteq> []" using l0 by auto
    then have "tr_poll_read R room r = tr_poll_read R room ?r" using p d st ty by (subst tr_poll_read.simps) auto
    moreover have "tr_rank left ?r < tr_rank left r" using st c(2) l0 arg_cong [OF c(3), of length] by (simp add: tr_rank_def)
    ultimately have "steps_to R left good room r ?r" using c(1) st by (simp add: steps_to_def stop_defs)
    then show ?thesis by blast
  qed
qed

lemma poll_read_total: "tr_wf good r \<Longrightarrow> stop_outcome good r (tr_poll_read R room r)"
proof (induction "tr_rank left r" arbitrary: r rule: less_induct)
  case less
  have "stop_outcome good r (tr_poll_read R room r) \<or> (\<exists>r1. steps_to R left good room r r1)"
  proof (cases "tr_state r")
    case (Rd_Poisoned e)
    then show ?thesis by (subst tr_poll_read.simps) (simp add: stop_defs)
  next
    case (Rd_Yielding buffer)
    then show ?thesis using less.prems by (subst tr_poll_read.simps) (simp add: stop_defs)
  next
    case Rd_Idle
    let ?r = "r\<lparr>tr_state := Rd_Header (hb_new TLS_HEADER_SIZE)\<rparr>"
    have "tr_poll_read R room r = (if room = 0 then Some (Ready (Inr []), r) else tr_poll_read R room ?r)"
      using Rd_Idle by (subst tr_poll_read.simps) simp
    then have "room = 0 \<and> stop_outcome good r (tr_poll_read R room r) \<or> steps_to R left good room r ?r"
      using less.prems Rd_Idle by (auto simp: stop_defs steps_to_def tr_rank_def)
    then show ?thesis by blast
  next
    case (Rd_Header header)
    then show ?thesis by (rule header_total [OF less.prems])
  next
    case (Rd_Body ty len buffer)
    then show ?thesis by (rule body_total [OF less.prems])
  qed
  then show ?case
  proof
    assume "\<exists>r1. steps_to R left good room r r1"
    then obtain r1 where r1: "steps_to R left good room r r1" by blast
    then show ?thesis using less.hyps [of r1] by (auto simp: steps_to_def stop_outcome_def split: option.splits)
  qed
qed

end

text \<open>Polls in a row, whatever they return.\<close>

fun poll_reads :: "'u async_read \<Rightarrow> nat list \<Rightarrow> 'u \<Rightarrow> (bytes io_poll list \<times> 'u) option" where
  "poll_reads R [] u = Some ([], u)"
| "poll_reads R (n # ns) u =
     (case ar_read R n u of
        None \<Rightarrow> None
      | Some (p, u1) \<Rightarrow> (case poll_reads R ns u1 of None \<Rightarrow> None | Some (ps, u2) \<Rightarrow> Some (p # ps, u2)))"

fun failures_last :: "'a io_poll list \<Rightarrow> bool" where
  "failures_last [] \<longleftrightarrow> True"
| "failures_last (p # ps) \<longleftrightarrow> (if is_failure p then list_all is_failure ps else failures_last ps)"

context tls_over_source
begin

lemma poll_reads_total:
  "tr_wf good r \<Longrightarrow>
   case poll_reads (tls_source R) ns r of
     None \<Rightarrow> False
   | Some (ps, r') \<Rightarrow> length ps = length ns \<and> failures_last ps \<and> (tr_is_poisoned r \<longrightarrow> list_all is_failure ps)"
proof (induction ns arbitrary: r)
  case (Cons n ns)
  obtain p r1 where p: "tr_poll_read R n r = Some (p, r1)" and o: "tr_wf good r1" "is_failure p \<longrightarrow> tr_is_poisoned r1"
      "tr_is_poisoned r \<longrightarrow> is_failure p"
    using poll_read_total [OF Cons.prems, of n] by (auto simp: stop_outcome_def split: option.splits)
  then show ?case using Cons.IH [OF o(1)] by (auto simp: tls_source_def split: option.splits)
qed simp

end

subsection \<open>The streams of the proxy\<close>

text \<open>Records over sockets, and the cipher over the records.\<close>

interpretation tls_out: tls_over_sink sock_sink sk_bytes sock_good False b0 for b0
  by (rule tls_over_sink.intro) (rule sock_out.byte_sink_axioms)

interpretation tls_in: tls_over_source sock_source sk_bytes sock_good False
  by (rule tls_over_source.intro) (rule sock_in.byte_source_axioms)

interpretation masked_out: cipher_over_sink "tls_sink sock_sink" "tw_plain sk_bytes b0" "tw_inv sk_bytes sock_good b0" False ks c0 p0
  for b0 ks c0 p0
  by (rule cipher_over_sink.intro) (rule tls_out.is_tls_sink)

interpretation masked_in: cipher_over_source "tls_source sock_source" "tr_left sk_bytes" "tr_good sk_bytes sock_good" False ks for ks
  by (rule cipher_over_source.intro) (rule tls_in.is_tls_source)

lemma tw_settled: "\<not> tw_has_pending w \<Longrightarrow> tw_wire taken w = taken (tw_upstream w)"
  by (auto simp: tw_has_pending_def tw_wire_def wb_is_empty_pending split: tls_writer_state.splits)

lemma cw_settled: "\<not> cw_has_pending w \<Longrightarrow> cw_wire taken w = taken (cw_upstream w)"
  by (auto simp: cw_has_pending_def cw_wire_def split: cw_state.splits)

lemma tr_new_good: "good v \<Longrightarrow> unframe (left v) = Some x \<Longrightarrow> tr_good left good (tr_new v) \<and> tr_left left (tr_new v) = x"
  by (simp add: tr_good_def tr_new_def tr_rest_def tr_left_def)

subsection \<open>Properties\<close>

text \<open>
  C13. The record layer is transparent. Over streams that keep their contracts, after any writes and flushes
  that succeeded, the wire (with the rest of the record in progress) is a sequence of whole application
  records whose payload is exactly what was accepted; a reader of that wire returns a front part of it over any
  reads, and all of it when nothing is left.
\<close>

theorem tls_stream_roundtrip:
  assumes "byte_sink U taken good fails" and "good u"
    and "make_calls (tls_sink U) cs (tw_new u) = Some (acc, w)"
    and "byte_source R left good' fails'" and "good' v" and "tw_wire taken w = taken u @ left v"
    and "make_reads (tls_source R) ns (tr_new v) = Some (out, r)"
  shows "unframe (left v) = Some acc \<and> take (length out) acc = out \<and>
    (left (tr_upstream r) = [] \<and> tr_state r = Rd_Idle \<longrightarrow> out = acc)"
proof -
  have l: "tls_over_sink U taken good fails" using assms(1) by (rule tls_over_sink.intro)
  have i: "tw_inv taken good (taken u) w" and p: "tw_plain taken (taken u) w = acc"
    using byte_sink.make_calls_taken [OF tls_over_sink.is_tls_sink [OF l, of "taken u"] _ assms(3)] tw_new_inv [of good u taken] assms(2)
    by simp_all
  from i p assms(6) have u: "unframe (left v) = Some acc" by (auto simp: tw_inv_def tw_plain_def)
  have m: "tls_over_source R left good' fails'" using assms(4) by (rule tls_over_source.intro)
  from byte_source.make_reads_left [OF tls_over_source.is_tls_source [OF m] _ assms(7)] tr_new_good [of good' v left, OF assms(5) u]
  have "tr_good left good' r" "acc = out @ tr_left left r" by simp_all
  then show ?thesis using u by (auto simp: tr_left_def tr_rest_def)
qed

text \<open>
  C19. The reader answers every poll on every stream of bytes, well formed or not, and stops at a failure: once a
  poll has failed, so does each poll after it, and no byte that follows is ever taken for payload.
\<close>

theorem tls_reader_fail_stop:
  assumes "byte_source R left good fails" and "good v"
  shows "case poll_reads (tls_source R) ns (tr_new v) of
      None \<Rightarrow> False
    | Some (ps, r) \<Rightarrow> length ps = length ns \<and> failures_last ps"
proof -
  have "tr_wf good (tr_new v)" using assms(2) by (simp add: tr_wf_def tr_new_def)
  from tls_over_source.poll_reads_total [OF tls_over_source.intro [OF assms(1)] this, of ns] show ?thesis
    by (auto split: option.splits)
qed

text \<open>
  C3. The streams of a connection in TLS mode, end to end: on sockets that do not fail, a cipher over records on one
  side and the same on the other. Writes and flushes succeed; once nothing is pending, every read on the
  other side succeeds and returns the next part of the plaintext, and the whole of it when the socket is drained.
\<close>

theorem masked_stream_roundtrip:
  assumes "sock_good s" and "make_calls (cipher_sink ks (tls_sink sock_sink)) cs (cw_new (tw_new s) c mx) = Some (acc, w)"
    and "\<not> cw_has_pending w" and "\<not> tw_has_pending (cw_upstream w)"
    and "sock_good t" and "sk_bytes (tw_upstream (cw_upstream w)) = sk_bytes s @ sk_bytes t"
  shows "case make_reads (cipher_source ks (tls_source sock_source)) ns (cr_new (tr_new t) c) of
      None \<Rightarrow> False
    | Some (out, r) \<Rightarrow> take (length out) acc = out \<and>
        (sk_bytes (tr_upstream (cr_upstream r)) = [] \<and> tr_state (cr_upstream r) = Rd_Idle \<longrightarrow> out = acc)"
proof -
  let ?b = "sk_bytes s" and ?taken = "tw_plain sk_bytes (sk_bytes s)" and ?good = "tw_inv sk_bytes sock_good (sk_bytes s)"
  note new = tw_new_inv [of sock_good s sk_bytes, OF assms(1)]
  then have cn: "cw_inv ?taken ?good c [] (cw_new (tw_new s) c mx)" "cw_plain ks ?taken c [] (cw_new (tw_new s) c mx) = []"
    using cw_new_inv [of ?good "tw_new s" ?taken c mx ks] by simp_all
  from masked_out.plain.make_calls_taken [OF cn(1) assms(2)] cn(2)
  have i: "cw_inv ?taken ?good c [] w" and p: "cw_plain ks ?taken c [] w = acc" by simp_all
  from cw_inv_wire(1) [OF i, of ks] p have "?taken (cw_upstream w) = fst (ctr_apply ks c acc)"
    by (simp add: cw_settled [OF assms(3)])
  moreover have "?good (cw_upstream w)" using i by (simp add: cw_inv_def)
  ultimately have u: "unframe (sk_bytes t) = Some (fst (ctr_apply ks c acc))"
    using assms(6) by (auto simp: tw_inv_def tw_plain_def tw_settled [OF assms(4)])
  have g: "cr_good (tr_good sk_bytes sock_good) (cr_new (tr_new t) c)" "cr_left ks (tr_left sk_bytes) (cr_new (tr_new t) c) = acc"
    using tr_new_good [of sock_good t sk_bytes, OF assms(5) u] by (simp_all add: cr_good_def cr_left_def cr_new_def ctr_apply_twice)
  obtain out r where o: "make_reads (cipher_source ks (tls_source sock_source)) ns (cr_new (tr_new t) c) = Some (out, r)"
    using masked_in.plain.make_reads_succeed [OF g(1), of ks ns] by auto
  from masked_in.plain.make_reads_left [OF g(1) o] g(2)
  have "acc = out @ cr_left ks (tr_left sk_bytes) r" by simp
  moreover have "cr_left ks (tr_left sk_bytes) r = []"
    if "sk_bytes (tr_upstream (cr_upstream r)) = []" "tr_state (cr_upstream r) = Rd_Idle"
    using that by (simp add: cr_left_def tr_left_def tr_rest_def ctr_apply_nil)
  ultimately show ?thesis by (simp add: o)
qed

subsection \<open>Examples\<close>

lemmas tls_run = tls_sink_def tls_source_def tw_poll_write_def tw_start_record_def tw_poll_flush_def tw_flush_upstream_def tw_new_def
  tw_build_record_def rh_to_bytes_def TLS_VERSION_def wb_extend_def wb_with_max_size_def wb_pending_def wb_is_empty_def wb_advance_def
  poll_flush_record_inner.simps tr_new_def tr_poll_read.simps poll_read_header.simps poll_read_body.simps hb_new_def hb_is_complete_def
  hb_as_array_def hb_remaining_def hb_as_slice_def hb_read_into_def hb_advance_def splice_def rh_parse_def rh_validate_def
  u16_from_be_bytes_def yb_new_def yb_copy_to_def yb_remaining_def yb_is_empty_def tr_poison_def

definition tls_wire :: socket where
  "tls_wire = \<lparr>sk_script = [Io_Some 1, Io_Block, Io_Some 99], sk_bytes = []\<rparr>"

definition tls_peer :: socket where
  "tls_peer = \<lparr>sk_script = [Io_Some 2, Io_Some 99, Io_Some 0, Io_Some 99], sk_bytes = [0x17, 3, 3, 0, 3, 7, 8, 9]\<rparr>"

lemma tls_wire_good: "sock_good tls_wire" "sock_good tls_peer"
  by (simp_all add: sock_good_def tls_wire_def tls_peer_def)

lemma tls_written:
  "make_calls (tls_sink sock_sink) [Call_Write [7, 8, 9], Call_Flush, Call_Flush] (tw_new tls_wire) =
    Some ([7, 8, 9], \<lparr>tw_upstream = \<lparr>sk_script = [], sk_bytes = [0x17, 3, 3, 0, 3, 7, 8, 9]\<rparr>, tw_state = Wr_Idle\<rparr>)"
  by (simp add: tls_wire_def tls_run sock_sink_def sock_write_def sock_idle_def next_event_def Let_def)

lemma tls_read:
  "make_reads (tls_source sock_source) [2, 9] (tr_new tls_peer) =
    Some ([7, 8, 9], \<lparr>tr_upstream = \<lparr>sk_script = [], sk_bytes = []\<rparr>, tr_state = Rd_Idle\<rparr>)"
  by (simp add: tls_peer_def tls_run sock_source_def sock_read_def next_event_def Let_def)

theorem tls_stream_roundtrip_witness: "unframe (sk_bytes tls_peer) = Some [7, 8, 9]"
proof -
  have w: "tw_wire sk_bytes \<lparr>tw_upstream = \<lparr>sk_script = [], sk_bytes = [0x17, 3, 3, 0, 3, 7, 8, 9]\<rparr>, tw_state = Wr_Idle\<rparr> =
      sk_bytes tls_wire @ sk_bytes tls_peer"
    by (simp add: tw_wire_def tls_wire_def tls_peer_def)
  show ?thesis
    by (rule conjunct1 [OF tls_stream_roundtrip [OF sock_out.byte_sink_axioms tls_wire_good(1) tls_written
          sock_in.byte_source_axioms tls_wire_good(2) w tls_read]])
qed

theorem tls_reader_fail_stop_witness:
  "case poll_reads (tls_source sock_source) [4, 0, 4] (tr_new \<lparr>sk_script = [Io_Some 99, Io_Some 99], sk_bytes = [0x16, 3, 3, 0, 1, 1]\<rparr>) of
      None \<Rightarrow> False
    | Some (ps, r) \<Rightarrow> length ps = length [4 :: nat, 0, 4] \<and> failures_last ps"
  by (rule tls_reader_fail_stop [OF sock_in.byte_source_axioms]) (simp add: sock_good_def)

definition masked_wire :: socket where
  "masked_wire = \<lparr>sk_script = [Io_Some 1, Io_Some 99, Io_Some 0, Io_Some 0], sk_bytes = [9]\<rparr>"

definition masked_peer :: socket where
  "masked_peer = \<lparr>sk_script = [Io_Some 2, Io_Some 99, Io_Some 0, Io_Some 99], sk_bytes = [0x17, 3, 3, 0, 3, 0, 10, 12]\<rparr>"

lemma masked_written:
  "make_calls (cipher_sink demo_ks (tls_sink sock_sink)) [Call_Write [1, 2, 3], Call_Flush] (cw_new (tw_new masked_wire) demo_ctr 0) =
    Some ([1, 2, 3], \<lparr>cw_upstream = \<lparr>tw_upstream = \<lparr>sk_script = [Io_Some 0], sk_bytes = [9, 0x17, 3, 3, 0, 3, 0, 10, 12]\<rparr>, tw_state = Wr_Idle\<rparr>,
      cw_encryptor = advance_ctr 3 demo_ctr, cw_state = Cw_Idle, cw_scratch = [], cw_max_pending_write = 65536\<rparr>)"
  by (simp add: masked_wire_def demo_ctr_def demo_ks_def ctr_new_def cipher_run cw_poll_flush_pending.simps advance_ctr_def tls_run Let_def)

theorem masked_stream_roundtrip_witness:
  "map_option fst (make_reads (cipher_source demo_ks (tls_source sock_source)) [2, 9] (cr_new (tr_new masked_peer) demo_ctr)) =
    Some [1, 2, 3]"
proof -
  have g: "sock_good masked_wire" "sock_good masked_peer" by (simp_all add: sock_good_def masked_wire_def masked_peer_def)
  obtain out r where o: "make_reads (cipher_source demo_ks (tls_source sock_source)) [2, 9] (cr_new (tr_new masked_peer) demo_ctr) = Some (out, r)"
    and e: "sk_bytes (tr_upstream (cr_upstream r)) = []" "tr_state (cr_upstream r) = Rd_Idle"
    by (simp add: cipher_run tls_run masked_peer_def demo_ctr_def ctr_new_def Let_def)
  show ?thesis
    using masked_stream_roundtrip [OF g(1) masked_written _ _ g(2), of "[2, 9]"] o e
    by (simp add: masked_wire_def masked_peer_def cw_has_pending_def tw_has_pending_def)
qed

text \<open>
  A failure of the writer is not final. Here a record breaks off after three bytes, the writer fails and
  is poisoned, and shutting it down makes it idle again: the next write is accepted, and its record follows
  the fragment on the wire.
\<close>

lemma tls_shutdown_unpoisons:
  "(let w0 = tw_new \<lparr>sk_script = [Io_Some 2, Io_Fail IO_Other, Io_Some 0, Io_Some 99], sk_bytes = []\<rparr>;
        w1 = snd (the (tw_poll_write sock_sink [1, 2] w0));
        w2 = snd (the (tw_poll_flush sock_sink w1));
        w3 = snd (the (tw_poll_shutdown sock_sink w2));
        (p, w4) = the (tw_poll_write sock_sink [7] w3)
    in tw_is_poisoned w2 \<and> p = Ready (Inr 1) \<and> sk_bytes (tw_upstream w4) = [0x17, 3, 3, 0x17, 3, 3, 0, 1, 7])"
  by (simp add: tls_run tw_poll_shutdown_def tw_is_poisoned_def sock_sink_def sock_write_def sock_idle_def next_event_def)

text \<open>An alert ends the stream for one read only: the next one goes on behind it.\<close>

lemma tls_alert_not_final:
  "map_option fst (poll_reads (tls_source sock_source) [9, 9]
     (tr_new \<lparr>sk_script = [Io_Some 99, Io_Some 99, Io_Some 99, Io_Some 99], sk_bytes = [0x15, 3, 3, 0, 2, 1, 0, 0x17, 3, 3, 0, 1, 7]\<rparr>)) =
   Some [Ready (Inr []), Ready (Inr [7])]"
  by (simp add: tls_run sock_source_def sock_read_def next_event_def Let_def)

end
