(* ===== verification/Obfuscation.thy ===== *)
theory Obfuscation
  imports Proto_Constants Aes_Modes
begin

section \<open>Obfuscated handshakes\<close>

text \<open>
  \<^verbatim>\<open>src/src/protocol/obfuscation.rs\<close>, and the part of \<^verbatim>\<open>src/src/proxy/handshake.rs\<close> that makes the nonce for a
  Telegram data centre. A handshake is 64 random bytes that carry the key material in bytes
  8 to 55 and, encrypted, the protocol tag and the data centre index in bytes 56 to 61. SHA-256
  (crate \<^verbatim>\<open>sha2\<close>) and the keystream are parameters. The loops that draw nonces until one is
  acceptable need not end: they are partial functions into \<open>option\<close>.
\<close>

subsection \<open>Signed 16-bit integers\<close>

definition i16_from_le_bytes :: "u8 \<Rightarrow> u8 \<Rightarrow> int" where
  "i16_from_le_bytes a b =
     (let v = int (unat a) + 256 * int (unat b) in if v < 32768 then v else v - 65536)"

definition i16_to_le_bytes :: "int \<Rightarrow> bytes" where
  "i16_to_le_bytes v = le_bytes 2 (nat (v mod 65536))"

abbreviation is_i16 :: "int \<Rightarrow> bool" where
  "is_i16 v \<equiv> - 32768 \<le> v \<and> v < 32768"

subsection \<open>Parameters of a client handshake\<close>

type_synonym sha256 = "bytes \<Rightarrow> bytes"

record obfuscation_params =
  op_decrypt_key :: bytes
  op_decrypt_iv :: nat
  op_encrypt_key :: bytes
  op_encrypt_iv :: nat
  op_proto_tag :: proto_tag
  op_dc_idx :: int

fun from_handshake_scan ::
  "sha256 \<Rightarrow> keystream \<Rightarrow> bytes \<Rightarrow> bytes \<Rightarrow> bytes \<Rightarrow> bytes \<Rightarrow> bytes \<Rightarrow> (string \<times> bytes) list \<Rightarrow>
     (obfuscation_params \<times> string) option" where
  "from_handshake_scan sha ks handshake dec_prekey dec_iv_bytes enc_prekey enc_iv_bytes [] = None"
| "from_handshake_scan sha ks handshake dec_prekey dec_iv_bytes enc_prekey enc_iv_bytes ((username, secret) # secrets) =
     (let decrypt_key = sha (dec_prekey @ secret);
          decrypt_iv = from_be dec_iv_bytes;
          decrypted = fst (ctr_decrypt ks (ctr_new decrypt_key decrypt_iv) handshake)
      in case proto_tag_from_bytes (slice decrypted PROTO_TAG_POS (PROTO_TAG_POS + 4)) of
           None \<Rightarrow> from_handshake_scan sha ks handshake dec_prekey dec_iv_bytes enc_prekey enc_iv_bytes secrets
         | Some tag \<Rightarrow>
             Some (\<lparr>op_decrypt_key = decrypt_key, op_decrypt_iv = decrypt_iv,
                     op_encrypt_key = sha (enc_prekey @ secret), op_encrypt_iv = from_be enc_iv_bytes,
                     op_proto_tag = tag,
                     op_dc_idx = i16_from_le_bytes (decrypted ! DC_IDX_POS) (decrypted ! (DC_IDX_POS + 1))\<rparr>, username))"

definition from_handshake ::
  "sha256 \<Rightarrow> keystream \<Rightarrow> bytes \<Rightarrow> (string \<times> bytes) list \<Rightarrow> (obfuscation_params \<times> string) option" where
  "from_handshake sha ks handshake secrets =
     (let dec_prekey_iv = slice handshake SKIP_LEN (SKIP_LEN + PREKEY_LEN + IV_LEN);
          enc_prekey_iv = rev dec_prekey_iv
      in from_handshake_scan sha ks handshake (take PREKEY_LEN dec_prekey_iv) (drop PREKEY_LEN dec_prekey_iv)
           (take PREKEY_LEN enc_prekey_iv) (drop PREKEY_LEN enc_prekey_iv) secrets)"

definition create_decryptor :: "obfuscation_params \<Rightarrow> aes_ctr" where
  "create_decryptor p = ctr_new (op_decrypt_key p) (op_decrypt_iv p)"

definition create_encryptor :: "obfuscation_params \<Rightarrow> aes_ctr" where
  "create_encryptor p = ctr_new (op_encrypt_key p) (op_encrypt_iv p)"

definition enc_key_iv :: "obfuscation_params \<Rightarrow> bytes" where
  "enc_key_iv p = op_encrypt_key p @ be_bytes 16 (op_encrypt_iv p)"

subsection \<open>Nonces\<close>

definition is_valid_nonce :: "bytes \<Rightarrow> bool" where
  "is_valid_nonce nonce =
     (if nonce ! 0 \<in> set RESERVED_NONCE_FIRST_BYTES then False
      else if take 4 nonce \<in> set RESERVED_NONCE_BEGINNINGS then False
      else if slice nonce 4 8 \<in> set RESERVED_NONCE_CONTINUES then False
      else True)"

text \<open>The source of randomness is a closure with a state. \<open>copy_from_slice\<close> panics on another length.\<close>

datatype panic = Copy_Length_Mismatch

partial_function (option) generate_nonce ::
  "(nat \<Rightarrow> 's \<Rightarrow> bytes \<times> 's) \<Rightarrow> 's \<Rightarrow> (panic + bytes \<times> 's) option" where
  "generate_nonce random_bytes s =
     (let nonce = fst (random_bytes HANDSHAKE_LEN s); s1 = snd (random_bytes HANDSHAKE_LEN s)
      in if length nonce \<noteq> HANDSHAKE_LEN then Some (Inl Copy_Length_Mismatch)
         else if is_valid_nonce nonce then Some (Inr (nonce, s1))
         else generate_nonce random_bytes s1)"

definition prepare_tg_nonce :: "bytes \<Rightarrow> proto_tag \<Rightarrow> bytes option \<Rightarrow> panic + bytes" where
  "prepare_tg_nonce nonce tag key_iv =
     (let nonce1 = splice nonce PROTO_TAG_POS (proto_tag_to_bytes tag)
      in case key_iv of
           None \<Rightarrow> Inr nonce1
         | Some kv \<Rightarrow> if length kv \<noteq> KEY_LEN + IV_LEN then Inl Copy_Length_Mismatch
                      else Inr (splice nonce1 SKIP_LEN (rev kv)))"

text \<open>The deprecated helper, which hashes the key material.\<close>

definition encrypt_nonce :: "sha256 \<Rightarrow> keystream \<Rightarrow> bytes \<Rightarrow> bytes" where
  "encrypt_nonce sha ks nonce =
     (let key_iv = slice nonce SKIP_LEN (SKIP_LEN + KEY_LEN + IV_LEN);
          enc = ctr_new (sha key_iv) (from_be (take IV_LEN key_iv))
      in splice nonce PROTO_TAG_POS (fst (ctr_encrypt ks enc (drop PROTO_TAG_POS nonce))))"

subsection \<open>The nonce for a data centre\<close>

text \<open>What \<open>generate_tg_nonce\<close> does with a drawn nonce that is not reserved.\<close>

type_synonym tg_nonce = "bytes \<times> bytes \<times> nat \<times> bytes \<times> nat"

definition finish_tg_nonce :: "proto_tag \<Rightarrow> int \<Rightarrow> bytes \<Rightarrow> nat \<Rightarrow> bool \<Rightarrow> bytes \<Rightarrow> tg_nonce" where
  "finish_tg_nonce tag dc_idx client_enc_key client_enc_iv fast_mode drawn =
     (let nonce1 = splice drawn PROTO_TAG_POS (proto_tag_to_bytes tag);
          nonce2 = splice nonce1 DC_IDX_POS (i16_to_le_bytes dc_idx);
          nonce = (if fast_mode then splice nonce2 SKIP_LEN (rev (client_enc_key @ be_bytes 16 client_enc_iv))
                   else nonce2);
          enc_kv = slice nonce SKIP_LEN (SKIP_LEN + KEY_LEN + IV_LEN);
          dec_kv = rev enc_kv
      in (nonce, take KEY_LEN enc_kv, from_be (drop KEY_LEN enc_kv), take KEY_LEN dec_kv, from_be (drop KEY_LEN dec_kv)))"

partial_function (option) generate_tg_nonce ::
  "('g, 'c) rng_env \<Rightarrow> proto_tag \<Rightarrow> int \<Rightarrow> bytes \<Rightarrow> nat \<Rightarrow> bool \<Rightarrow> ('g, 'c) secure_random \<Rightarrow>
     (tg_nonce \<times> ('g, 'c) secure_random) option" where
  "generate_tg_nonce E tag dc_idx client_enc_key client_enc_iv fast_mode rng =
     (let nonce = fst (sr_bytes E HANDSHAKE_LEN rng); rng1 = snd (sr_bytes E HANDSHAKE_LEN rng)
      in if length nonce \<noteq> HANDSHAKE_LEN
           then generate_tg_nonce E tag dc_idx client_enc_key client_enc_iv fast_mode rng1
         else if nonce ! 0 \<in> set RESERVED_NONCE_FIRST_BYTES
           then generate_tg_nonce E tag dc_idx client_enc_key client_enc_iv fast_mode rng1
         else if [nonce ! 0, nonce ! 1, nonce ! 2, nonce ! 3] \<in> set RESERVED_NONCE_BEGINNINGS
           then generate_tg_nonce E tag dc_idx client_enc_key client_enc_iv fast_mode rng1
         else if [nonce ! 4, nonce ! 5, nonce ! 6, nonce ! 7] \<in> set RESERVED_NONCE_CONTINUES
           then generate_tg_nonce E tag dc_idx client_enc_key client_enc_iv fast_mode rng1
         else Some (finish_tg_nonce tag dc_idx client_enc_key client_enc_iv fast_mode nonce, rng1))"

definition encrypt_tg_nonce_with_ciphers :: "keystream \<Rightarrow> bytes \<Rightarrow> bytes \<times> aes_ctr \<times> aes_ctr" where
  "encrypt_tg_nonce_with_ciphers ks nonce =
     (let enc_kv = slice nonce SKIP_LEN (SKIP_LEN + KEY_LEN + IV_LEN);
          dec_kv = rev enc_kv;
          (encrypted_full, encryptor) =
            ctr_encrypt ks (ctr_new (take KEY_LEN enc_kv) (from_be (drop KEY_LEN enc_kv))) nonce
      in (take PROTO_TAG_POS nonce @ drop PROTO_TAG_POS encrypted_full, encryptor,
          ctr_new (take KEY_LEN dec_kv) (from_be (drop KEY_LEN dec_kv))))"

definition encrypt_tg_nonce :: "keystream \<Rightarrow> bytes \<Rightarrow> bytes" where
  "encrypt_tg_nonce ks nonce = fst (encrypt_tg_nonce_with_ciphers ks nonce)"

subsection \<open>Lemmas\<close>

lemma i16_roundtrip [codec_simps]:
  assumes "is_i16 v"
  shows "i16_from_le_bytes (i16_to_le_bytes v ! 0) (i16_to_le_bytes v ! 1) = v"
proof -
  define n where "n = nat (v mod 65536)"
  have n: "int n = (if v < 0 then v + 65536 else v)" and lt: "n < 65536"
    using assms by (simp_all add: n_def mod_pos_pos_trivial int_mod_pos_eq [of v 65536 "-1"])
  have bs: "i16_to_le_bytes v = [word_of_nat n, word_of_nat (n div 256)]"
    by (simp add: i16_to_le_bytes_def numeral_2_eq_2 n_def)
  have "n mod 256 + 256 * (n div 256 mod 256) = n"
    using lt by (simp add: less_mult_imp_div_less)
  then have "int (n mod 256) + 256 * int (n div 256 mod 256) = int n"
    by (metis of_nat_add of_nat_mult of_nat_numeral)
  then have "i16_from_le_bytes (word_of_nat n) (word_of_nat (n div 256)) = (if int n < 32768 then int n else int n - 65536)"
    by (simp only: i16_from_le_bytes_def unat_u8_of_nat Let_def)
  then show ?thesis using n assms bs by auto
qed

lemma length_i16_to_le_bytes [simp]: "length (i16_to_le_bytes v) = 2"
  by (simp add: i16_to_le_bytes_def)

lemma take_splice [simp]: "i \<le> j \<Longrightarrow> j \<le> length xs \<Longrightarrow> take i (splice xs j ys) = take i xs"
  by (simp add: splice_def min_def)

lemma slice_four: "i + 4 \<le> length xs \<Longrightarrow> slice xs i (i + 4) = [xs ! i, xs ! (i + 1), xs ! (i + 2), xs ! (i + 3)]"
  by (simp add: slice_def numeral_eq_Suc take_Suc_conv_app_nth)

lemma take4: "4 \<le> length xs \<Longrightarrow> take 4 xs = [xs ! 0, xs ! 1, xs ! 2, xs ! 3]"
  using slice_four [of 0 xs] by (simp add: slice_def numeral_2_eq_2)

lemma slice48: "8 \<le> length xs \<Longrightarrow> slice xs 4 8 = [xs ! 4, xs ! 5, xs ! 6, xs ! 7]"
  using slice_four [of 4 xs] by simp

lemma valid_nonce_prefix:
  "length xs = 64 \<Longrightarrow> length ys = 64 \<Longrightarrow> take 8 xs = take 8 ys \<Longrightarrow> is_valid_nonce xs = is_valid_nonce ys"
proof -
  assume l: "length xs = 64" "length ys = 64" and t: "take 8 xs = take 8 ys"
  have "xs ! 0 = ys ! 0" using arg_cong [OF t, of "\<lambda>l. l ! 0"] l by simp
  moreover have "take 4 xs = take 4 ys" using arg_cong [OF t, of "take 4"] by simp
  moreover have "slice xs 4 8 = slice ys 4 8" using arg_cong [OF t, of "drop 4"] by (simp add: slice_def drop_take)
  ultimately show ?thesis by (simp add: is_valid_nonce_def)
qed

lemma tg_nonce_body:
  assumes "length d = 64"
  shows "(if length d \<noteq> 64 then x else if d ! 0 \<in> set RESERVED_NONCE_FIRST_BYTES then x
     else if [d ! 0, d ! 1, d ! 2, d ! 3] \<in> set RESERVED_NONCE_BEGINNINGS then x
     else if [d ! 4, d ! 5, d ! 6, d ! 7] \<in> set RESERVED_NONCE_CONTINUES then x else y) =
    (if is_valid_nonce d then y else x)"
  using assms by (simp add: is_valid_nonce_def take4 slice48)

lemma tg_nonce_step:
  "generate_tg_nonce E tag dc ck civ fast rng =
     (let (nonce, rng1) = sr_bytes E HANDSHAKE_LEN rng
      in if is_valid_nonce nonce then Some (finish_tg_nonce tag dc ck civ fast nonce, rng1)
         else generate_tg_nonce E tag dc ck civ fast rng1)"
  by (subst generate_tg_nonce.simps, unfold Let_def, subst tg_nonce_body) (simp_all add: case_prod_beta)

text \<open>The draws the loop makes, one after another.\<close>

definition rng_after :: "('g, 'c) rng_env \<Rightarrow> nat \<Rightarrow> ('g, 'c) secure_random \<Rightarrow> ('g, 'c) secure_random" where
  "rng_after E n rng = ((\<lambda>s. snd (sr_bytes E HANDSHAKE_LEN s)) ^^ n) rng"

definition drawn_nonce :: "('g, 'c) rng_env \<Rightarrow> nat \<Rightarrow> ('g, 'c) secure_random \<Rightarrow> bytes" where
  "drawn_nonce E n rng = fst (sr_bytes E HANDSHAKE_LEN (rng_after E n rng))"

lemma rng_after_simps [simp]:
  "rng_after E 0 rng = rng" "rng_after E (Suc n) rng = rng_after E n (snd (sr_bytes E HANDSHAKE_LEN rng))"
  by (simp_all add: rng_after_def funpow_Suc_right del: funpow.simps(2))

lemma drawn_nonce_simps [simp]:
  "drawn_nonce E 0 rng = fst (sr_bytes E HANDSHAKE_LEN rng)"
  "drawn_nonce E (Suc n) rng = drawn_nonce E n (snd (sr_bytes E HANDSHAKE_LEN rng))"
  by (simp_all add: drawn_nonce_def)

lemma length_drawn_nonce [simp]: "length (drawn_nonce E n rng) = 64"
  by (simp add: drawn_nonce_def)

lemma tg_nonce_first_valid:
  assumes "is_valid_nonce (drawn_nonce E n rng)" and "\<forall>k<n. \<not> is_valid_nonce (drawn_nonce E k rng)"
  shows "generate_tg_nonce E tag dc ck civ fast rng =
    Some (finish_tg_nonce tag dc ck civ fast (drawn_nonce E n rng), rng_after E (Suc n) rng)"
  using assms
proof (induction n arbitrary: rng)
  case 0
  then show ?case by (subst tg_nonce_step) (simp add: case_prod_beta)
next
  case (Suc n)
  let ?r = "snd (sr_bytes E HANDSHAKE_LEN rng)"
  have "\<forall>k<n. \<not> is_valid_nonce (drawn_nonce E k ?r)" using Suc.prems(2) by auto
  with Suc have "generate_tg_nonce E tag dc ck civ fast ?r =
      Some (finish_tg_nonce tag dc ck civ fast (drawn_nonce E n ?r), rng_after E (Suc n) ?r)" by simp
  moreover have "\<not> is_valid_nonce (fst (sr_bytes E HANDSHAKE_LEN rng))" using Suc.prems(2) by force
  ultimately show ?case by (subst tg_nonce_step) (simp add: case_prod_beta)
qed

lemma tg_nonce_from_draw:
  assumes "generate_tg_nonce E tag dc ck civ fast rng = Some r"
  shows "\<exists>n. is_valid_nonce (drawn_nonce E n rng) \<and> fst r = finish_tg_nonce tag dc ck civ fast (drawn_nonce E n rng)"
proof (rule generate_tg_nonce.raw_induct [OF _ assms, where P = "\<lambda>E tag dc ck civ fast rng r.
    \<exists>n. is_valid_nonce (drawn_nonce E n rng) \<and> fst r = finish_tg_nonce tag dc ck civ fast (drawn_nonce E n rng)"],
    goal_cases)
  case (1 f E tag dc ck civ fast rng r)
  let ?d = "fst (sr_bytes E HANDSHAKE_LEN rng)" and ?r = "snd (sr_bytes E HANDSHAKE_LEN rng)"
  note b = 1(2) [unfolded Let_def, unfolded tg_nonce_body [OF length_sr_bytes]]
  show ?case
  proof (cases "is_valid_nonce ?d")
    case True
    then have "fst r = finish_tg_nonce tag dc ck civ fast ?d" using b by auto
    with True show ?thesis by (intro exI [of _ 0]) simp
  next
    case False
    then have "f E tag dc ck civ fast ?r = Some r" using b by simp
    from 1(1) [OF this] obtain n where "is_valid_nonce (drawn_nonce E n ?r) \<and>
      fst r = finish_tg_nonce tag dc ck civ fast (drawn_nonce E n ?r)" by auto
    then show ?thesis by (intro exI [of _ "Suc n"]) simp
  qed
qed

lemma slice_splice_after: "j + length ys \<le> i \<Longrightarrow> j \<le> length xs \<Longrightarrow> slice (splice xs j ys) i k = slice xs i k"
  by (simp add: slice_def splice_def)

lemma slice_splice_before:
  "k \<le> j \<Longrightarrow> j \<le> length xs \<Longrightarrow> slice (splice xs j ys) i k = slice xs i k"
  by (simp only: slice_def drop_take [symmetric] take_splice)

lemma finish_tg_nonce_parts:
  assumes "length d = 64" and "length ck = 32" and "finish_tg_nonce tag dc ck civ fast d = (nonce, ek, eiv, dk, dv)"
  shows "length nonce = 64" and "take 8 nonce = take 8 d"
    and "slice nonce 56 60 = proto_tag_to_bytes tag" and "slice nonce 60 62 = i16_to_le_bytes dc"
    and "ek = take 32 (slice nonce 8 56)" and "eiv = from_be (drop 32 (slice nonce 8 56))"
    and "dk = take 32 (rev (slice nonce 8 56))" and "dv = from_be (drop 32 (rev (slice nonce 8 56)))"
    and "fast \<Longrightarrow> rev (slice nonce 8 56) = ck @ be_bytes 16 civ"
  using assms
  by (auto simp: finish_tg_nonce_def proto_tag_to_bytes_def Let_def slice_splice_after slice_splice_before)

lemma slice_pick: "i + 1 < length xs \<Longrightarrow> slice xs i (i + 2) = [a, b] \<Longrightarrow> xs ! i = a \<and> xs ! (i + 1) = b"
  by (auto simp: slice_def numeral_2_eq_2 take_Suc_conv_app_nth)

subsection \<open>The data centre's side\<close>

text \<open>
  How the other end reads a nonce: it takes the key and the counter from the open part,
  decrypts all 64 bytes, and keeps the cipher; in the other direction it uses the reversed
  key material from the start.
\<close>

definition dc_reads :: "keystream \<Rightarrow> bytes \<Rightarrow> (proto_tag option \<times> int) \<times> aes_ctr \<times> aes_ctr" where
  "dc_reads ks wire =
     (let kv = slice wire 8 56;
          (plain, c) = ctr_decrypt ks (ctr_new (take 32 kv) (from_be (drop 32 kv))) wire
      in ((proto_tag_from_bytes (slice plain 56 60), i16_from_le_bytes (plain ! 60) (plain ! 61)), c,
          ctr_new (take 32 (rev kv)) (from_be (drop 32 (rev kv)))))"

lemma xor_twice [simp]: "((x :: u8) XOR y) XOR y = x"
  by (simp add: xor.assoc)

text \<open>Encrypting a byte string and putting its head back in the clear leaves the tail readable.\<close>

lemma ctr_apply_nth:
  "i < length data \<Longrightarrow> fst (ctr_apply ks c data) ! i = data ! i XOR ks (ctr_key c) (ctr_iv c) (ctr_pos c + i)"
  by (simp add: ctr_apply_def xor_bytes_def)

lemma length_ctr_apply [simp]: "length (fst (ctr_apply ks c data)) = length data"
  by (simp add: ctr_apply_def xor_bytes_def)

lemma open_head_tail:
  assumes "n \<le> length m"
  shows "drop n (fst (ctr_apply ks c (take n m @ drop n (fst (ctr_apply ks c m))))) = drop n m"
  using assms by (intro nth_equalityI) (auto simp: ctr_apply_nth nth_append)

lemma slice_from_drop: "n \<le> i \<Longrightarrow> slice xs i j = slice (drop n xs) (i - n) (j - n)"
  by (simp add: slice_def)

lemma open_head_slice:
  "n \<le> length m \<Longrightarrow> n \<le> i \<Longrightarrow>
     slice (fst (ctr_apply ks c (take n m @ drop n (fst (ctr_apply ks c m))))) i j = slice m i j"
  by (simp only: slice_from_drop [of n i] open_head_tail)

lemma snd_ctr_apply: "snd (ctr_apply ks c data) = c\<lparr>ctr_pos := ctr_pos c + length data\<rparr>"
  by (simp add: ctr_apply_def)

subsection \<open>Properties\<close>

text \<open>
  C31. The nonce sent to a data centre works: on the wire it does not start like another
  protocol, the data centre reads back the protocol tag and the data centre index, and both
  ends hold the same cipher states in both directions, the ones whose keys the generator
  returned. In fast mode the direction towards the client has the client's own key and
  counter, so its bytes can be passed on as they are.
\<close>

theorem tg_nonce_wire:
  assumes "generate_tg_nonce E tag dc ck civ fast rng = Some ((nonce, ek, eiv, dk, dv), rng')"
    and "is_i16 dc" and "length ck = 32" and "civ < 256 ^ 16"
    and "encrypt_tg_nonce_with_ciphers ks nonce = (wire, enc, dec)"
  shows "length wire = 64 \<and> is_valid_nonce wire \<and> dc_reads ks wire = ((Some tag, dc), enc, dec) \<and>
    enc = (ctr_new ek eiv)\<lparr>ctr_pos := 64\<rparr> \<and> dec = ctr_new dk dv \<and> (fast \<longrightarrow> dk = ck \<and> dv = civ)"
proof -
  obtain n where v: "is_valid_nonce (drawn_nonce E n rng)"
    and f: "finish_tg_nonce tag dc ck civ fast (drawn_nonce E n rng) = (nonce, ek, eiv, dk, dv)"
    using tg_nonce_from_draw [OF assms(1)] by auto
  note p = finish_tg_nonce_parts [OF length_drawn_nonce assms(3) f]
  let ?c = "ctr_new ek eiv"
  have wire: "wire = take 56 nonce @ drop 56 (fst (ctr_apply ks ?c nonce))"
    and enc: "enc = ?c\<lparr>ctr_pos := 64\<rparr>" and dec: "dec = ctr_new dk dv"
    using assms(5) p(1,5-8)
    by (auto simp: encrypt_tg_nonce_with_ciphers_def ctr_encrypt_def Let_def case_prod_beta snd_ctr_apply ctr_new_def)
  have len: "length wire = 64" using wire p(1) by simp
  have kv: "slice wire 8 56 = slice nonce 8 56" using wire p(1) by (simp add: slice_def drop_take)
  have "take 8 wire = take 8 (drawn_nonce E n rng)" using wire p(1,2) by simp
  with v len have valid: "is_valid_nonce wire" using valid_nonce_prefix [of wire "drawn_nonce E n rng"] by simp
  let ?plain = "fst (ctr_apply ks ?c wire)"
  have "slice ?plain 56 60 = proto_tag_to_bytes tag" and dcs: "slice ?plain 60 62 = i16_to_le_bytes dc"
    using open_head_slice [of 56 nonce _ ks ?c] p(1,3,4) wire by simp_all
  moreover have "?plain ! 60 = i16_to_le_bytes dc ! 0 \<and> ?plain ! 61 = i16_to_le_bytes dc ! 1"
    using slice_pick [of 60 ?plain] dcs len by (simp add: i16_to_le_bytes_def numeral_2_eq_2)
  ultimately have "dc_reads ks wire = ((Some tag, dc), enc, dec)"
    using i16_roundtrip [OF assms(2)] p(5-8) kv enc dec len
    by (simp add: dc_reads_def ctr_decrypt_def ctr_encrypt_def Let_def case_prod_beta snd_ctr_apply
        proto_tag_roundtrip ctr_new_def)
  moreover have "dk = ck \<and> dv = civ" if fast
    using p(7,8) p(9) [OF that] assms(3,4) from_be_bytes [of civ 16] by simp
  ultimately show ?thesis using len valid enc dec by simp
qed

text \<open>
  The search for a nonce returns exactly when some draw is not reserved, and then it
  uses the first such draw and no later one.
\<close>

theorem tg_nonce_returns:
  "generate_tg_nonce E tag dc ck civ fast rng =
     (if \<exists>n. is_valid_nonce (drawn_nonce E n rng)
      then let n = (LEAST n. is_valid_nonce (drawn_nonce E n rng))
           in Some (finish_tg_nonce tag dc ck civ fast (drawn_nonce E n rng), rng_after E (Suc n) rng)
      else None)"
proof (cases "\<exists>n. is_valid_nonce (drawn_nonce E n rng)")
  case True
  let ?n = "LEAST n. is_valid_nonce (drawn_nonce E n rng)"
  have "is_valid_nonce (drawn_nonce E ?n rng)" using True by (rule LeastI_ex)
  moreover have "\<forall>k<?n. \<not> is_valid_nonce (drawn_nonce E k rng)" by (blast dest: not_less_Least)
  ultimately show ?thesis using True by (simp only: tg_nonce_first_valid if_True Let_def)
next
  case False
  then have "generate_tg_nonce E tag dc ck civ fast rng \<noteq> Some r" for r using tg_nonce_from_draw by blast
  with False show ?thesis by (simp only: if_False not_Some_eq) blast
qed

text \<open>A generator whose stream is the byte 66, and a keystream that repeats a byte of the key.\<close>

definition demo_rng_env :: "(unit, unit) rng_env" where
  "demo_rng_env = \<lparr>fill_bytes = (\<lambda>n g. (\<lambda>i. 0x42, g)), keystream = (\<lambda>n c. (\<lambda>i. 0, c)),
     random_range = (\<lambda>n g. (0, g))\<rparr>"

definition demo_rng :: "(unit, unit) secure_random" where
  "demo_rng = \<lparr>sr_rng = (), sr_cipher = (), sr_buffer = replicate 64 0x42, sr_start = 0\<rparr>"

definition demo_keystream :: keystream where
  "demo_keystream key iv i = key ! (i mod 32)"

lemma demo_draw: "sr_bytes demo_rng_env 64 demo_rng = (replicate 64 0x42, \<lparr>sr_rng = (), sr_cipher = (), sr_buffer = [], sr_start = 0\<rparr>)"
  by (simp add: sr_bytes_def sr_fill.simps sr_refill_def sr_take_def sr_available_def demo_rng_def slice_def Let_def)

lemma demo_generate:
  "generate_tg_nonce demo_rng_env tag dc ck civ fast demo_rng =
     Some (finish_tg_nonce tag dc ck civ fast (replicate 64 0x42), \<lparr>sr_rng = (), sr_cipher = (), sr_buffer = [], sr_start = 0\<rparr>)"
proof -
  have "replicate 4 (0x42 :: u8) = [0x42, 0x42, 0x42, 0x42]" by (simp add: numeral_eq_Suc)
  then have "is_valid_nonce (replicate 64 0x42)"
    by (simp add: is_valid_nonce_def RESERVED_NONCE_FIRST_BYTES_def RESERVED_NONCE_BEGINNINGS_def
        RESERVED_NONCE_CONTINUES_def slice_def)
  then show ?thesis by (subst tg_nonce_step) (simp add: demo_draw)
qed

theorem tg_nonce_wire_witness:
  "\<exists>nonce ek eiv dk dv rng' wire enc dec.
    generate_tg_nonce demo_rng_env Secure (- 2) (replicate 32 7) 9 True demo_rng = Some ((nonce, ek, eiv, dk, dv), rng') \<and>
    encrypt_tg_nonce_with_ciphers demo_keystream nonce = (wire, enc, dec) \<and>
    dc_reads demo_keystream wire = ((Some Secure, - 2), enc, dec) \<and> dk = replicate 32 7 \<and> dv = 9"
proof -
  obtain nonce ek eiv dk dv where n: "finish_tg_nonce Secure (- 2) (replicate 32 7) 9 True (replicate 64 0x42) = (nonce, ek, eiv, dk, dv)"
    by (metis prod_cases5)
  obtain wire enc dec where w: "encrypt_tg_nonce_with_ciphers demo_keystream nonce = (wire, enc, dec)" by (metis prod_cases3)
  note g = demo_generate [of Secure "- 2" "replicate 32 7" 9 True, unfolded n]
  from tg_nonce_wire [OF g _ _ _ w] g w show ?thesis by (intro exI conjI) (assumption | simp)+
qed

end
