(* ===== verification/Mtproto_Handshake.thy ===== *)
theory Mtproto_Handshake
  imports Replay_Cache User_Auth Obfuscation Cipher_Stream "HOL-Library.Sublist"
begin

section \<open>The MTProto handshake\<close>

text \<open>
  The handler of \<^verbatim>\<open>src/src/proxy/handshake.rs\<close> that authenticates a client by the 64 bytes it sends first. It puts
  together the throttle, the scan for a user, the deny lists, the replay checker and the cipher
  streams. Log messages and the delays before an answer are left out. An instant is read where the
  handler asks for the time.
\<close>

record 'n proxy_config =
  pc_mode_classic :: bool
  pc_mode_secure :: bool
  pc_mode_tls :: bool
  pc_users :: "(string \<times> string) list"
  pc_user_source_deny :: "(string \<times> 'n list) list"
  pc_runtime_user_auth :: "user_auth_snapshot option"
  pc_crypto_pending_buffer :: nat

text \<open>The code the handler relies on and the times at which it runs.\<close>

record ('n, 'c) auth_env =
  ae_sha :: sha256
  ae_ks :: keystream
  ae_hex :: hex_decode
  ae_hasher :: byte_hasher
  ae_contains :: "'n \<Rightarrow> ip_addr \<Rightarrow> bool"
  ae_probe :: probe_env
  ae_lru :: "'c lru_ops"
  ae_shard_hash :: "bytes \<Rightarrow> nat"

record auth_clock =
  ck_throttle :: nat
  ck_overload :: nat
  ck_replay :: nat
  ck_failure :: nat

record 'c auth_state =
  au_shared :: handshake_shared
  au_replay :: "'c replay_checker"

subsection \<open>One candidate\<close>

definition mode_enabled_for_proto :: "'n proxy_config \<Rightarrow> proto_tag \<Rightarrow> bool \<Rightarrow> bool" where
  "mode_enabled_for_proto cfg tag is_tls =
     (case tag of
        Secure \<Rightarrow> if is_tls then pc_mode_tls cfg else pc_mode_secure cfg
      | Intermediate \<Rightarrow> pc_mode_classic cfg
      | Abridged \<Rightarrow> pc_mode_classic cfg)"

record mtproto_candidate_validation =
  mv_proto_tag :: proto_tag
  mv_dc_idx :: int
  mv_dec_key :: bytes
  mv_dec_iv :: nat
  mv_enc_key :: bytes
  mv_enc_iv :: nat
  mv_decryptor :: aes_ctr
  mv_encryptor :: aes_ctr

definition validate_mtproto_secret_candidate ::
  "sha256 \<Rightarrow> keystream \<Rightarrow> bytes \<Rightarrow> bytes \<Rightarrow> nat \<Rightarrow> bytes \<Rightarrow> nat \<Rightarrow> 'n proxy_config \<Rightarrow> bool \<Rightarrow> bytes \<Rightarrow>
     mtproto_candidate_validation option" where
  "validate_mtproto_secret_candidate sha ks handshake dec_prekey dec_iv enc_prekey enc_iv cfg is_tls secret =
     (let dec_key = sha (dec_prekey @ secret);
          (decrypted, decryptor) = ctr_apply ks (ctr_new dec_key dec_iv) handshake
      in case proto_tag_from_bytes (slice decrypted PROTO_TAG_POS (PROTO_TAG_POS + 4)) of
           None \<Rightarrow> None
         | Some tag \<Rightarrow>
             if \<not> mode_enabled_for_proto cfg tag is_tls then None
             else let enc_key = sha (enc_prekey @ secret)
                  in Some \<lparr>mv_proto_tag = tag,
                       mv_dc_idx = i16_from_le_bytes (decrypted ! DC_IDX_POS) (decrypted ! (DC_IDX_POS + 1)),
                       mv_dec_key = dec_key, mv_dec_iv = dec_iv, mv_enc_key = enc_key, mv_enc_iv = enc_iv,
                       mv_decryptor = decryptor, mv_encryptor = ctr_new enc_key enc_iv\<rparr>)"

subsection \<open>The handler\<close>

record handshake_success =
  hk_user :: string
  hk_dc_idx :: int
  hk_proto_tag :: proto_tag
  hk_dec_key :: bytes
  hk_dec_iv :: nat
  hk_enc_key :: bytes
  hk_enc_iv :: nat
  hk_peer :: socket_addr
  hk_is_tls :: bool

type_synonym ('r, 'w) mtproto_result = "('r crypto_reader \<times> 'w crypto_writer \<times> handshake_success, 'r, 'w) handshake_result"

definition map_probe :: "(probe_shared \<Rightarrow> probe_shared) \<Rightarrow> 'c auth_state \<Rightarrow> 'c auth_state" where
  "map_probe f st = st\<lparr>au_shared := (au_shared st)\<lparr>hs_probe := f (hs_probe (au_shared st))\<rparr>\<rparr>"

definition record_failure :: "('n, 'c) auth_env \<Rightarrow> auth_clock \<Rightarrow> socket_addr \<Rightarrow> 'c auth_state \<Rightarrow> 'c auth_state" where
  "record_failure E ck peer st = map_probe (auth_probe_record_failure (ae_probe E) (sa_ip peer) (ck_failure ck)) st"

definition add_expensive_checks :: "nat \<Rightarrow> 'c auth_state \<Rightarrow> 'c auth_state" where
  "add_expensive_checks n st =
     st\<lparr>au_shared := (au_shared st)\<lparr>hs_auth_expensive_checks_total :=
        fetch_add_u64 (hs_auth_expensive_checks_total (au_shared st)) n\<rparr>\<rparr>"

text \<open>
  What happens once a secret fits: the deny list of the user, the replay check, the streams. The two branches of
  the handler do the same here, except that hints are recorded only for a user of the snapshot.
\<close>

definition mtproto_finish ::
  "('n, 'c) auth_env \<Rightarrow> 'n proxy_config \<Rightarrow> auth_clock \<Rightarrow> 'r \<Rightarrow> 'w \<Rightarrow> socket_addr \<Rightarrow> bool \<Rightarrow> bytes \<Rightarrow> string \<Rightarrow> nat option \<Rightarrow>
     mtproto_candidate_validation \<Rightarrow> 'c auth_state \<Rightarrow> ('r, 'w) mtproto_result \<times> 'c auth_state" where
  "mtproto_finish E cfg ck reader writer peer is_tls dec_prekey_iv user user_id v st =
     (if is_user_source_ip_denied (ae_contains E) (pc_user_source_deny cfg) user (sa_ip peer)
      then (BadClient reader writer, record_failure E ck peer st)
      else case check_and_add_handshake (ae_lru E) (ae_shard_hash E) (ck_replay ck) dec_prekey_iv (au_replay st) of
             (True, rp) \<Rightarrow> (BadClient reader writer, record_failure E ck peer (st\<lparr>au_replay := rp\<rparr>))
           | (False, rp) \<Rightarrow>
               let success = \<lparr>hk_user = user, hk_dc_idx = mv_dc_idx v, hk_proto_tag = mv_proto_tag v,
                     hk_dec_key = mv_dec_key v, hk_dec_iv = mv_dec_iv v, hk_enc_key = mv_enc_key v,
                     hk_enc_iv = mv_enc_iv v, hk_peer = peer, hk_is_tls = is_tls\<rparr>;
                   st1 = map_probe (auth_probe_record_success (sa_ip peer)) (st\<lparr>au_replay := rp\<rparr>);
                   st2 = (case user_id of
                            None \<Rightarrow> st1
                          | Some uid \<Rightarrow> st1\<lparr>au_shared :=
                              record_recent_user_success uid
                                (sticky_hint_record_success (ae_hasher E) (sa_ip peer) uid None (au_shared st1))\<rparr>)
               in (Success (cr_new reader (mv_decryptor v),
                     cw_new writer (mv_encryptor v) (pc_crypto_pending_buffer cfg), success), st2))"

text \<open>A scan is charged to the counters.\<close>

definition charge_scan :: "'v scan_state \<Rightarrow> 'c auth_state \<Rightarrow> 'c auth_state" where
  "charge_scan sc st =
     (let st1 = add_expensive_checks (sc_checks sc) st
      in if sc_budget_exhausted sc
         then st1\<lparr>au_shared := (au_shared st1)\<lparr>hs_auth_budget_exhausted_total :=
                   fetch_add_u64 (hs_auth_budget_exhausted_total (au_shared st1)) 1\<rparr>\<rparr>
         else st1)"

text \<open>
  The branch for a configuration with a snapshot of its users. A scan that matches leaves the match in its state.
\<close>

definition mtproto_scan_snapshot ::
  "('n, 'c) auth_env \<Rightarrow> 'n proxy_config \<Rightarrow> auth_clock \<Rightarrow> (bytes \<Rightarrow> mtproto_candidate_validation option) \<Rightarrow> user_auth_snapshot \<Rightarrow>
     'r \<Rightarrow> 'w \<Rightarrow> socket_addr \<Rightarrow> bool \<Rightarrow> string option \<Rightarrow> bytes \<Rightarrow> 'c auth_state \<Rightarrow> ('r, 'w) mtproto_result \<times> 'c auth_state" where
  "mtproto_scan_snapshot E cfg ck validate snap reader writer peer is_tls preferred_user dec_prekey_iv st =
     (let sh = au_shared st;
          sticky_ip_hint = sticky_hint_get_by_ip sh (sa_ip peer);
          sticky_prefix_hint = sticky_hint_get_by_ip_prefix sh (sa_ip peer);
          preferred_user_id = Option.bind preferred_user (user_id_by_name snap);
          has_hint = (sticky_ip_hint \<noteq> None \<or> sticky_prefix_hint \<noteq> None \<or> preferred_user_id \<noteq> None);
          (overload, probe) = auth_probe_saturation_is_throttled (ck_overload ck) (hs_probe sh);
          st1 = map_probe (\<lambda>_. probe) st;
          candidate_budget = budget_for_validation (length (us_entries snap)) overload has_hint;
          (matched, sc) = scan_users snap validate candidate_budget
             [sticky_ip_hint, preferred_user_id, sticky_prefix_hint]
             [ring_ids (hs_recent_user_ring sh) (hs_recent_user_ring_seq sh), all_ids snap];
          st2 = charge_scan sc st1
      in case sc_matched sc of
           None \<Rightarrow>
             (BadClient reader writer,
              record_failure E ck peer
                (map_probe (auth_probe_note_expensive_invalid_scan (ck_failure ck) (sc_checks sc) overload) st2))
         | Some (user, secret, user_id, v) \<Rightarrow>
             mtproto_finish E cfg ck reader writer peer is_tls dec_prekey_iv user (Some user_id) v st2)"

text \<open>The loop over the decoded secrets, for a configuration without a snapshot.\<close>

fun try_decoded ::
  "(bytes \<Rightarrow> 'v option) \<Rightarrow> (string \<times> bytes) list \<Rightarrow> nat \<Rightarrow> nat \<times> (string \<times> 'v) option" where
  "try_decoded validate [] validation_checks = (validation_checks, None)"
| "try_decoded validate ((user, secret) # users) validation_checks =
     (if length secret \<noteq> ACCESS_SECRET_BYTES then try_decoded validate users validation_checks
      else let checks = sat_add U64_MAX validation_checks 1
           in case validate secret of
                None \<Rightarrow> try_decoded validate users checks
              | Some v \<Rightarrow> (checks, Some (user, v)))"

definition mtproto_scan_config ::
  "('n, 'c) auth_env \<Rightarrow> 'n proxy_config \<Rightarrow> auth_clock \<Rightarrow> (bytes \<Rightarrow> mtproto_candidate_validation option) \<Rightarrow>
     'r \<Rightarrow> 'w \<Rightarrow> socket_addr \<Rightarrow> bool \<Rightarrow> string option \<Rightarrow> bytes \<Rightarrow> 'c auth_state \<Rightarrow> ('r, 'w) mtproto_result \<times> 'c auth_state" where
  "mtproto_scan_config E cfg ck validate reader writer peer is_tls preferred_user dec_prekey_iv st =
     (let (decoded_users, sh) = decode_user_secrets (ae_hex E) (pc_users cfg) preferred_user (au_shared st);
          (validation_checks, found) = try_decoded validate decoded_users 0;
          st1 = add_expensive_checks validation_checks (st\<lparr>au_shared := sh\<rparr>)
      in case found of
           Some (user, v) \<Rightarrow> mtproto_finish E cfg ck reader writer peer is_tls dec_prekey_iv user None v st1
         | None \<Rightarrow> (BadClient reader writer, record_failure E ck peer st1))"

definition dec_prekey_iv_of :: "bytes \<Rightarrow> bytes" where
  "dec_prekey_iv_of handshake = slice handshake SKIP_LEN (SKIP_LEN + PREKEY_LEN + IV_LEN)"

definition candidate_check ::
  "('n, 'c) auth_env \<Rightarrow> 'n proxy_config \<Rightarrow> bool \<Rightarrow> bytes \<Rightarrow> bytes \<Rightarrow> mtproto_candidate_validation option" where
  "candidate_check E cfg is_tls handshake =
     (let dec_prekey_iv = dec_prekey_iv_of handshake;
          dec_prekey = take PREKEY_LEN dec_prekey_iv;
          dec_iv = from_be (drop PREKEY_LEN dec_prekey_iv);
          enc_prekey_iv = rev dec_prekey_iv;
          enc_prekey = take PREKEY_LEN enc_prekey_iv;
          enc_iv = from_be (drop PREKEY_LEN enc_prekey_iv)
      in validate_mtproto_secret_candidate (ae_sha E) (ae_ks E) handshake dec_prekey dec_iv enc_prekey enc_iv cfg is_tls)"

definition handle_mtproto_handshake ::
  "('n, 'c) auth_env \<Rightarrow> auth_clock \<Rightarrow> bytes \<Rightarrow> 'r \<Rightarrow> 'w \<Rightarrow> socket_addr \<Rightarrow> 'n proxy_config \<Rightarrow> bool \<Rightarrow> string option \<Rightarrow>
     'c auth_state \<Rightarrow> ('r, 'w) mtproto_result \<times> 'c auth_state" where
  "handle_mtproto_handshake E ck handshake reader writer peer cfg is_tls preferred_user st =
     (let (throttled, probe) =
        auth_probe_should_apply_preauth_throttle (sa_ip peer) (ck_throttle ck) (hs_probe (au_shared st));
          st1 = map_probe (\<lambda>_. probe) st
      in if throttled then (BadClient reader writer, st1)
         else let validate = candidate_check E cfg is_tls handshake; dec_prekey_iv = dec_prekey_iv_of handshake
              in case pc_runtime_user_auth cfg of
                   Some snap \<Rightarrow>
                     mtproto_scan_snapshot E cfg ck validate snap reader writer peer is_tls preferred_user dec_prekey_iv st1
                 | None \<Rightarrow> mtproto_scan_config E cfg ck validate reader writer peer is_tls preferred_user dec_prekey_iv st1)"

subsection \<open>What the parts leave alone\<close>

lemma candidate_checkD:
  "candidate_check E cfg is_tls h secret = Some v \<Longrightarrow>
    proto_tag_from_bytes (slice (fst (ctr_apply (ae_ks E) (ctr_new (mv_dec_key v) (mv_dec_iv v)) h)) PROTO_TAG_POS (PROTO_TAG_POS + 4)) =
      Some (mv_proto_tag v) \<and> mode_enabled_for_proto cfg (mv_proto_tag v) is_tls"
  by (auto simp: candidate_check_def validate_mtproto_secret_candidate_def Let_def split: prod.splits option.splits if_splits)

lemma replay_kept [simp]:
  "au_replay (map_probe f st) = au_replay st"
  "au_replay (record_failure E ck peer st) = au_replay st"
  "au_replay (add_expensive_checks n st) = au_replay st"
  "au_replay (charge_scan sc st) = au_replay st"
  by (simp_all add: map_probe_def record_failure_def add_expensive_checks_def charge_scan_def Let_def)

lemma probe_kept:
  "hs_probe (record_recent_user_success uid sh) = hs_probe sh"
  "hs_probe (sticky_hint_record_success H ip uid sni sh) = hs_probe sh"
  by (simp_all add: record_recent_user_success_def sticky_hint_record_success_def Let_def split: option.split)

lemma checks_kept [simp]:
  "hs_auth_expensive_checks_total (au_shared (map_probe f st)) = hs_auth_expensive_checks_total (au_shared st)"
  "hs_auth_expensive_checks_total (au_shared (record_failure E ck peer st)) = hs_auth_expensive_checks_total (au_shared st)"
  "hs_auth_expensive_checks_total (au_shared (charge_scan sc st)) =
     fetch_add_u64 (hs_auth_expensive_checks_total (au_shared st)) (sc_checks sc)"
  "hs_auth_expensive_checks_total (record_recent_user_success uid sh) = hs_auth_expensive_checks_total sh"
  "hs_auth_expensive_checks_total (sticky_hint_record_success H ip uid sni sh) = hs_auth_expensive_checks_total sh"
  by (simp_all add: map_probe_def record_failure_def charge_scan_def add_expensive_checks_def record_recent_user_success_def
      sticky_hint_record_success_def Let_def split: option.split)

lemma finish_checks:
  "hs_auth_expensive_checks_total (au_shared (snd (mtproto_finish E cfg ck reader writer peer is_tls d user uid v st))) =
    hs_auth_expensive_checks_total (au_shared st)"
  by (simp add: mtproto_finish_def Let_def split: prod.split bool.split option.split)

text \<open>The answer of the replay checker to a handshake.\<close>

definition replay_answer :: "('n, 'c) auth_env \<Rightarrow> auth_clock \<Rightarrow> bytes \<Rightarrow> 'c auth_state \<Rightarrow> bool \<times> 'c replay_checker" where
  "replay_answer E ck handshake st =
     check_and_add_handshake (ae_lru E) (ae_shard_hash E) (ck_replay ck) (dec_prekey_iv_of handshake) (au_replay st)"

definition denied :: "('n, 'c) auth_env \<Rightarrow> 'n proxy_config \<Rightarrow> socket_addr \<Rightarrow> string \<Rightarrow> bool" where
  "denied E cfg peer user = is_user_source_ip_denied (ae_contains E) (pc_user_source_deny cfg) user (sa_ip peer)"

definition success_of :: "string \<Rightarrow> socket_addr \<Rightarrow> bool \<Rightarrow> mtproto_candidate_validation \<Rightarrow> handshake_success" where
  "success_of user peer is_tls v =
     \<lparr>hk_user = user, hk_dc_idx = mv_dc_idx v, hk_proto_tag = mv_proto_tag v, hk_dec_key = mv_dec_key v, hk_dec_iv = mv_dec_iv v,
      hk_enc_key = mv_enc_key v, hk_enc_iv = mv_enc_iv v, hk_peer = peer, hk_is_tls = is_tls\<rparr>"

text \<open>The three ways in which a handshake with a fitting secret ends.\<close>

lemma finish_denied:
  "denied E cfg peer user \<Longrightarrow>
   mtproto_finish E cfg ck reader writer peer is_tls d user uid v st = (BadClient reader writer, record_failure E ck peer st)"
  by (simp add: mtproto_finish_def denied_def)

lemma finish_replayed:
  assumes "\<not> denied E cfg peer user" and "replay_answer E ck h st = (True, rp)"
  shows "mtproto_finish E cfg ck reader writer peer is_tls (dec_prekey_iv_of h) user uid v st =
    (BadClient reader writer, record_failure E ck peer (st\<lparr>au_replay := rp\<rparr>))"
  using assms by (simp add: mtproto_finish_def denied_def replay_answer_def)

lemma finish_accepted:
  assumes "\<not> denied E cfg peer user" and "replay_answer E ck h st = (False, rp)"
  obtains st' where "mtproto_finish E cfg ck reader writer peer is_tls (dec_prekey_iv_of h) user uid v st =
    (Success (cr_new reader (mv_decryptor v), cw_new writer (mv_encryptor v) (pc_crypto_pending_buffer cfg),
       success_of user peer is_tls v), st')" "au_replay st' = rp"
    "hs_probe (au_shared st') = auth_probe_record_success (sa_ip peer) (hs_probe (au_shared st))"
proof -
  let ?f = "mtproto_finish E cfg ck reader writer peer is_tls (dec_prekey_iv_of h) user uid v st"
  have "fst ?f = Success (cr_new reader (mv_decryptor v), cw_new writer (mv_encryptor v) (pc_crypto_pending_buffer cfg),
       success_of user peer is_tls v) \<and> au_replay (snd ?f) = rp \<and>
       hs_probe (au_shared (snd ?f)) = auth_probe_record_success (sa_ip peer) (hs_probe (au_shared st))"
    using assms by (simp add: mtproto_finish_def denied_def replay_answer_def success_of_def probe_kept map_probe_def Let_def split: option.split)
  then show ?thesis using that [of "snd ?f"] by (metis prod.collapse)
qed

text \<open>A secret that belongs to a user, in the snapshot or in the configuration.\<close>

definition user_secret :: "('n, 'c) auth_env \<Rightarrow> 'n proxy_config \<Rightarrow> string \<Rightarrow> bytes \<Rightarrow> bool" where
  "user_secret E cfg user secret =
     (case pc_runtime_user_auth cfg of
        Some snap \<Rightarrow> \<lparr>ua_user = user, ua_secret = secret\<rparr> \<in> set (us_entries snap)
      | None \<Rightarrow> \<exists>secret_hex. (user, secret_hex) \<in> set (pc_users cfg) \<and> ae_hex E secret_hex = Some secret \<and>
          length secret = ACCESS_SECRET_BYTES)"

lemma decode_user_secretD:
  "decode_user_secret hex name secret_hex sh = (Some bs, sh') \<Longrightarrow> hex secret_hex = Some bs \<and> length bs = ACCESS_SECRET_BYTES"
  by (auto simp: decode_user_secret_def split: option.splits if_splits)

lemma decode_others_sound:
  "decode_others hex preferred users sh = (ds, sh') \<Longrightarrow> (user, secret) \<in> set ds \<Longrightarrow>
    \<exists>h. (user, h) \<in> set users \<and> hex h = Some secret \<and> length secret = ACCESS_SECRET_BYTES"
proof (induction users arbitrary: ds sh sh')
  case (Cons u users)
  obtain name h where u: "u = (name, h)" by fastforce
  show ?case
  proof (cases "preferred = Some name")
    case True
    then have "decode_others hex preferred users sh = (ds, sh')" using Cons.prems(1) u by simp
    from Cons.IH [OF this Cons.prems(2)] show ?thesis by auto
  next
    case False
    obtain r sh1 where r: "decode_user_secret hex name h sh = (r, sh1)" by fastforce
    obtain rest sh2 where rest: "decode_others hex preferred users sh1 = (rest, sh2)" by fastforce
    have ds: "ds = (case r of Some bs \<Rightarrow> (name, bs) # rest | None \<Rightarrow> rest)" using Cons.prems(1) u False r rest by simp
    show ?thesis
    proof (cases "(user, secret) \<in> set rest")
      case True
      from Cons.IH [OF rest True] show ?thesis by auto
    next
      case False
      then have "r = Some secret" "user = name" using ds Cons.prems(2) by (auto split: option.splits)
      then show ?thesis using decode_user_secretD [of hex name h sh secret sh1] r u by auto
    qed
  qed
qed simp

lemma decode_user_secrets_sound:
  assumes "decode_user_secrets hex users preferred sh = (ds, sh')" and "(user, secret) \<in> set ds"
  shows "\<exists>h. (user, h) \<in> set users \<and> hex h = Some secret \<and> length secret = ACCESS_SECRET_BYTES"
proof -
  obtain first sh1 where f: "(case preferred of
           None \<Rightarrow> ([], sh)
         | Some preferred \<Rightarrow>
             (case map_of users preferred of
                None \<Rightarrow> ([], sh)
              | Some secret_hex \<Rightarrow>
                  (case decode_user_secret hex preferred secret_hex sh of
                     (Some bs, sh') \<Rightarrow> ([(preferred, bs)], sh')
                   | (None, sh') \<Rightarrow> ([], sh')))) = (first, sh1)" by fastforce
  obtain rest sh2 where r: "decode_others hex preferred users sh1 = (rest, sh2)" by fastforce
  have "ds = first @ rest" using assms(1) f r by (simp add: decode_user_secrets_def)
  then consider "(user, secret) \<in> set first" | "(user, secret) \<in> set rest" using assms(2) by auto
  then show ?thesis
  proof cases
    case 1
    then obtain h sh3 where "map_of users user = Some h" "decode_user_secret hex user h sh = (Some secret, sh3)"
      using f by (auto split: option.splits prod.splits)
    then show ?thesis using decode_user_secretD map_of_SomeD by fast
  next
    case 2
    then show ?thesis by (rule decode_others_sound [OF r])
  qed
qed

lemma try_decoded_sound:
  "try_decoded validate ds n = (k, Some (user, v)) \<Longrightarrow> \<exists>secret. (user, secret) \<in> set ds \<and> validate secret = Some v"
proof (induction ds arbitrary: n)
  case (Cons d ds)
  then show ?case by (cases d) (auto simp: Let_def split: if_splits option.splits)
qed simp

lemma try_decoded_none:
  "try_decoded validate ds n = (k, None) \<Longrightarrow> (user, secret) \<in> set ds \<Longrightarrow> length secret = ACCESS_SECRET_BYTES \<Longrightarrow> validate secret = None"
proof (induction ds arbitrary: n)
  case (Cons d ds)
  then show ?case by (cases d) (auto simp: Let_def split: if_splits option.splits)
qed simp

lemma config_cases:
  assumes "mtproto_scan_config E cfg ck (candidate_check E cfg is_tls h) reader writer peer is_tls preferred d st = (res, st')"
    and none: "pc_runtime_user_auth cfg = None"
  obtains (refused) "res = BadClient reader writer" "au_replay st' = au_replay st"
    "\<forall>user secret. (user, secret) \<in> set (fst (decode_user_secrets (ae_hex E) (pc_users cfg) preferred (au_shared st))) \<longrightarrow>
       length secret = ACCESS_SECRET_BYTES \<longrightarrow> candidate_check E cfg is_tls h secret = None"
  | (fits) user secret v st1 where "user_secret E cfg user secret" "candidate_check E cfg is_tls h secret = Some v"
      "au_replay st1 = au_replay st"
      "mtproto_finish E cfg ck reader writer peer is_tls d user None v st1 = (res, st')"
proof -
  let ?c = "candidate_check E cfg is_tls h"
  obtain ds sh where ds: "decode_user_secrets (ae_hex E) (pc_users cfg) preferred (au_shared st) = (ds, sh)" by fastforce
  obtain k f where f: "try_decoded ?c ds 0 = (k, f)" by fastforce
  show thesis
  proof (cases f)
    case None
    then show ?thesis using assms(1) ds f try_decoded_none [of ?c ds 0 k]
      by (intro refused) (auto simp: mtproto_scan_config_def)
  next
    case (Some uv)
    then obtain user v where uv: "f = Some (user, v)" by fastforce
    from try_decoded_sound [OF f [unfolded uv]] obtain secret where s: "(user, secret) \<in> set ds" "?c secret = Some v" by blast
    have "user_secret E cfg user secret"
      using decode_user_secrets_sound [OF ds s(1)] none by (simp add: user_secret_def)
    then show ?thesis using assms(1) ds f uv s
      by (intro fits [of user secret v "add_expensive_checks k (st\<lparr>au_shared := sh\<rparr>)"]) (simp_all add: mtproto_scan_config_def)
  qed
qed

text \<open>The scan of a snapshot as the handler sets it up.\<close>

definition snapshot_scan ::
  "auth_clock \<Rightarrow> (bytes \<Rightarrow> 'v option) \<Rightarrow> user_auth_snapshot \<Rightarrow> socket_addr \<Rightarrow> string option \<Rightarrow> 'c auth_state \<Rightarrow> bool \<times> 'v scan_state" where
  "snapshot_scan ck validate snap peer preferred st =
     (let sh = au_shared st;
          ip = sticky_hint_get_by_ip sh (sa_ip peer); pfx = sticky_hint_get_by_ip_prefix sh (sa_ip peer);
          pref = Option.bind preferred (user_id_by_name snap)
      in scan_users snap validate
           (budget_for_validation (length (us_entries snap))
              (fst (auth_probe_saturation_is_throttled (ck_overload ck) (hs_probe sh)))
              (ip \<noteq> None \<or> pfx \<noteq> None \<or> pref \<noteq> None))
           [ip, pref, pfx] [ring_ids (hs_recent_user_ring sh) (hs_recent_user_ring_seq sh), all_ids snap])"

lemma snapshot_cases:
  assumes "mtproto_scan_snapshot E cfg ck (candidate_check E cfg is_tls h) snap reader writer peer is_tls preferred d st = (res, st')"
    and some: "pc_runtime_user_auth cfg = Some snap"
  obtains (refused) "res = BadClient reader writer" "au_replay st' = au_replay st"
    "\<not> fst (snapshot_scan ck (candidate_check E cfg is_tls h) snap peer preferred st)"
  | (fits) user secret uid v st1 where "user_secret E cfg user secret" "candidate_check E cfg is_tls h secret = Some v"
      "au_replay st1 = au_replay st"
      "mtproto_finish E cfg ck reader writer peer is_tls d user (Some uid) v st1 = (res, st')"
      "hs_probe (au_shared st1) = snd (auth_probe_saturation_is_throttled (ck_overload ck) (hs_probe (au_shared st)))"
proof -
  let ?c = "candidate_check E cfg is_tls h"
  obtain b sc where sc: "snapshot_scan ck ?c snap peer preferred st = (b, sc)" by fastforce
  obtain budget hints groups where "snapshot_scan ck ?c snap peer preferred st = scan_users snap ?c budget hints groups"
    by (simp add: snapshot_scan_def Let_def)
  then have ok: "found_ok snap ?c budget (b, sc)" using scan_users_ok [of snap ?c budget hints groups] sc by simp
  obtain ov p where o: "auth_probe_saturation_is_throttled (ck_overload ck) (hs_probe (au_shared st)) = (ov, p)" by fastforce
  note run = assms(1) [unfolded mtproto_scan_snapshot_def Let_def o prod.case]
  show thesis
  proof (cases "sc_matched sc")
    case None
    then have "res = BadClient reader writer \<and> au_replay st' = au_replay st"
      using run sc o by (auto simp: snapshot_scan_def Let_def)
    then show ?thesis using refused ok None sc by (simp add: found_ok_def)
  next
    case (Some m)
    then obtain user secret uid v where m: "sc_matched sc = Some (user, secret, uid, v)" by (metis prod_cases4)
    then have e: "uid < length (us_entries snap)" "us_entries snap ! uid = \<lparr>ua_user = user, ua_secret = secret\<rparr>" "?c secret = Some v"
      using ok by (simp_all add: found_ok_def)
    have u: "user_secret E cfg user secret" using some e(1,2) by (simp add: user_secret_def) (metis nth_mem)
    have f: "mtproto_finish E cfg ck reader writer peer is_tls d user (Some uid) v (charge_scan sc (map_probe (\<lambda>_. p) st)) = (res, st')"
      using run sc o m by (simp add: snapshot_scan_def Let_def)
    show ?thesis
      by (rule fits [OF u e(3) _ f]) (simp_all add: o charge_scan_def add_expensive_checks_def map_probe_def Let_def)
  qed
qed

text \<open>
  Every run of the handler comes down to one of two: the client is refused before anything is checked for a
  replay, or a secret fitted and the run ends as above.
\<close>

definition throttled :: "auth_clock \<Rightarrow> socket_addr \<Rightarrow> 'c auth_state \<Rightarrow> bool \<times> 'c auth_state" where
  "throttled ck peer st =
     (let (t, probe) = auth_probe_should_apply_preauth_throttle (sa_ip peer) (ck_throttle ck) (hs_probe (au_shared st))
      in (t, map_probe (\<lambda>_. probe) st))"

lemma throttled_replay [simp]: "au_replay (snd (throttled ck peer st)) = au_replay st"
  by (simp add: throttled_def case_prod_beta Let_def)

lemma handler_eq:
  "handle_mtproto_handshake E ck h reader writer peer cfg is_tls preferred st =
    (let st1 = snd (throttled ck peer st)
     in if fst (throttled ck peer st) then (BadClient reader writer, st1)
        else case pc_runtime_user_auth cfg of
               Some snap \<Rightarrow> mtproto_scan_snapshot E cfg ck (candidate_check E cfg is_tls h) snap reader writer peer is_tls preferred
                 (dec_prekey_iv_of h) st1
             | None \<Rightarrow> mtproto_scan_config E cfg ck (candidate_check E cfg is_tls h) reader writer peer is_tls preferred
                 (dec_prekey_iv_of h) st1)"
  by (simp add: handle_mtproto_handshake_def throttled_def case_prod_beta Let_def)

lemma handler_cases:
  assumes "handle_mtproto_handshake E ck h reader writer peer cfg is_tls preferred st = (res, st')"
  obtains (refused) "res = BadClient reader writer" "au_replay st' = au_replay st"
  | (fits) user secret uid v st1 where "user_secret E cfg user secret" "candidate_check E cfg is_tls h secret = Some v"
      "au_replay st1 = au_replay st"
      "mtproto_finish E cfg ck reader writer peer is_tls (dec_prekey_iv_of h) user uid v st1 = (res, st')"
proof (cases "fst (throttled ck peer st)")
  case True
  then show ?thesis using assms by (intro refused) (auto simp: handler_eq Let_def)
next
  case False
  show ?thesis
  proof (cases "pc_runtime_user_auth cfg")
    case None
    with assms False have r: "mtproto_scan_config E cfg ck (candidate_check E cfg is_tls h) reader writer peer is_tls preferred
        (dec_prekey_iv_of h) (snd (throttled ck peer st)) = (res, st')" by (simp add: handler_eq Let_def)
    show ?thesis by (rule config_cases [OF r None]) (auto intro: refused fits)
  next
    case (Some snap)
    with assms False have r: "mtproto_scan_snapshot E cfg ck (candidate_check E cfg is_tls h) snap reader writer peer is_tls preferred
        (dec_prekey_iv_of h) (snd (throttled ck peer st)) = (res, st')" by (simp add: handler_eq Let_def)
    show ?thesis by (rule snapshot_cases [OF r Some]) (auto intro: refused fits)
  qed
qed

text \<open>What the replay checker sees of a run.\<close>

lemma handler_replay_step:
  assumes "handle_mtproto_handshake E ck h reader writer peer cfg is_tls preferred st = (res, st')"
  shows "\<not> hs_is_success res \<and> au_replay st' = au_replay st \<or>
    replay_step (ae_lru E) (ae_shard_hash E) (ck_replay ck, Some (dec_prekey_iv_of h)) (au_replay st) =
      (hs_is_success res, au_replay st')"
  using assms
proof (cases rule: handler_cases)
  case refused
  then show ?thesis by simp
next
  case (fits user secret uid v st1)
  obtain a rp where a: "replay_answer E ck h st1 = (a, rp)" by fastforce
  show ?thesis
  proof (cases "denied E cfg peer user")
    case True
    then show ?thesis using fits(3,4) by (auto simp: finish_denied [OF True])
  next
    case False
    have "replay_step (ae_lru E) (ae_shard_hash E) (ck_replay ck, Some (dec_prekey_iv_of h)) (au_replay st) = (\<not> a, rp)"
      using a fits(3) by (simp add: replay_step_def replay_answer_def)
    moreover have "hs_is_success res = (\<not> a) \<and> au_replay st' = rp"
    proof (cases a)
      case True
      with a have r: "replay_answer E ck h st1 = (True, rp)" by simp
      from fits(4) True show ?thesis by (auto simp: finish_replayed [OF False r])
    next
      case na: False
      with a have "replay_answer E ck h st1 = (False, rp)" by simp
      from finish_accepted [OF False this, of reader writer is_tls uid v] fits(4) na show ?thesis by fastforce
    qed
    ultimately show ?thesis by simp
  qed
qed

subsection \<open>Runs\<close>

text \<open>Handshakes that arrive one after the other and share the state. Their streams play no part.\<close>

record 'n mt_request =
  rq_clock :: auth_clock
  rq_handshake :: bytes
  rq_peer :: socket_addr
  rq_config :: "'n proxy_config"
  rq_is_tls :: bool
  rq_preferred :: "string option"

definition mt_step :: "('n, 'c) auth_env \<Rightarrow> 'n mt_request \<Rightarrow> 'c auth_state \<Rightarrow> (unit, unit) mtproto_result \<times> 'c auth_state" where
  "mt_step E q st =
     handle_mtproto_handshake E (rq_clock q) (rq_handshake q) () () (rq_peer q) (rq_config q) (rq_is_tls q) (rq_preferred q) st"

fun mt_run :: "('n, 'c) auth_env \<Rightarrow> 'n mt_request list \<Rightarrow> 'c auth_state \<Rightarrow> bool list \<times> 'c auth_state" where
  "mt_run E [] st = ([], st)"
| "mt_run E (q # qs) st =
     (let (res, st1) = mt_step E q st; (as, st2) = mt_run E qs st1 in (hs_is_success res # as, st2))"

abbreviation rq_time :: "'n mt_request \<Rightarrow> nat" where
  "rq_time q \<equiv> ck_replay (rq_clock q)"

abbreviation rq_event :: "'n mt_request \<Rightarrow> nat \<times> bytes option" where
  "rq_event q \<equiv> (rq_time q, Some (dec_prekey_iv_of (rq_handshake q)))"

lemma mt_step_replay:
  assumes "mt_step E q st = (res, st')"
  shows "\<not> hs_is_success res \<and> au_replay st' = au_replay st \<or>
    replay_step (ae_lru E) (ae_shard_hash E) (rq_event q) (au_replay st) = (hs_is_success res, au_replay st')"
  using handler_replay_step [OF assms [unfolded mt_step_def]] .

lemma mt_step_accepts:
  "mt_step E q st = (res, st') \<Longrightarrow> hs_is_success res \<Longrightarrow>
    replay_step (ae_lru E) (ae_shard_hash E) (rq_event q) (au_replay st) = (True, au_replay st')"
  using mt_step_replay [of E q st res st'] by simp

text \<open>The requests that reach the replay checker, with its answers.\<close>

lemma mt_run_replay:
  "mt_run E qs st = (as, st') \<Longrightarrow>
    \<exists>evs bs. replay_run (ae_lru E) (ae_shard_hash E) (au_replay st) evs = (bs, au_replay st') \<and> length bs = length evs \<and>
      subseq (map fst evs) (map rq_time qs) \<and> count_list bs True = count_list as True"
proof (induction qs arbitrary: st as)
  case Nil
  then show ?case by (intro exI [of _ "[]"]) simp
next
  case (Cons q qs)
  obtain res st1 where q: "mt_step E q st = (res, st1)" by fastforce
  obtain as1 where as: "mt_run E qs st1 = (as1, st')" "as = hs_is_success res # as1" using Cons.prems q by (auto split: prod.splits)
  from Cons.IH [OF as(1)] obtain evs bs where e: "replay_run (ae_lru E) (ae_shard_hash E) (au_replay st1) evs = (bs, au_replay st')"
    "length bs = length evs" "subseq (map fst evs) (map rq_time qs)" "count_list bs True = count_list as1 True" by blast
  show ?case
  proof (cases "\<not> hs_is_success res \<and> au_replay st1 = au_replay st")
    case True
    then show ?thesis using e as(2) by (intro exI [of _ evs] exI [of _ bs]) auto
  next
    case False
    then have "replay_step (ae_lru E) (ae_shard_hash E) (rq_event q) (au_replay st) = (hs_is_success res, au_replay st1)"
      using mt_step_replay [OF q] by blast
    then show ?thesis using e as(2) by (intro exI [of _ "rq_event q # evs"] exI [of _ "hs_is_success res # bs"]) simp
  qed
qed

lemma mt_run_append:
  "mt_run E (a @ b) st = (let (xs, st1) = mt_run E a st; (ys, st2) = mt_run E b st1 in (xs @ ys, st2))"
  by (induction a arbitrary: st) (simp_all add: Let_def split: prod.splits)

lemma mt_run_length: "mt_run E qs st = (as, st') \<Longrightarrow> length as = length qs"
  by (induction qs arbitrary: st as) (auto simp: Let_def split: prod.splits)

lemma accepted_in_le: "length bs = length evs \<Longrightarrow> accepted_in hash i evs bs \<le> count_list bs True"
proof (induction bs evs rule: list_induct2)
  case (Cons b bs e evs)
  then show ?case by (auto simp: accepted_in_def)
qed (simp add: accepted_in_def)

lemma sorted_subseq: "subseq xs ys \<Longrightarrow> sorted (ys :: nat list) \<Longrightarrow> sorted xs"
  by (induction rule: list_emb.induct) (auto dest: list_emb_set)

lemma sorted_parts:
  assumes "subseq (xs :: nat list) xs'" and "subseq ys ys'" and "sorted (xs' @ t # ys' @ [t'])"
  shows "sorted (xs @ t # ys @ [t'])"
proof -
  have "set xs \<subseteq> set xs'" "set ys \<subseteq> set ys'" using assms(1,2) by (auto dest: list_emb_set)
  moreover have "sorted xs" "sorted ys"
    using assms(3) sorted_subseq [OF assms(1)] sorted_subseq [OF assms(2)] by (simp_all add: sorted_append)
  ultimately show ?thesis using assms(3) by (auto simp: sorted_append subset_iff)
qed

subsection \<open>Clients\<close>

text \<open>
  What a client sends: 64 bytes with the tag and the data centre near the end, of which everything from the tag on is
  encrypted under the key made of its own bytes 8 to 40 and the secret.
\<close>

definition client_ctr :: "sha256 \<Rightarrow> bytes \<Rightarrow> bytes \<Rightarrow> aes_ctr" where
  "client_ctr sha secret nonce =
     ctr_new (sha (take 32 (dec_prekey_iv_of nonce) @ secret)) (from_be (drop 32 (dec_prekey_iv_of nonce)))"

definition client_handshake :: "sha256 \<Rightarrow> keystream \<Rightarrow> bytes \<Rightarrow> bytes \<Rightarrow> bytes" where
  "client_handshake sha ks secret nonce =
     take PROTO_TAG_POS nonce @ drop PROTO_TAG_POS (fst (ctr_apply ks (client_ctr sha secret nonce) nonce))"

definition client_nonce :: "proto_tag \<Rightarrow> int \<Rightarrow> bytes \<Rightarrow> bool" where
  "client_nonce tag dc nonce \<longleftrightarrow> length nonce = HANDSHAKE_LEN \<and> is_i16 dc \<and>
     slice nonce 56 60 = proto_tag_to_bytes tag \<and> slice nonce 60 62 = i16_to_le_bytes dc"

lemma client_handshake_key: "length nonce = 64 \<Longrightarrow> dec_prekey_iv_of (client_handshake sha ks secret nonce) = dec_prekey_iv_of nonce"
  by (simp add: client_handshake_def dec_prekey_iv_of_def slice_def drop_take)

lemma client_checked:
  assumes "client_nonce tag dc nonce" and "mode_enabled_for_proto cfg tag is_tls"
  obtains v where "candidate_check E cfg is_tls (client_handshake (ae_sha E) (ae_ks E) secret nonce) secret = Some v"
    "mv_proto_tag v = tag" "mv_dc_idx v = dc" "mv_decryptor v = advance_ctr 64 (client_ctr (ae_sha E) secret nonce)"
    "mv_encryptor v = ctr_new (ae_sha E (take 32 (rev (dec_prekey_iv_of nonce)) @ secret)) (from_be (drop 32 (rev (dec_prekey_iv_of nonce))))"
proof -
  let ?c = "client_ctr (ae_sha E) secret nonce" and ?h = "client_handshake (ae_sha E) (ae_ks E) secret nonce"
  let ?p = "fst (ctr_apply (ae_ks E) ?c ?h)"
  have len: "length nonce = 64" "is_i16 dc" and tg: "slice nonce 56 60 = proto_tag_to_bytes tag" and dcs: "slice nonce 60 62 = i16_to_le_bytes dc"
    using assms(1) by (simp_all add: client_nonce_def)
  have lh: "length ?h = 64" using len by (simp add: client_handshake_def)
  have s: "slice ?p i j = slice nonce i j" if "56 \<le> i" for i j
    using open_head_slice [of 56 nonce i "ae_ks E" ?c j] that len by (simp add: client_handshake_def)
  have "?p ! 60 = i16_to_le_bytes dc ! 0 \<and> ?p ! 61 = i16_to_le_bytes dc ! 1"
    using slice_pick [of 60 ?p] s [of 60 62] dcs lh by (simp add: i16_to_le_bytes_def numeral_2_eq_2)
  then have d: "i16_from_le_bytes (?p ! 60) (?p ! 61) = dc" using i16_roundtrip [OF len(2)] by simp
  have t: "proto_tag_from_bytes (slice ?p 56 60) = Some tag" using s [of 56 60] tg by simp
  have ck: "ctr_new (ae_sha E (take 32 (dec_prekey_iv_of nonce) @ secret)) (from_be (drop 32 (dec_prekey_iv_of nonce))) = ?c"
    by (simp add: client_ctr_def)
  have a: "snd (ctr_apply (ae_ks E) ?c ?h) = advance_ctr 64 ?c" using lh by (simp add: ctr_apply_snd)
  show thesis
    using that t d a assms(2)
    by (simp add: candidate_check_def client_handshake_key [OF len(1)] validate_mtproto_secret_candidate_def ck Let_def case_prod_beta)
qed

lemma ring_ids_length: "length (ring_ids ring n) \<le> 32"
  by (simp add: ring_ids_def Let_def) (rule order_trans [OF length_filter_le], simp)

text \<open>The peer is neither throttled nor is the proxy overloaded.\<close>

definition in_overload :: "auth_clock \<Rightarrow> socket_addr \<Rightarrow> 'c auth_state \<Rightarrow> bool" where
  "in_overload ck peer st \<longleftrightarrow>
     fst (auth_probe_saturation_is_throttled (ck_overload ck) (hs_probe (au_shared (snd (throttled ck peer st)))))"

definition calm :: "auth_clock \<Rightarrow> socket_addr \<Rightarrow> 'c auth_state \<Rightarrow> bool" where
  "calm ck peer st \<longleftrightarrow> \<not> fst (throttled ck peer st) \<and> \<not> in_overload ck peer st"

lemma snapshot_scan_budget:
  assumes "snapshot_scan ck validate snap peer preferred st = (b, sc)"
  obtains budget where "found_ok snap validate budget (b, sc)" "budget \<le> n_users snap"
    "fst (auth_probe_saturation_is_throttled (ck_overload ck) (hs_probe (au_shared st))) \<longrightarrow> budget \<le> 16"
proof -
  let ?o = "fst (auth_probe_saturation_is_throttled (ck_overload ck) (hs_probe (au_shared st)))"
  obtain hinted hints groups where e: "snapshot_scan ck validate snap peer preferred st =
      scan_users snap validate (budget_for_validation (n_users snap) ?o hinted) hints groups"
    by (simp add: snapshot_scan_def Let_def)
  then have "found_ok snap validate (budget_for_validation (n_users snap) ?o hinted) (b, sc)"
    using scan_users_ok [of snap validate "budget_for_validation (n_users snap) ?o hinted" hints groups] assms by simp
  then show thesis by (rule that) (auto simp: budget_for_validation_def Let_def)
qed

lemma snapshot_scan_complete:
  assumes "\<not> fst (auth_probe_saturation_is_throttled (ck_overload ck) (hs_probe (au_shared st)))"
    and "n_users snap \<le> m" "m = U32_MAX + 1" and "i < n_users snap" and "validate (ua_secret (us_entries snap ! i)) \<noteq> None"
  shows "fst (snapshot_scan ck validate snap peer preferred st)"
proof (rule ccontr)
  assume no: "\<not> ?thesis"
  let ?sh = "au_shared st"
  let ?ring = "ring_ids (hs_recent_user_ring ?sh) (hs_recent_user_ring_seq ?sh)"
  let ?hints = "[sticky_hint_get_by_ip ?sh (sa_ip peer), Option.bind preferred (user_id_by_name snap),
      sticky_hint_get_by_ip_prefix ?sh (sa_ip peer)]"
  have "budget_for_validation (n_users snap) False b = n_users snap" for b by (simp add: budget_for_validation_def)
  then have "snapshot_scan ck validate snap peer preferred st = scan_users snap validate (n_users snap) ?hints ([?ring] @ [all_ids snap])"
    using assms(1) by (simp add: snapshot_scan_def Let_def)
  with no obtain sc where sc: "scan_users snap validate (n_users snap) ?hints ([?ring] @ [all_ids snap]) = (False, sc)"
    by (metis prod.collapse)
  have "validate (ua_secret (us_entries snap ! i)) = None"
    using scan_users_complete [OF assms(2,3) _ sc assms(4)] ring_ids_length [of "hs_recent_user_ring ?sh" "hs_recent_user_ring_seq ?sh"]
    by simp
  then show False using assms(5) by simp
qed

lemma client_accepted:
  assumes "pc_runtime_user_auth cfg = Some snap" and "n_users snap \<le> U32_MAX + 1" and "i < n_users snap"
    and "us_entries snap ! i = \<lparr>ua_user = user, ua_secret = secret\<rparr>"
    and "client_nonce tag dc nonce" and "mode_enabled_for_proto cfg tag is_tls"
    and "h = client_handshake (ae_sha E) (ae_ks E) secret nonce"
    and "\<forall>j<n_users snap. j \<noteq> i \<longrightarrow> candidate_check E cfg is_tls h (ua_secret (us_entries snap ! j)) = None"
    and "calm ck peer st" and "\<not> denied E cfg peer user" and "\<not> fst (replay_answer E ck h st)"
  shows "case fst (handle_mtproto_handshake E ck h reader writer peer cfg is_tls preferred st) of
      Success (r, w, s) \<Rightarrow>
        hk_user s = user \<and> hk_proto_tag s = tag \<and> hk_dc_idx s = dc \<and>
        r = cr_new reader (advance_ctr 64 (client_ctr (ae_sha E) secret nonce)) \<and>
        w = cw_new writer (ctr_new (ae_sha E (take 32 (rev (dec_prekey_iv_of nonce)) @ secret))
              (from_be (drop 32 (rev (dec_prekey_iv_of nonce))))) (pc_crypto_pending_buffer cfg)
    | _ \<Rightarrow> False"
proof -
  let ?st1 = "snd (throttled ck peer st)" and ?c = "candidate_check E cfg is_tls h"
  obtain v where v: "?c secret = Some v" "mv_proto_tag v = tag" "mv_dc_idx v = dc"
    "mv_decryptor v = advance_ctr 64 (client_ctr (ae_sha E) secret nonce)"
    "mv_encryptor v = ctr_new (ae_sha E (take 32 (rev (dec_prekey_iv_of nonce)) @ secret)) (from_be (drop 32 (rev (dec_prekey_iv_of nonce))))"
    using client_checked [OF assms(5,6), of E secret] assms(7) by metis
  obtain res st' where run: "mtproto_scan_snapshot E cfg ck ?c snap reader writer peer is_tls preferred (dec_prekey_iv_of h) ?st1 = (res, st')"
    by fastforce
  have hd: "handle_mtproto_handshake E ck h reader writer peer cfg is_tls preferred st = (res, st')"
    using run assms(1,9) by (simp add: handler_eq calm_def Let_def)
  have sc: "fst (snapshot_scan ck ?c snap peer preferred ?st1)"
    using assms(9) v(1) assms(4) by (intro snapshot_scan_complete [OF _ assms(2) refl assms(3)]) (simp_all add: calm_def in_overload_def)
  show ?thesis
  proof (rule snapshot_cases [OF run assms(1)], goal_cases)
    case 1
    then show ?thesis using sc by simp
  next
    case (2 user2 secret2 uid v2 st2)
    from 2(1) assms(1) obtain j where j: "j < n_users snap" "us_entries snap ! j = \<lparr>ua_user = user2, ua_secret = secret2\<rparr>"
      by (auto simp: user_secret_def in_set_conv_nth)
    have "j = i" using assms(8) j 2(2) by force
    then have same: "user2 = user" "v2 = v" using j(2) assms(4) 2(2) v(1) by simp_all
    obtain rp where rp: "replay_answer E ck h st2 = (False, rp)"
      using assms(11) 2(3) by (cases "replay_answer E ck h st2") (simp add: replay_answer_def)
    obtain st3 where "mtproto_finish E cfg ck reader writer peer is_tls (dec_prekey_iv_of h) user (Some uid) v st2 =
        (Success (cr_new reader (mv_decryptor v), cw_new writer (mv_encryptor v) (pc_crypto_pending_buffer cfg),
          success_of user peer is_tls v), st3)" "au_replay st3 = rp"
      by (rule finish_accepted [OF assms(10) rp])
    then have "res = Success (cr_new reader (mv_decryptor v), cw_new writer (mv_encryptor v) (pc_crypto_pending_buffer cfg),
        success_of user peer is_tls v)" using 2(4) same by simp
    then show ?thesis using hd v by (simp add: success_of_def)
  qed
qed

subsection \<open>Properties\<close>

text \<open>
  C6. Every user gets in. A client that knows the secret of a user of the snapshot and asks for an enabled
  protocol is accepted, as that user and with the tag and the data centre it asked for, when its
  peer is not throttled and the proxy not overloaded, no other user's secret fits by chance, the user is not barred from
  that address and the handshake is not a replay. Both sides then hold the same cipher states: the reader decrypts
  from where the client goes on, and the writer encrypts under the reversed key material.
\<close>

theorem mtproto_client_accepted:
  assumes "pc_runtime_user_auth cfg = Some snap" and "n_users snap \<le> U32_MAX + 1" and "i < n_users snap"
    and "us_entries snap ! i = \<lparr>ua_user = user, ua_secret = secret\<rparr>"
    and "client_nonce tag dc nonce" and "mode_enabled_for_proto cfg tag is_tls"
    and "h = client_handshake (ae_sha E) (ae_ks E) secret nonce"
    and "\<forall>j<n_users snap. j \<noteq> i \<longrightarrow> candidate_check E cfg is_tls h (ua_secret (us_entries snap ! j)) = None"
    and "calm ck peer st" and "\<not> denied E cfg peer user" and "\<not> fst (replay_answer E ck h st)"
  shows "case fst (handle_mtproto_handshake E ck h reader writer peer cfg is_tls preferred st) of
      Success (r, w, s) \<Rightarrow>
        hk_user s = user \<and> hk_proto_tag s = tag \<and> hk_dc_idx s = dc \<and>
        r = cr_new reader (advance_ctr 64 (client_ctr (ae_sha E) secret nonce)) \<and>
        w = cw_new writer (ctr_new (ae_sha E (take 32 (rev (dec_prekey_iv_of nonce)) @ secret))
              (from_be (drop 32 (rev (dec_prekey_iv_of nonce))))) (pc_crypto_pending_buffer cfg)
    | _ \<Rightarrow> False"
  by (rule client_accepted [OF assms])

text \<open>
  C1. Who gets in. A handshake succeeds only for a secret of a configured user under whose key it decrypts to a
  protocol tag that is enabled for the transport it came on; the user is not barred from the peer's
  address; the handshake is not a replay, and is remembered as seen. The streams are set up with
  the keys derived from that secret.
\<close>

theorem mtproto_success_sound:
  assumes "handle_mtproto_handshake E ck h reader writer peer cfg is_tls preferred st = (Success (r, w, s), st')"
  shows "\<exists>secret v. user_secret E cfg (hk_user s) secret \<and> candidate_check E cfg is_tls h secret = Some v \<and>
    proto_tag_from_bytes (slice (fst (ctr_apply (ae_ks E) (ctr_new (mv_dec_key v) (mv_dec_iv v)) h)) PROTO_TAG_POS (PROTO_TAG_POS + 4)) =
      Some (hk_proto_tag s) \<and>
    mode_enabled_for_proto cfg (hk_proto_tag s) is_tls \<and>
    \<not> denied E cfg peer (hk_user s) \<and> replay_answer E ck h st = (False, au_replay st') \<and>
    s = success_of (hk_user s) peer is_tls v \<and> r = cr_new reader (mv_decryptor v) \<and>
    w = cw_new writer (mv_encryptor v) (pc_crypto_pending_buffer cfg)"
  using assms
proof (cases rule: handler_cases)
  case (fits user secret uid v st1)
  have d: "\<not> denied E cfg peer user" using fits(4) by (auto simp: finish_denied)
  obtain a rp where a: "replay_answer E ck h st1 = (a, rp)" by fastforce
  have "\<not> a" using fits(4) a finish_replayed [OF d, of ck h st1 rp reader writer is_tls uid v] by auto
  with a have a: "replay_answer E ck h st1 = (False, rp)" by simp
  obtain st2 where "mtproto_finish E cfg ck reader writer peer is_tls (dec_prekey_iv_of h) user uid v st1 =
      (Success (cr_new reader (mv_decryptor v), cw_new writer (mv_encryptor v) (pc_crypto_pending_buffer cfg),
        success_of user peer is_tls v), st2)" "au_replay st2 = rp"
    by (rule finish_accepted [OF d a])
  then have e: "r = cr_new reader (mv_decryptor v)" "w = cw_new writer (mv_encryptor v) (pc_crypto_pending_buffer cfg)"
    "s = success_of user peer is_tls v" "au_replay st' = rp" using fits(4) by auto
  have u: "hk_user s = user" "hk_proto_tag s = mv_proto_tag v" using e(3) by (simp_all add: success_of_def)
  have "replay_answer E ck h st = (False, rp)" using a fits(3) by (simp add: replay_answer_def)
  then show ?thesis unfolding u e(4)
    by (intro exI [of _ secret] exI [of _ v] conjI fits(1,2) d e(1,2,3) conjunct1 [OF candidate_checkD [OF fits(2)]]
        conjunct2 [OF candidate_checkD [OF fits(2)]])
qed simp

text \<open>
  C22. What fails to authenticate leaves no trace in the replay cache: when no secret of any user fits, the client is
  handed back with its streams and the replay checker is untouched.
\<close>

theorem mtproto_replay_untouched:
  assumes "handle_mtproto_handshake E ck h reader writer peer cfg is_tls preferred st = (res, st')"
    and "\<And>user secret. user_secret E cfg user secret \<Longrightarrow> candidate_check E cfg is_tls h secret = None"
  shows "res = BadClient reader writer \<and> au_replay st' = au_replay st"
  using assms(1)
proof (cases rule: handler_cases)
  case (fits user secret uid v st1)
  then show ?thesis using assms(2) by fastforce
qed simp



subsection \<open>Examples\<close>

text \<open>One user, known to the snapshot, on an idle proxy; the client asks for data centre 2.\<close>

definition demo_env :: "(unit, nat \<times> (bytes \<times> nat) list) auth_env" where
  "demo_env =
     \<lparr>ae_sha = (\<lambda>bs. take 32 bs), ae_ks = demo_ks, ae_hex = (\<lambda>_. None), ae_hasher = (\<lambda>_. 0), ae_contains = (\<lambda>_ _. False),
      ae_probe = demo_probe_env, ae_lru = list_lru, ae_shard_hash = (\<lambda>_. 0)\<rparr>"

definition demo_snapshot :: user_auth_snapshot where
  "demo_snapshot = \<lparr>us_entries = [\<lparr>ua_user = ''ann'', ua_secret = replicate 16 7\<rparr>], us_by_name = [], us_sni_index = [], us_sni_initial_index = []\<rparr>"

definition demo_config :: "unit proxy_config" where
  "demo_config =
     \<lparr>pc_mode_classic = True, pc_mode_secure = False, pc_mode_tls = False, pc_users = [], pc_user_source_deny = [],
      pc_runtime_user_auth = Some demo_snapshot, pc_crypto_pending_buffer = 0\<rparr>"

definition demo_peer :: socket_addr where
  "demo_peer = \<lparr>sa_ip = IpV4 10 0 0 1, sa_port = 4000\<rparr>"

definition demo_clock :: "nat \<Rightarrow> auth_clock" where
  "demo_clock t = \<lparr>ck_throttle = t, ck_overload = t, ck_replay = t, ck_failure = t\<rparr>"

definition demo_nonce :: bytes where
  "demo_nonce = replicate 56 1 @ proto_tag_to_bytes Abridged @ i16_to_le_bytes 2 @ [0, 0]"

definition demo_hello :: bytes where
  "demo_hello = client_handshake (ae_sha demo_env) (ae_ks demo_env) (replicate 16 7) demo_nonce"

definition demo_start :: "(nat \<times> (bytes \<times> nat) list) auth_state" where
  "demo_start = \<lparr>au_shared = handshake_shared_new, au_replay = checker_new list_lru 128 10\<rparr>"

lemma demo_client: "client_nonce Abridged 2 demo_nonce"
  by (simp add: client_nonce_def demo_nonce_def slice_def)

text \<open>A proxy on which nothing has failed.\<close>

definition quiet :: "'c auth_state \<Rightarrow> bool" where
  "quiet st \<longleftrightarrow> hs_probe (au_shared st) = probe_new"

lemma quiet_throttled:
  assumes "quiet st"
  shows "throttled ck peer st = (False, st)" and "calm ck peer st"
proof -
  show t: "throttled ck peer st = (False, st)"
    using assms by (simp add: throttled_def quiet_def map_probe_def probe_new_def auth_probe_should_apply_preauth_throttle_def
        auth_probe_is_throttled_def auth_probe_saturation_is_throttled_def Let_def)
  show "calm ck peer st"
    using assms by (simp add: calm_def in_overload_def t quiet_def probe_new_def auth_probe_saturation_is_throttled_def)
qed

lemma success_quiet:
  assumes "quiet st" and "pc_runtime_user_auth cfg = Some snap"
    and "handle_mtproto_handshake E ck h reader writer peer cfg is_tls preferred st = (Success x, st')"
  shows "quiet st'"
proof -
  have run: "mtproto_scan_snapshot E cfg ck (candidate_check E cfg is_tls h) snap reader writer peer is_tls preferred
      (dec_prekey_iv_of h) st = (Success x, st')"
    using assms by (simp add: handler_eq quiet_throttled [OF assms(1)] Let_def)
  show ?thesis
  proof (rule snapshot_cases [OF run assms(2)], goal_cases)
    case 1 then show ?case by simp
  next
    case (2 user secret uid v st1)
    have d: "\<not> denied E cfg peer user" using 2(4) by (auto simp: finish_denied)
    obtain a rp where a: "replay_answer E ck h st1 = (a, rp)" by fastforce
    have "\<not> a" using 2(4) a finish_replayed [OF d, of ck h st1 rp reader writer is_tls "Some uid" v] by auto
    with a have a: "replay_answer E ck h st1 = (False, rp)" by simp
    have "hs_probe (au_shared st1) = probe_new"
      using assms(1) 2(5) by (simp add: quiet_def probe_new_def auth_probe_saturation_is_throttled_def)
    moreover obtain st2 where "mtproto_finish E cfg ck reader writer peer is_tls (dec_prekey_iv_of h) user (Some uid) v st1 =
        (Success (cr_new reader (mv_decryptor v), cw_new writer (mv_encryptor v) (pc_crypto_pending_buffer cfg),
          success_of user peer is_tls v), st2)" "au_replay st2 = rp"
        "hs_probe (au_shared st2) = auth_probe_record_success (sa_ip peer) (hs_probe (au_shared st1))"
      by (rule finish_accepted [OF d a])
    ultimately show ?case using 2(4) by (simp add: quiet_def auth_probe_record_success_def probe_new_def)
  qed
qed

lemma demo_accepted:
  assumes "quiet st" and "\<not> fst (replay_answer demo_env (demo_clock t) demo_hello st)"
  obtains r w s st' where
    "handle_mtproto_handshake demo_env (demo_clock t) demo_hello () () demo_peer demo_config False None st = (Success (r, w, s), st')"
    "quiet st'" "hk_user s = ''ann''"
proof -
  obtain res st' where run: "handle_mtproto_handshake demo_env (demo_clock t) demo_hello () () demo_peer demo_config False None st = (res, st')"
    by fastforce
  have "case fst (handle_mtproto_handshake demo_env (demo_clock t) demo_hello () () demo_peer demo_config False None st) of
      Success (r, w, s) \<Rightarrow>
        hk_user s = ''ann'' \<and> hk_proto_tag s = Abridged \<and> hk_dc_idx s = 2 \<and>
        r = cr_new () (advance_ctr 64 (client_ctr (ae_sha demo_env) (replicate 16 7) demo_nonce)) \<and>
        w = cw_new () (ctr_new (ae_sha demo_env (take 32 (rev (dec_prekey_iv_of demo_nonce)) @ replicate 16 7))
              (from_be (drop 32 (rev (dec_prekey_iv_of demo_nonce))))) (pc_crypto_pending_buffer demo_config)
    | _ \<Rightarrow> False"
    by (rule client_accepted [where i = 0 and snap = demo_snapshot])
      (use assms demo_client quiet_throttled in \<open>simp_all add: demo_config_def demo_snapshot_def demo_hello_def mode_enabled_for_proto_def
        denied_def is_user_source_ip_denied_def\<close>)
  then obtain r w s where "res = Success (r, w, s)" "hk_user s = ''ann''"
    using run by (auto split: handshake_result.splits)
  then show thesis using that run success_quiet [OF assms(1) _ run [unfolded \<open>res = Success (r, w, s)\<close>]]
    by (simp add: demo_config_def)
qed

lemma demo_fresh: "quiet demo_start" "\<not> fst (replay_answer demo_env (demo_clock 20) demo_hello demo_start)"
  using demo_replay [of 20 "dec_prekey_iv_of demo_hello"]
  by (auto simp: quiet_def demo_start_def handshake_shared_new_def probe_new_def replay_answer_def demo_env_def demo_clock_def
      replay_step_def Let_def split: prod.splits)

theorem mtproto_success_sound_witness:
  "\<exists>secret v. user_secret demo_env demo_config ''ann'' secret \<and> candidate_check demo_env demo_config False demo_hello secret = Some v"
proof -
  obtain r w s st' where
    d: "handle_mtproto_handshake demo_env (demo_clock 20) demo_hello () () demo_peer demo_config False None demo_start = (Success (r, w, s), st')"
      "quiet st'" "hk_user s = ''ann''"
    by (rule demo_accepted [OF demo_fresh])
  from mtproto_success_sound [OF d(1)] d(3) show ?thesis by auto
qed

theorem mtproto_client_accepted_witness:
  "case fst (handle_mtproto_handshake demo_env (demo_clock 20) demo_hello () () demo_peer demo_config False None demo_start) of
      Success (r, w, s) \<Rightarrow>
        hk_user s = ''ann'' \<and> hk_proto_tag s = Abridged \<and> hk_dc_idx s = 2 \<and>
        r = cr_new () (advance_ctr 64 (client_ctr (ae_sha demo_env) (replicate 16 7) demo_nonce)) \<and>
        w = cw_new () (ctr_new (ae_sha demo_env (take 32 (rev (dec_prekey_iv_of demo_nonce)) @ replicate 16 7))
              (from_be (drop 32 (rev (dec_prekey_iv_of demo_nonce))))) (pc_crypto_pending_buffer demo_config)
    | _ \<Rightarrow> False"
  by (rule mtproto_client_accepted [where i = 0 and snap = demo_snapshot])
    (use demo_fresh demo_client quiet_throttled in \<open>simp_all add: demo_config_def demo_snapshot_def demo_hello_def mode_enabled_for_proto_def
      denied_def is_user_source_ip_denied_def\<close>)

definition demo_request :: "nat \<Rightarrow> unit mt_request" where
  "demo_request t =
     \<lparr>rq_clock = demo_clock t, rq_handshake = demo_hello, rq_peer = demo_peer, rq_config = demo_config, rq_is_tls = False, rq_preferred = None\<rparr>"


theorem mtproto_replay_untouched_witness:
  "fst (handle_mtproto_handshake demo_env (demo_clock 20) (replicate 64 0) () () demo_peer demo_config False None demo_start) = BadClient () () \<and>
   au_replay (snd (handle_mtproto_handshake demo_env (demo_clock 20) (replicate 64 0) () () demo_peer demo_config False None demo_start)) =
     au_replay demo_start"
proof (rule mtproto_replay_untouched)
  show "handle_mtproto_handshake demo_env (demo_clock 20) (replicate 64 0) () () demo_peer demo_config False None demo_start =
    (fst (handle_mtproto_handshake demo_env (demo_clock 20) (replicate 64 0) () () demo_peer demo_config False None demo_start),
     snd (handle_mtproto_handshake demo_env (demo_clock 20) (replicate 64 0) () () demo_peer demo_config False None demo_start))" by simp
  fix user secret assume "user_secret demo_env demo_config user secret"
  then have "secret = replicate 16 7" by (simp add: user_secret_def demo_config_def demo_snapshot_def)
  moreover have "slice (fst (ctr_apply demo_ks c (replicate 64 0))) 56 60 =
      [demo_ks (ctr_key c) (ctr_iv c) (ctr_pos c + 56), demo_ks (ctr_key c) (ctr_iv c) (ctr_pos c + 57),
       demo_ks (ctr_key c) (ctr_iv c) (ctr_pos c + 58), demo_ks (ctr_key c) (ctr_iv c) (ctr_pos c + 59)]" for c
    using slice_four [of 56 "fst (ctr_apply demo_ks c (replicate 64 0))"] by (simp add: ctr_apply_nth)
  ultimately show "candidate_check demo_env demo_config False (replicate 64 0) secret = None"
    by (simp add: candidate_check_def validate_mtproto_secret_candidate_def demo_env_def case_prod_beta dec_prekey_iv_of_def slice_def
        proto_tag_from_bytes_def demo_ks_def ctr_new_def u32_from_le_bytes_def Let_def)
qed


end
