(* ===== verification/Client_Hello.thy ===== *)
theory Client_Hello
  imports Proto_Constants Proxy_Protocol User_Auth "HOL-Library.Monad_Syntax"
begin

section \<open>The client hello of the fake TLS handshake\<close>

text \<open>
  \<^verbatim>\<open>src/src/protocol/tls.rs\<close>, the part that reads from the first record of a client
  the server name, protocols, versions and cipher suites it offers. The readers index the bytes of the
  client directly, and an index out of range is a panic: a function that can panic returns an \<open>option\<close>
  whose \<open>None\<close> is the panic. A server name is the byte string of its UTF-8 encoding.
\<close>

subsection \<open>Indexing\<close>

text \<open>\<open>xs[i]\<close>, the two bytes at \<open>i\<close> as a \<open>u16\<close>, and \<open>&xs[i..j]\<close>; \<open>None\<close> is a panic.\<close>

definition index :: "'a list \<Rightarrow> nat \<Rightarrow> 'a option" where
  "index xs i = (if i < length xs then Some (xs ! i) else None)"

definition be16_at :: "bytes \<Rightarrow> nat \<Rightarrow> nat option" where
  "be16_at bs i = do { a \<leftarrow> index bs i; b \<leftarrow> index bs (i + 1); Some (u16_from_be_bytes a b) }"

definition subslice :: "'a list \<Rightarrow> nat \<Rightarrow> nat \<Rightarrow> 'a list option" where
  "subslice xs i j = (if i \<le> j \<and> j \<le> length xs then Some (slice xs i j) else None)"

subsection \<open>Server names\<close>

definition to_text :: "bytes \<Rightarrow> string" where
  "to_text bs = map (\<lambda>b. char_of (unat b)) bs"

fun split_dots :: "bytes \<Rightarrow> bytes list" where
  "split_dots [] = [[]]"
| "split_dots (b # s) =
     (if b = 0x2E then [] # split_dots s
      else case split_dots s of [] \<Rightarrow> [[b]] | l # ls \<Rightarrow> (b # l) # ls)"

definition is_ascii_alphanumeric :: "u8 \<Rightarrow> bool" where
  "is_ascii_alphanumeric b \<longleftrightarrow> 0x30 \<le> b \<and> b \<le> 0x39 \<or> 0x41 \<le> b \<and> b \<le> 0x5A \<or> 0x61 \<le> b \<and> b \<le> 0x7A"

definition valid_label :: "bytes \<Rightarrow> bool" where
  "valid_label label \<longleftrightarrow> label \<noteq> [] \<and> length label \<le> 63 \<and> hd label \<noteq> 0x2D \<and> last label \<noteq> 0x2D \<and>
     list_all (\<lambda>b. is_ascii_alphanumeric b \<or> b = 0x2D) label"

definition parses_as_ip :: "bytes \<Rightarrow> bool" where
  "parses_as_ip host = (case utf8_decode host of None \<Rightarrow> False | Some cs \<Rightarrow> parse_ip cs \<noteq> None)"

definition is_valid_sni_hostname :: "bytes \<Rightarrow> bool" where
  "is_valid_sni_hostname host \<longleftrightarrow> host \<noteq> [] \<and> length host \<le> 253 \<and> hd host \<noteq> 0x2E \<and> last host \<noteq> 0x2E \<and>
     \<not> parses_as_ip host \<and> list_all valid_label (split_dots host)"

text \<open>The names of the extension, the first that is a host name.\<close>

function sni_names :: "bytes \<Rightarrow> nat \<Rightarrow> nat \<Rightarrow> bytes option option" where
  "sni_names hs sn_pos sn_end =
     (if sn_pos + 3 \<le> sn_end then do {
        name_type \<leftarrow> index hs sn_pos;
        name_len \<leftarrow> be16_at hs (sn_pos + 1);
        if sn_pos + 3 + name_len > sn_end then Some None
        else if name_type = 0 \<and> name_len > 0 then do {
          host \<leftarrow> subslice hs (sn_pos + 3) (sn_pos + 3 + name_len);
          if utf8_decode host \<noteq> None \<and> is_valid_sni_hostname host then Some (Some host)
          else sni_names hs (sn_pos + 3 + name_len) sn_end
        }
        else sni_names hs (sn_pos + 3 + name_len) sn_end
      }
      else Some None)"
  by pat_completeness auto
termination
  by (relation "measure (\<lambda>(hs, sn_pos, sn_end). sn_end - sn_pos)") auto

function sni_extensions :: "bytes \<Rightarrow> nat \<Rightarrow> nat \<Rightarrow> bool \<Rightarrow> bytes option \<Rightarrow> bytes option option" where
  "sni_extensions hs ext_end pos saw_sni_extension extracted_sni =
     (if pos + 4 \<le> ext_end then do {
        etype \<leftarrow> be16_at hs pos;
        elen \<leftarrow> be16_at hs (pos + 2);
        if pos + 4 + elen > ext_end then Some extracted_sni
        else if etype = 0 \<and> saw_sni_extension then Some None
        else do {
          found \<leftarrow> (if etype = 0 \<and> elen \<ge> 5 then do {
             list_len \<leftarrow> be16_at hs (pos + 4);
             sni_names hs (pos + 6) (min (pos + 6 + list_len) (pos + 4 + elen))
           } else Some None);
          sni_extensions hs ext_end (pos + 4 + elen) (saw_sni_extension \<or> etype = 0)
            (case found of Some host \<Rightarrow> Some host | None \<Rightarrow> extracted_sni)
        }
      }
      else Some extracted_sni)"
  by pat_completeness auto
termination
  by (relation "measure (\<lambda>(hs, ext_end, pos, saw, ex). ext_end - pos)") auto

declare sni_names.simps [simp del] sni_extensions.simps [simp del]

definition extract_sni_from_client_hello :: "bytes \<Rightarrow> string option option" where
  "extract_sni_from_client_hello hs =
     (if length hs < 43 then Some None else do {
      record_type \<leftarrow> index hs 0;
      if record_type \<noteq> TLS_RECORD_HANDSHAKE then Some None else do {
      record_len \<leftarrow> be16_at hs 3;
      if length hs < 5 + record_len then Some None
      else if get_byte hs 5 \<noteq> Some 0x01 then Some None
      else if 5 + 4 + 34 + 1 > length hs then Some None
      else case get_byte hs 43 of None \<Rightarrow> Some None | Some session_id_len \<Rightarrow>
      let pos = 43 + 1 + unat session_id_len in
      if pos + 2 > length hs then Some None else do {
      cipher_suites_len \<leftarrow> be16_at hs pos;
      let pos = pos + 2 + cipher_suites_len;
      if pos + 1 > length hs then Some None
      else case get_byte hs pos of None \<Rightarrow> Some None | Some comp_len \<Rightarrow>
      let pos = pos + 1 + unat comp_len in
      if pos + 2 > length hs then Some None else do {
      ext_len \<leftarrow> be16_at hs pos;
      let pos = pos + 2;
      let ext_end = pos + ext_len;
      if ext_end > length hs then Some None
      else map_option (map_option to_text) (sni_extensions hs ext_end pos False None)
      }}}})"

subsection \<open>Protocols of the application layer\<close>

function alpn_list :: "bytes \<Rightarrow> nat \<Rightarrow> nat \<Rightarrow> bytes list option" where
  "alpn_list hs lp list_end =
     (if lp < list_end then do {
        plen \<leftarrow> index hs lp;
        if lp + 1 + unat plen > list_end then Some []
        else do {
          p \<leftarrow> subslice hs (lp + 1) (lp + 1 + unat plen);
          rest \<leftarrow> alpn_list hs (lp + 1 + unat plen) list_end;
          Some (p # rest)
        }
      }
      else Some [])"
  by pat_completeness auto
termination
  by (relation "measure (\<lambda>(hs, lp, list_end). list_end - lp)") auto

function alpn_extensions :: "bytes \<Rightarrow> nat \<Rightarrow> nat \<Rightarrow> bytes list option" where
  "alpn_extensions hs ext_end pos =
     (if pos + 4 \<le> ext_end then do {
        etype \<leftarrow> be16_at hs pos;
        elen \<leftarrow> be16_at hs (pos + 2);
        if pos + 4 + elen > ext_end then Some []
        else if etype = 0x0010 \<and> elen \<ge> 3 then do {
          list_len \<leftarrow> be16_at hs (pos + 4);
          alpn_list hs (pos + 6) (min (sat_add U64_MAX (pos + 6) list_len) (pos + 4 + elen))
        }
        else alpn_extensions hs ext_end (pos + 4 + elen)
      }
      else Some [])"
  by pat_completeness auto
termination
  by (relation "measure (\<lambda>(hs, ext_end, pos). ext_end - pos)") auto

declare alpn_list.simps [simp del] alpn_extensions.simps [simp del]

text \<open>\<open>unwrap_or(&0)\<close> of a byte.\<close>

definition byte_or_zero :: "bytes \<Rightarrow> nat \<Rightarrow> nat" where
  "byte_or_zero hs i = (case get_byte hs i of None \<Rightarrow> 0 | Some b \<Rightarrow> unat b)"

definition extract_alpn_from_client_hello :: "bytes \<Rightarrow> bytes list option" where
  "extract_alpn_from_client_hello hs =
     (if length hs < 5 then Some [] else do {
      record_type \<leftarrow> index hs 0;
      if record_type \<noteq> TLS_RECORD_HANDSHAKE then Some [] else do {
      record_len \<leftarrow> be16_at hs 3;
      if length hs < 5 + record_len then Some []
      else if get_byte hs 5 \<noteq> Some 0x01 then Some []
      else if 43 \<ge> length hs then Some []
      else let pos = 43 + 1 + byte_or_zero hs 43 in
      if pos + 2 > length hs then Some [] else do {
      cipher_len \<leftarrow> be16_at hs pos;
      let pos = pos + 2 + cipher_len;
      if pos \<ge> length hs then Some []
      else let pos = pos + 1 + byte_or_zero hs pos in
      if pos + 2 > length hs then Some [] else do {
      ext_len \<leftarrow> be16_at hs pos;
      let pos = pos + 2;
      let ext_end = pos + ext_len;
      if ext_end > length hs then Some []
      else alpn_extensions hs ext_end pos
      }}}})"

subsection \<open>Versions\<close>

datatype client_hello_tls_version = Tls12 | Tls13

function version_list :: "bytes \<Rightarrow> nat \<Rightarrow> nat \<Rightarrow> bool \<Rightarrow> client_hello_tls_version option option" where
  "version_list hs ver_pos ver_end has_tls12 =
     (if ver_pos + 1 < ver_end then do {
        version \<leftarrow> be16_at hs ver_pos;
        if version = 0x0304 then Some (Some Tls13)
        else version_list hs (ver_pos + 2) ver_end
               (has_tls12 \<or> version = 0x0303 \<or> version = 0x0302 \<or> version = 0x0301)
      }
      else Some (if has_tls12 then Some Tls12 else None))"
  by pat_completeness auto
termination
  by (relation "measure (\<lambda>(hs, ver_pos, ver_end, b). ver_end - ver_pos)") auto

function version_extensions :: "bytes \<Rightarrow> nat \<Rightarrow> nat \<Rightarrow> nat \<Rightarrow> client_hello_tls_version option option" where
  "version_extensions hs legacy_version ext_end pos =
     (if pos + 4 \<le> ext_end then do {
        etype \<leftarrow> be16_at hs pos;
        elen \<leftarrow> be16_at hs (pos + 2);
        if pos + 4 + elen > ext_end then Some None
        else if etype = 0x002b then
          (if elen < 1 then Some None else do {
           list_len \<leftarrow> index hs (pos + 4);
           if unat list_len = 0 \<or> unat list_len mod 2 \<noteq> 0 \<or> 1 + unat list_len > elen then Some None
           else version_list hs (pos + 5) (pos + 5 + unat list_len) False
          })
        else version_extensions hs legacy_version ext_end (pos + 4 + elen)
      }
      else Some (if legacy_version \<ge> 0x0303 then Some Tls12 else None))"
  by pat_completeness auto
termination
  by (relation "measure (\<lambda>(hs, lv, ext_end, pos). ext_end - pos)") auto

declare version_list.simps [simp del] version_extensions.simps [simp del]

definition be24_at :: "bytes \<Rightarrow> nat \<Rightarrow> nat option" where
  "be24_at hs i = do { a \<leftarrow> index hs i; b \<leftarrow> index hs (i + 1); c \<leftarrow> index hs (i + 2); Some (from_be [a, b, c]) }"

definition detect_client_hello_tls_version :: "bytes \<Rightarrow> client_hello_tls_version option option" where
  "detect_client_hello_tls_version hs =
     (if length hs < 5 then Some None else do {
      record_type \<leftarrow> index hs 0;
      if record_type \<noteq> TLS_RECORD_HANDSHAKE then Some None else do {
      record_len \<leftarrow> be16_at hs 3;
      if length hs < 5 + record_len then Some None
      else if get_byte hs 5 \<noteq> Some 0x01 then Some None
      else if 6 + 3 > length hs then Some None else do {
      handshake_len \<leftarrow> be24_at hs 6;
      if 9 + handshake_len > 5 + record_len then Some None
      else if 9 + 2 + 32 > length hs then Some None else do {
      legacy_version \<leftarrow> be16_at hs 9;
      case get_byte hs 43 of None \<Rightarrow> Some None | Some session_id_len \<Rightarrow>
      let pos = 43 + 1 + unat session_id_len in
      if pos + 2 > length hs then Some None else do {
      cipher_len \<leftarrow> be16_at hs pos;
      let pos = pos + 2 + cipher_len;
      if pos \<ge> length hs then Some None
      else case get_byte hs pos of None \<Rightarrow> Some None | Some comp_len \<Rightarrow>
      let pos = pos + 1 + unat comp_len in
      if pos + 2 > length hs then Some None else do {
      ext_len \<leftarrow> be16_at hs pos;
      let pos = pos + 2;
      let ext_end = pos + ext_len;
      if ext_end > length hs then Some None
      else version_extensions hs legacy_version ext_end pos
      }}}}}})"

subsection \<open>Cipher suites\<close>

definition client_hello_cipher_suites_range :: "bytes \<Rightarrow> (nat \<times> nat) option option" where
  "client_hello_cipher_suites_range hs =
     (if length hs < 5 then Some None else do {
      record_type \<leftarrow> index hs 0;
      if record_type \<noteq> TLS_RECORD_HANDSHAKE then Some None else do {
      record_len \<leftarrow> be16_at hs 3;
      let record_end = 5 + record_len;
      if record_end > length hs then Some None
      else if get_byte hs 5 \<noteq> Some 0x01 then Some None
      else if 6 + 3 > record_end then Some None else do {
      handshake_len \<leftarrow> be24_at hs 6;
      let handshake_end = 9 + handshake_len;
      if handshake_end > record_end then Some None
      else if 9 + 2 + 32 > handshake_end then Some None
      else case get_byte hs 43 of None \<Rightarrow> Some None | Some session_id_len \<Rightarrow>
      let pos = 43 + 1 + unat session_id_len in
      if pos + 2 > handshake_end then Some None else do {
      cipher_len \<leftarrow> be16_at hs pos;
      if cipher_len = 0 \<or> cipher_len mod 2 \<noteq> 0 then Some None
      else if pos + 2 + cipher_len > handshake_end then Some None
      else Some (Some (pos + 2, pos + 2 + cipher_len))
      }}}})"

function client_hello_offers_cipher_suite :: "bytes \<Rightarrow> nat \<Rightarrow> nat \<Rightarrow> bytes \<Rightarrow> bool option" where
  "client_hello_offers_cipher_suite hs pos range_end suite =
     (if pos + 1 < range_end then do {
        a \<leftarrow> index hs pos;
        b \<leftarrow> index hs (pos + 1);
        if [a, b] = suite then Some True
        else client_hello_offers_cipher_suite hs (pos + 2) range_end suite
      }
      else Some False)"
  by pat_completeness auto
termination
  by (relation "measure (\<lambda>(hs, pos, range_end, s). range_end - pos)") auto

declare client_hello_offers_cipher_suite.simps [simp del]

definition TLS_AES_128_GCM_SHA256 :: bytes where "TLS_AES_128_GCM_SHA256 = [0x13, 0x01]"
definition TLS_AES_256_GCM_SHA384 :: bytes where "TLS_AES_256_GCM_SHA384 = [0x13, 0x02]"
definition TLS_CHACHA20_POLY1305_SHA256 :: bytes where "TLS_CHACHA20_POLY1305_SHA256 = [0x13, 0x03]"

definition is_tls13_cipher_suite :: "bytes \<Rightarrow> bool" where
  "is_tls13_cipher_suite suite \<longleftrightarrow>
     suite = TLS_AES_128_GCM_SHA256 \<or> suite = TLS_AES_256_GCM_SHA384 \<or> suite = TLS_CHACHA20_POLY1305_SHA256"

fun first_offered :: "bytes \<Rightarrow> nat \<times> nat \<Rightarrow> bytes list \<Rightarrow> bytes \<Rightarrow> bytes option" where
  "first_offered hs r [] fallback = Some fallback"
| "first_offered hs r (suite # suites) fallback = do {
     offered \<leftarrow> client_hello_offers_cipher_suite hs (fst r) (snd r) suite;
     if offered then Some suite else first_offered hs r suites fallback
   }"

definition select_server_hello_cipher_suite :: "bytes \<Rightarrow> bytes \<Rightarrow> bytes option" where
  "select_server_hello_cipher_suite hs wanted =
     (let preferred = (if is_tls13_cipher_suite wanted then wanted else TLS_AES_128_GCM_SHA256) in do {
      suites \<leftarrow> client_hello_cipher_suites_range hs;
      case suites of
        None \<Rightarrow> Some preferred
      | Some r \<Rightarrow> first_offered hs r
          [preferred, TLS_AES_128_GCM_SHA256, TLS_CHACHA20_POLY1305_SHA256, TLS_AES_256_GCM_SHA384] preferred
      })"

definition is_tls_handshake :: "bytes \<Rightarrow> bool" where
  "is_tls_handshake bs \<longleftrightarrow> \<not> length bs < 3 \<and> bs ! 0 = TLS_RECORD_HANDSHAKE \<and> bs ! 1 = 0x03 \<and> (bs ! 2 = 0x01 \<or> bs ! 2 = 0x03)"

definition parse_tls_record_header :: "bytes \<Rightarrow> (u8 \<times> nat) option" where
  "parse_tls_record_header h =
     (let version = [h ! 1, h ! 2]
      in if version \<noteq> [0x03, 0x01] \<and> version \<noteq> TLS_VERSION then None
         else Some (h ! 0, u16_from_be_bytes (h ! 3) (h ! 4)))"

subsection \<open>No bytes make a reader panic\<close>

text \<open>\<open>returns Q r\<close>: the computation \<open>r\<close> does not panic and its value satisfies \<open>Q\<close>.\<close>

definition returns :: "('a \<Rightarrow> bool) \<Rightarrow> 'a option \<Rightarrow> bool" where
  "returns Q r = (case r of None \<Rightarrow> False | Some x \<Rightarrow> Q x)"

named_theorems no_panic \<open>rules for computations that do not panic\<close>

lemma returns_Some [no_panic]: "Q x \<Longrightarrow> returns Q (Some x)"
  by (simp add: returns_def)

lemma returns_index [no_panic]:
  "i < length xs \<Longrightarrow> (\<And>x. index xs i = Some x \<Longrightarrow> returns Q (f x)) \<Longrightarrow> returns Q (index xs i \<bind> f)"
  by (simp add: index_def)

lemma returns_be16 [no_panic]:
  "i + 2 \<le> length bs \<Longrightarrow> (\<And>n. be16_at bs i = Some n \<Longrightarrow> n \<le> U16_MAX \<Longrightarrow> returns Q (f n)) \<Longrightarrow> returns Q (be16_at bs i \<bind> f)"
  by (simp add: be16_at_def index_def)

lemma returns_be24 [no_panic]:
  "i + 3 \<le> length bs \<Longrightarrow> (\<And>n. be24_at bs i = Some n \<Longrightarrow> returns Q (f n)) \<Longrightarrow> returns Q (be24_at bs i \<bind> f)"
  by (simp add: be24_at_def index_def)

lemma returns_subslice [no_panic]:
  "i \<le> j \<Longrightarrow> j \<le> length xs \<Longrightarrow> (\<And>ys. subslice xs i j = Some ys \<Longrightarrow> returns Q (f ys)) \<Longrightarrow> returns Q (subslice xs i j \<bind> f)"
  by (simp add: subslice_def)

lemma returns_if [no_panic]: "(c \<Longrightarrow> returns Q x) \<Longrightarrow> (\<not> c \<Longrightarrow> returns Q y) \<Longrightarrow> returns Q (if c then x else y)"
  by simp

lemma returns_Let [no_panic]: "(\<And>x. x = e \<Longrightarrow> returns Q (f x)) \<Longrightarrow> returns Q (Let e f)"
  by simp

lemma returns_case_option [no_panic]:
  "(r = None \<Longrightarrow> returns Q x) \<Longrightarrow> (\<And>y. r = Some y \<Longrightarrow> returns Q (f y)) \<Longrightarrow> returns Q (case r of None \<Rightarrow> x | Some y \<Rightarrow> f y)"
  by (cases r) auto

lemma returns_bind: "returns P r \<Longrightarrow> (\<And>x. r = Some x \<Longrightarrow> P x \<Longrightarrow> returns Q (f x)) \<Longrightarrow> returns Q (r \<bind> f)"
  by (cases r) (simp_all add: returns_def)

lemma returns_map_option: "returns (\<lambda>x. Q (f x)) r \<Longrightarrow> returns Q (map_option f r)"
  by (cases r) (simp_all add: returns_def)

lemma returns_not_panic: "returns Q r \<Longrightarrow> r \<noteq> None"
  by (cases r) (simp_all add: returns_def)

definition host_or_none :: "bytes option \<Rightarrow> bool" where
  "host_or_none r = (case r of None \<Rightarrow> True | Some host \<Rightarrow> is_valid_sni_hostname host)"

lemma host_or_none_simps [simp]: "host_or_none None" "host_or_none (Some host) = is_valid_sni_hostname host"
  by (simp_all add: host_or_none_def)

lemma sni_names_safe: "sn_end \<le> length hs \<Longrightarrow> returns host_or_none (sni_names hs sn_pos sn_end)"
proof (induction hs sn_pos sn_end rule: sni_names.induct)
  case (1 hs sn_pos sn_end)
  show ?case
    by (subst sni_names.simps, intro no_panic) (use 1 in auto)
qed

lemma sni_extensions_safe:
  "ext_end \<le> length hs \<Longrightarrow> host_or_none ex \<Longrightarrow> returns host_or_none (sni_extensions hs ext_end pos saw ex)"
proof (induction hs ext_end pos saw ex rule: sni_extensions.induct)
  case (1 hs ext_end pos saw ex)
  show ?case
  proof (subst sni_extensions.simps, intro no_panic returns_bind [where P = host_or_none])
    fix etype elen found
    assume *: "pos + 4 \<le> ext_end" "be16_at hs pos = Some etype" "be16_at hs (pos + 2) = Some elen" "\<not> ext_end < pos + 4 + elen"
      "\<not> (etype = 0 \<and> saw)" and f: "host_or_none found"
      "(if etype = 0 \<and> elen \<ge> 5 then do {
             list_len \<leftarrow> be16_at hs (pos + 4);
             sni_names hs (pos + 6) (min (pos + 6 + list_len) (pos + 4 + elen)) } else Some None) = Some found"
    have "host_or_none (case found of Some host \<Rightarrow> Some host | None \<Rightarrow> ex)"
      using f(1) "1.prems"(2) by (cases found) simp_all
    from "1.IH" [OF * f(2) "1.prems"(1) this]
    show "returns host_or_none (sni_extensions hs ext_end (pos + 4 + elen) (saw \<or> etype = 0)
      (case found of Some host \<Rightarrow> Some host | None \<Rightarrow> ex))" .
  qed (use "1.prems" in \<open>auto intro!: sni_names_safe\<close>)
qed

lemma alpn_list_safe: "list_end \<le> length hs \<Longrightarrow> returns (\<lambda>_. True) (alpn_list hs lp list_end)"
proof (induction hs lp list_end rule: alpn_list.induct)
  case (1 hs lp list_end)
  show ?case
    by (subst alpn_list.simps, intro no_panic returns_bind [where P = "\<lambda>_. True"]) (use 1 in auto)
qed

lemma alpn_extensions_safe: "ext_end \<le> length hs \<Longrightarrow> returns (\<lambda>_. True) (alpn_extensions hs ext_end pos)"
proof (induction hs ext_end pos rule: alpn_extensions.induct)
  case (1 hs ext_end pos)
  show ?case
    by (subst alpn_extensions.simps, intro no_panic alpn_list_safe) (use 1 in auto)
qed

lemma version_list_safe: "ver_end \<le> length hs \<Longrightarrow> returns (\<lambda>_. True) (version_list hs ver_pos ver_end b)"
proof (induction hs ver_pos ver_end b rule: version_list.induct)
  case (1 hs ver_pos ver_end b)
  show ?case
    by (subst version_list.simps, intro no_panic) (use 1 in auto)
qed

lemma version_extensions_safe: "ext_end \<le> length hs \<Longrightarrow> returns (\<lambda>_. True) (version_extensions hs lv ext_end pos)"
proof (induction hs lv ext_end pos rule: version_extensions.induct)
  case (1 hs lv ext_end pos)
  show ?case
    by (subst version_extensions.simps, intro no_panic version_list_safe) (use 1 in auto)
qed

lemma offers_safe:
  "range_end \<le> length hs \<Longrightarrow> returns (\<lambda>_. True) (client_hello_offers_cipher_suite hs pos range_end suite)"
proof (induction hs pos range_end suite rule: client_hello_offers_cipher_suite.induct)
  case (1 hs pos range_end suite)
  show ?case
    by (subst client_hello_offers_cipher_suite.simps, intro no_panic) (use 1 in auto)
qed

lemma as_bytes_to_text [simp]: "as_bytes (to_text bs) = bs"
proof -
  have "of_char (char_of (unat b) :: char) = b" for b :: u8
  proof -
    have "of_char (char_of (unat b) :: char) = (of_nat (of_char (char_of (unat b) :: char)) :: u8)"
      by (simp only: of_nat_of_char)
    also have "\<dots> = of_nat (unat b mod 256)" by simp
    also have "\<dots> = b" by simp
    finally show ?thesis .
  qed
  then show ?thesis by (simp add: as_bytes_def to_text_def comp_def)
qed

definition sni_ok :: "string option \<Rightarrow> bool" where
  "sni_ok r = (case r of None \<Rightarrow> True | Some name \<Rightarrow> is_valid_sni_hostname (as_bytes name))"

lemma extract_sni_safe: "returns sni_ok (extract_sni_from_client_hello hs)"
proof -
  have none: "sni_ok None" and host: "sni_ok (map_option to_text r) = host_or_none r" for r
    by (simp_all add: sni_ok_def split: option.split)
  show ?thesis unfolding extract_sni_from_client_hello_def
    by (intro no_panic returns_map_option none) (auto simp: host intro: sni_extensions_safe)
qed

lemma extract_alpn_safe: "returns (\<lambda>_. True) (extract_alpn_from_client_hello hs)"
  unfolding extract_alpn_from_client_hello_def by (intro no_panic alpn_extensions_safe) auto

lemma detect_version_safe: "returns (\<lambda>_. True) (detect_client_hello_tls_version hs)"
  unfolding detect_client_hello_tls_version_def by (intro no_panic version_extensions_safe) auto

definition range_ok :: "bytes \<Rightarrow> (nat \<times> nat) option \<Rightarrow> bool" where
  "range_ok hs r = (case r of None \<Rightarrow> True | Some (a, b) \<Rightarrow> a < b \<and> b \<le> length hs)"

lemma suites_range_safe: "returns (range_ok hs) (client_hello_cipher_suites_range hs)"
  unfolding client_hello_cipher_suites_range_def by (intro no_panic) (auto simp: range_ok_def)

lemma first_offered_safe:
  "snd r \<le> length hs \<Longrightarrow> list_all P suites \<Longrightarrow> P fallback \<Longrightarrow> returns P (first_offered hs r suites fallback)"
proof (induction suites)
  case (Cons s suites)
  from offers_safe [OF Cons.prems(1), of "fst r" s] Cons show ?case
    by (auto intro!: no_panic elim: returns_bind)
qed (simp add: returns_def)

lemma select_suite_safe: "returns is_tls13_cipher_suite (select_server_hello_cipher_suite hs wanted)"
proof -
  let ?p = "if is_tls13_cipher_suite wanted then wanted else TLS_AES_128_GCM_SHA256"
  have tls13: "is_tls13_cipher_suite ?p" "list_all is_tls13_cipher_suite
      [?p, TLS_AES_128_GCM_SHA256, TLS_CHACHA20_POLY1305_SHA256, TLS_AES_256_GCM_SHA384]"
    by (simp_all add: is_tls13_cipher_suite_def)
  have "returns is_tls13_cipher_suite (first_offered hs r
      [?p, TLS_AES_128_GCM_SHA256, TLS_CHACHA20_POLY1305_SHA256, TLS_AES_256_GCM_SHA384] ?p)"
    if "range_ok hs (Some r)" for r
    using that by (intro first_offered_safe tls13) (auto simp: range_ok_def)
  then show ?thesis unfolding select_server_hello_cipher_suite_def Let_def
    by (intro returns_bind [OF suites_range_safe] no_panic tls13(1)) simp
qed

subsection \<open>Reading what a client wrote\<close>

text \<open>A client hello as RFC 8446 lays it out, with the extensions that carry names, protocols and versions.\<close>

record client_hello =
  ch_version :: nat
  ch_random :: bytes
  ch_session_id :: bytes
  ch_suites :: "bytes list"
  ch_compression :: bytes
  ch_extensions :: "(nat \<times> bytes) list"

fun enc_ext :: "nat \<times> bytes \<Rightarrow> bytes" where
  "enc_ext (t, d) = u16_to_be_bytes t @ u16_to_be_bytes (length d) @ d"

definition enc_exts :: "(nat \<times> bytes) list \<Rightarrow> bytes" where
  "enc_exts es = concat (map enc_ext es)"

definition hello_body :: "client_hello \<Rightarrow> bytes" where
  "hello_body c = u16_to_be_bytes (ch_version c) @ ch_random c @ [word_of_nat (length (ch_session_id c))] @ ch_session_id c @
     u16_to_be_bytes (length (concat (ch_suites c))) @ concat (ch_suites c) @
     [word_of_nat (length (ch_compression c))] @ ch_compression c @
     u16_to_be_bytes (length (enc_exts (ch_extensions c))) @ enc_exts (ch_extensions c)"

definition encode_client_hello :: "client_hello \<Rightarrow> bytes" where
  "encode_client_hello c = [0x16, 0x03, 0x01] @ u16_to_be_bytes (4 + length (hello_body c)) @ [0x01] @
     be_bytes 3 (length (hello_body c)) @ hello_body c"

definition hello_ok :: "client_hello \<Rightarrow> bool" where
  "hello_ok c \<longleftrightarrow> ch_version c \<le> U16_MAX \<and> length (ch_random c) = 32 \<and> length (ch_session_id c) \<le> 32 \<and>
     ch_suites c \<noteq> [] \<and> list_all (\<lambda>s. length s = 2) (ch_suites c) \<and> length (ch_compression c) \<le> U8_MAX \<and>
     list_all (\<lambda>(t, d). t \<le> U16_MAX) (ch_extensions c) \<and> 4 + length (hello_body c) \<le> U16_MAX"

definition sni_ext :: "bytes \<Rightarrow> bytes" where
  "sni_ext host = u16_to_be_bytes (3 + length host) @ [0] @ u16_to_be_bytes (length host) @ host"

definition enc_protocols :: "bytes list \<Rightarrow> bytes" where
  "enc_protocols ps = concat (map (\<lambda>p. word_of_nat (length p) # p) ps)"

definition alpn_ext :: "bytes list \<Rightarrow> bytes" where
  "alpn_ext ps = u16_to_be_bytes (length (enc_protocols ps)) @ enc_protocols ps"

definition enc_versions :: "nat list \<Rightarrow> bytes" where
  "enc_versions vs = concat (map u16_to_be_bytes vs)"

definition versions_ext :: "nat list \<Rightarrow> bytes" where
  "versions_ext vs = word_of_nat (length (enc_versions vs)) # enc_versions vs"

definition only_ext :: "nat \<Rightarrow> bytes \<Rightarrow> client_hello \<Rightarrow> bool" where
  "only_ext t d c \<longleftrightarrow> filter (\<lambda>e. fst e = t) (ch_extensions c) = [(t, d)]"

text \<open>Reading at a position that follows a known prefix.\<close>

lemma be16_at_append [simp]:
  assumes "length a = i" and "n \<le> U16_MAX"
  shows "be16_at (a @ u16_to_be_bytes n @ r) i = Some n"
  using assms by (auto simp: be16_at_def u16_to_be_bytes_def nth_append index_def u16_be_roundtrip)

lemma be24_at_append:
  assumes "length a = i" and "n < 256 ^ 3"
  shows "be24_at (a @ be_bytes 3 n @ r) i = Some n"
proof -
  obtain x y z where xyz: "be_bytes 3 n = [x, y, z]"
    using length_be_bytes [of 3 n] by (auto simp: length_Suc_conv eval_nat_numeral simp del: length_be_bytes)
  moreover have "from_be (be_bytes 3 n) = n" using assms(2) by (rule from_be_bytes)
  ultimately show ?thesis using assms(1) by (auto simp: be24_at_def index_def nth_append)
qed

lemma get_byte_append: "length a = i \<Longrightarrow> get_byte (a @ [b] @ r) i = Some b"
  by (auto simp: get_byte_def nth_append)

lemma length_concat_pairs: "list_all (\<lambda>s. length s = 2) ss \<Longrightarrow> length (concat ss) = 2 * length ss"
  by (induction ss) auto

lemma unat_small [simp]: "n \<le> U8_MAX \<Longrightarrow> unat (word_of_nat n :: u8) = n"
  by simp

definition suites_at :: "client_hello \<Rightarrow> nat" where
  "suites_at c = 46 + length (ch_session_id c)"

definition comp_at :: "client_hello \<Rightarrow> nat" where
  "comp_at c = suites_at c + length (concat (ch_suites c))"

definition exts_at :: "client_hello \<Rightarrow> nat" where
  "exts_at c = comp_at c + 3 + length (ch_compression c)"

lemma body_lengths:
  assumes "hello_ok c"
  shows "9 + length (hello_body c) = exts_at c + length (enc_exts (ch_extensions c))"
    and "length (encode_client_hello c) = exts_at c + length (enc_exts (ch_extensions c))"
    and "length (concat (ch_suites c)) \<le> U16_MAX" "length (enc_exts (ch_extensions c)) \<le> U16_MAX"
  using assms by (auto simp: hello_ok_def hello_body_def encode_client_hello_def exts_at_def comp_at_def suites_at_def)

lemma hello_positions:
  assumes ok: "hello_ok c"
  defines "hs \<equiv> encode_client_hello c"
  shows "be16_at hs 3 = Some (4 + length (hello_body c))" and "get_byte hs 5 = Some 0x01" and "index hs 0 = Some 0x16"
    and "be24_at hs 6 = Some (length (hello_body c))" and "be16_at hs 9 = Some (ch_version c)"
    and "get_byte hs 43 = Some (word_of_nat (length (ch_session_id c)))"
    and "be16_at hs (44 + length (ch_session_id c)) = Some (length (concat (ch_suites c)))"
    and "get_byte hs (comp_at c) = Some (word_of_nat (length (ch_compression c)))"
    and "be16_at hs (comp_at c + 1 + length (ch_compression c)) = Some (length (enc_exts (ch_extensions c)))"
proof -
  let ?b = "hello_body c"
  let ?h1 = "[0x16, 0x03, 0x01] @ u16_to_be_bytes (4 + length ?b)"
  let ?h2 = "?h1 @ [0x01] @ be_bytes 3 (length ?b)"
  let ?h3 = "?h2 @ u16_to_be_bytes (ch_version c) @ ch_random c"
  let ?h4 = "?h3 @ [word_of_nat (length (ch_session_id c))] @ ch_session_id c"
  let ?h5 = "?h4 @ u16_to_be_bytes (length (concat (ch_suites c))) @ concat (ch_suites c)"
  let ?h6 = "?h5 @ [word_of_nat (length (ch_compression c))] @ ch_compression c"
  have l: "length ?h1 = 5" "length ?h2 = 9" "length ?h3 = 43" "length ?h4 = 44 + length (ch_session_id c)"
    "length ?h5 = comp_at c" "length ?h6 = comp_at c + 1 + length (ch_compression c)"
    using ok by (simp_all add: hello_ok_def comp_at_def suites_at_def)
  note small = ok [unfolded hello_ok_def] body_lengths(3,4) [OF ok]
  show "be16_at hs 3 = Some (4 + length ?b)"
    using be16_at_append [of "[0x16, 0x03, 0x01]" 3 "4 + length ?b"] small by (simp add: hs_def encode_client_hello_def)
  show "get_byte hs 5 = Some 0x01"
    using get_byte_append [OF l(1)] by (simp add: hs_def encode_client_hello_def)
  show "index hs 0 = Some 0x16" by (simp add: hs_def encode_client_hello_def index_def)
  show "be24_at hs 6 = Some (length ?b)"
    using be24_at_append [of "?h1 @ [0x01]" 6 "length ?b"] l(1) small by (simp add: hs_def encode_client_hello_def)
  show "be16_at hs 9 = Some (ch_version c)"
    using be16_at_append [OF l(2), of "ch_version c"] small by (simp add: hs_def encode_client_hello_def hello_body_def)
  show "get_byte hs 43 = Some (word_of_nat (length (ch_session_id c)))"
    using get_byte_append [OF l(3)] by (simp add: hs_def encode_client_hello_def hello_body_def)
  show "be16_at hs (44 + length (ch_session_id c)) = Some (length (concat (ch_suites c)))"
    using be16_at_append [OF l(4) small(2)] by (simp add: hs_def encode_client_hello_def hello_body_def)
  show "get_byte hs (comp_at c) = Some (word_of_nat (length (ch_compression c)))"
    using get_byte_append [OF l(5)] by (simp add: hs_def encode_client_hello_def hello_body_def)
  show "be16_at hs (comp_at c + 1 + length (ch_compression c)) = Some (length (enc_exts (ch_extensions c)))"
    using be16_at_append [OF l(6) small(3)] by (simp add: hs_def encode_client_hello_def hello_body_def)
qed

text \<open>What each reader does once it has found the extensions.\<close>

lemma readers_at_extensions:
  assumes ok: "hello_ok c"
  defines "hs \<equiv> encode_client_hello c"
  shows "extract_sni_from_client_hello hs =
      map_option (map_option to_text) (sni_extensions hs (length hs) (exts_at c) False None)"
    and "extract_alpn_from_client_hello hs = alpn_extensions hs (length hs) (exts_at c)"
    and "detect_client_hello_tls_version hs = version_extensions hs (ch_version c) (length hs) (exts_at c)"
    and "client_hello_cipher_suites_range hs = Some (Some (suites_at c, comp_at c))"
proof -
  note pos = hello_positions [OF ok, folded hs_def]
  note len = body_lengths [OF ok, folded hs_def]
  have at: "44 + length (ch_session_id c) + 2 + length (concat (ch_suites c)) = comp_at c"
    "comp_at c + 1 + length (ch_compression c) + 2 = exts_at c" "46 \<le> comp_at c" "3 + comp_at c \<le> exts_at c"
    "exts_at c \<le> length hs" "suites_at c = 44 + length (ch_session_id c) + 2"
    using len by (simp_all add: comp_at_def exts_at_def suites_at_def)
  have b: "byte_or_zero hs 43 = length (ch_session_id c)" "byte_or_zero hs (comp_at c) = length (ch_compression c)"
    using ok pos by (simp_all add: byte_or_zero_def hello_ok_def del: unat_u8_of_nat)
  have s: "unat (word_of_nat (length (ch_session_id c)) :: u8) = length (ch_session_id c)"
    "unat (word_of_nat (length (ch_compression c)) :: u8) = length (ch_compression c)"
    using ok by (simp_all add: hello_ok_def del: unat_u8_of_nat)
  have n: "\<not> length hs < 43" "\<not> length hs < 5" "\<not> 43 \<ge> length hs" "\<not> length hs < 5 + (4 + length (hello_body c))"
    "\<not> 5 + 4 + 34 + 1 > length hs" "\<not> 44 + length (ch_session_id c) + 2 > length hs" "\<not> comp_at c + 1 > length hs"
    "\<not> comp_at c \<ge> length hs" "\<not> comp_at c + 1 + length (ch_compression c) + 2 > length hs"
    using at len by linarith+
  have n': "\<not> 5 + (4 + length (hello_body c)) > length hs" "\<not> 6 + 3 > 5 + (4 + length (hello_body c))"
    "\<not> 9 + length (hello_body c) > 5 + (4 + length (hello_body c))" "\<not> 9 + 2 + 32 > 9 + length (hello_body c)"
    "\<not> 44 + length (ch_session_id c) + 2 > 9 + length (hello_body c)"
    "\<not> comp_at c > 9 + length (hello_body c)" "\<not> 6 + 3 > length hs" "\<not> 9 + 2 + 32 > length hs" "\<not> length hs > length hs" "\<not> exts_at c > length hs"
    using at len by linarith+
  have k: "(43 :: nat) + 1 = 44" by simp
  have suites: "(length (concat (ch_suites c)) = 0) = False" "length (concat (ch_suites c)) mod 2 = 0"
    using ok by (simp_all only: hello_ok_def length_concat_pairs) auto
  note steps = Option.bind.simps if_False if_True option.case simp_thms
  have e: "exts_at c + length (enc_exts (ch_extensions c)) = length hs" using len(2) by simp
  show "extract_sni_from_client_hello hs =
      map_option (map_option to_text) (sni_extensions hs (length hs) (exts_at c) False None)"
    by (simp only: extract_sni_from_client_hello_def Let_def n n' k pos s at(1,2) e steps)
  show "extract_alpn_from_client_hello hs = alpn_extensions hs (length hs) (exts_at c)"
    by (simp only: extract_alpn_from_client_hello_def Let_def n n' k pos b at(1,2) e steps)
  show "detect_client_hello_tls_version hs = version_extensions hs (ch_version c) (length hs) (exts_at c)"
    by (simp only: detect_client_hello_tls_version_def Let_def n n' k pos s at(1,2) e steps)
  show "client_hello_cipher_suites_range hs = Some (Some (suites_at c, comp_at c))"
    by (simp only: client_hello_cipher_suites_range_def Let_def n n' k pos s at(1,2,6) e suites steps)
qed

text \<open>The extensions, one at a time.\<close>

lemma ext_at:
  assumes "hs = a @ enc_ext (t, d) @ r" and "t \<le> U16_MAX" "length d \<le> U16_MAX"
  shows "be16_at hs (length a) = Some t" and "be16_at hs (length a + 2) = Some (length d)"
  using assms be16_at_append [of "a @ u16_to_be_bytes t" "length a + 2" "length d"] by simp_all

lemma enc_exts_simps [simp]: "enc_exts [] = []" "enc_exts (e # es) = enc_ext e @ enc_exts es" "enc_exts (es @ fs) = enc_exts es @ enc_exts fs"
  by (simp_all add: enc_exts_def)

lemma length_enc_ext [simp]: "length (enc_ext e) = 4 + length (snd e)"
  by (cases e) simp

lemma ext_data_short: "length (enc_exts es) \<le> m \<Longrightarrow> (t, d) \<in> set es \<Longrightarrow> length d \<le> m"
  by (induction es) auto

lemma skip_exts:
  assumes step: "\<And>pos t n. P t \<Longrightarrow> be16_at hs pos = Some t \<Longrightarrow> be16_at hs (pos + 2) = Some n \<Longrightarrow> pos + 4 + n \<le> ext_end \<Longrightarrow>
      f pos = f (pos + 4 + n)"
    and "list_all (\<lambda>(t, d). P t \<and> t \<le> U16_MAX) es" and "length (enc_exts es) \<le> U16_MAX"
    and "hs = a @ enc_exts es @ r" and "length a + length (enc_exts es) \<le> ext_end"
  shows "f (length a) = f (length a + length (enc_exts es))"
  using assms(2-)
proof (induction es arbitrary: a)
  case (Cons e es)
  obtain t d where e: "e = (t, d)" by fastforce
  have at: "be16_at hs (length a) = Some t" "be16_at hs (length a + 2) = Some (length d)"
    using ext_at [of hs a t d "enc_exts es @ r"] Cons.prems e by simp_all
  have "f (length a) = f (length a + 4 + length d)" using Cons.prems e by (intro step [OF _ at]) simp_all
  also have "\<dots> = f (length (a @ enc_ext e))" by (rule arg_cong [of _ _ f]) (simp add: e)
  also have "\<dots> = f (length (a @ enc_ext e) + length (enc_exts es))" using Cons.prems by (intro Cons.IH) simp_all
  also have "\<dots> = f (length a + length (enc_exts (e # es)))" by (rule arg_cong [of _ _ f]) simp
  finally show ?case .
qed simp

lemma sni_step:
  "t \<noteq> 0 \<Longrightarrow> be16_at hs pos = Some t \<Longrightarrow> be16_at hs (pos + 2) = Some n \<Longrightarrow> pos + 4 + n \<le> ext_end \<Longrightarrow>
   sni_extensions hs ext_end pos saw ex = sni_extensions hs ext_end (pos + 4 + n) saw ex"
  by (subst sni_extensions.simps) simp

lemma alpn_step:
  "t \<noteq> 0x0010 \<Longrightarrow> be16_at hs pos = Some t \<Longrightarrow> be16_at hs (pos + 2) = Some n \<Longrightarrow> pos + 4 + n \<le> ext_end \<Longrightarrow>
   alpn_extensions hs ext_end pos = alpn_extensions hs ext_end (pos + 4 + n)"
  by (subst alpn_extensions.simps) simp

lemma version_step:
  "t \<noteq> 0x002b \<Longrightarrow> be16_at hs pos = Some t \<Longrightarrow> be16_at hs (pos + 2) = Some n \<Longrightarrow> pos + 4 + n \<le> ext_end \<Longrightarrow>
   version_extensions hs lv ext_end pos = version_extensions hs lv ext_end (pos + 4 + n)"
  by (subst version_extensions.simps) simp

lemma sni_skip:
  assumes "list_all (\<lambda>(t, _). t \<noteq> 0 \<and> t \<le> U16_MAX) es" and "length (enc_exts es) \<le> U16_MAX"
    and "hs = a @ enc_exts es @ r" and "length a + length (enc_exts es) \<le> ext_end"
  shows "sni_extensions hs ext_end (length a) saw ex = sni_extensions hs ext_end (length a + length (enc_exts es)) saw ex"
  by (rule skip_exts [where f = "\<lambda>p. sni_extensions hs ext_end p saw ex" and P = "\<lambda>t. t \<noteq> 0", OF _ assms]) (rule sni_step)

lemma alpn_skip:
  assumes "list_all (\<lambda>(t, _). t \<noteq> 0x0010 \<and> t \<le> U16_MAX) es" and "length (enc_exts es) \<le> U16_MAX"
    and "hs = a @ enc_exts es @ r" and "length a + length (enc_exts es) \<le> ext_end"
  shows "alpn_extensions hs ext_end (length a) = alpn_extensions hs ext_end (length a + length (enc_exts es))"
  by (rule skip_exts [where f = "\<lambda>p. alpn_extensions hs ext_end p" and P = "\<lambda>t. t \<noteq> 0x0010", OF _ assms]) (rule alpn_step)

lemma version_skip:
  assumes "list_all (\<lambda>(t, _). t \<noteq> 0x002b \<and> t \<le> U16_MAX) es" and "length (enc_exts es) \<le> U16_MAX"
    and "hs = a @ enc_exts es @ r" and "length a + length (enc_exts es) \<le> ext_end"
  shows "version_extensions hs lv ext_end (length a) = version_extensions hs lv ext_end (length a + length (enc_exts es))"
  by (rule skip_exts [where f = "\<lambda>p. version_extensions hs lv ext_end p" and P = "\<lambda>t. t \<noteq> 0x002b", OF _ assms]) (rule version_step)

text \<open>The extension a reader looks for.\<close>

lemma sni_names_found:
  assumes "hs = a @ [0] @ u16_to_be_bytes (length host) @ host @ r" and "length host \<le> U16_MAX" and "host \<noteq> []"
    and "utf8_decode host \<noteq> None" "is_valid_sni_hostname host"
  shows "sni_names hs (length a) (length a + 3 + length host) = Some (Some host)"
proof -
  have r: "index hs (length a) = Some 0" "be16_at hs (length a + 1) = Some (length host)"
    "subslice hs (length a + 3) (length a + 3 + length host) = Some host"
    using assms(1,2) be16_at_append [of "a @ [0]" "length a + 1" "length host" "host @ r"]
      slice_append_exact [of "a @ [0] @ u16_to_be_bytes (length host)" "length a + 3" "length a + 3 + length host" host r]
    by (simp_all add: index_def subslice_def nth_append)
  show ?thesis using assms(3-) by (subst sni_names.simps) (simp only: r Option.bind.simps, simp)
qed

lemma enc_protocols_simps [simp]:
  "enc_protocols [] = []" "enc_protocols (p # ps) = word_of_nat (length p) # p @ enc_protocols ps"
  by (simp_all add: enc_protocols_def)

lemma alpn_list_read:
  assumes "hs = a @ enc_protocols ps @ r" and "list_all (\<lambda>p. length p \<le> U8_MAX) ps"
  shows "alpn_list hs (length a) (length a + length (enc_protocols ps)) = Some ps"
  using assms
proof (induction ps arbitrary: a)
  case Nil
  then show ?case by (simp add: alpn_list.simps)
next
  case (Cons p ps)
  let ?a = "a @ [word_of_nat (length p)] @ p"
  have r: "index hs (length a) = Some (word_of_nat (length p))"
    "subslice hs (length a + 1) (length a + 1 + length p) = Some p"
    using Cons.prems(1) slice_append_exact [of "a @ [word_of_nat (length p)]" "length a + 1" "length a + 1 + length p" p]
    by (simp_all add: index_def subslice_def nth_append)
  have u: "unat (word_of_nat (length p) :: u8) = length p" using Cons.prems(2) by (simp del: unat_u8_of_nat)
  have "alpn_list hs (length ?a) (length ?a + length (enc_protocols ps)) = Some ps"
    using Cons.prems by (intro Cons.IH) simp_all
  then have "alpn_list hs (length a + 1 + length p) (length a + length (enc_protocols (p # ps))) = Some ps"
    by (simp add: ac_simps)
  then show ?case
    by (subst alpn_list.simps) (simp only: r u Option.bind.simps, simp)
qed

lemma enc_versions_simps [simp]: "enc_versions [] = []" "enc_versions (v # vs) = u16_to_be_bytes v @ enc_versions vs"
  by (simp_all add: enc_versions_def)

lemma length_enc_versions [simp]: "length (enc_versions vs) = 2 * length vs"
  by (induction vs) simp_all

definition best_version :: "bool \<Rightarrow> nat list \<Rightarrow> client_hello_tls_version option" where
  "best_version has_tls12 vs =
     (if 0x0304 \<in> set vs then Some Tls13
      else if has_tls12 \<or> list_ex (\<lambda>v. v = 0x0303 \<or> v = 0x0302 \<or> v = 0x0301) vs then Some Tls12 else None)"

lemma version_list_read:
  assumes "hs = a @ enc_versions vs @ r" and "list_all (\<lambda>v. v \<le> U16_MAX) vs"
  shows "version_list hs (length a) (length a + length (enc_versions vs)) b = Some (best_version b vs)"
  using assms
proof (induction vs arbitrary: a b)
  case Nil
  then show ?case by (simp add: version_list.simps best_version_def)
next
  case (Cons v vs)
  let ?a = "a @ u16_to_be_bytes v" and ?b = "b \<or> v = 0x0303 \<or> v = 0x0302 \<or> v = 0x0301"
  have r: "be16_at hs (length a) = Some v" using Cons.prems by simp
  have "version_list hs (length a + 2) (length a + length (enc_versions (v # vs))) ?b = Some (best_version ?b vs)"
    using Cons.IH [of ?a ?b] Cons.prems by (simp add: ac_simps)
  then have "version_list hs (length a) (length a + length (enc_versions (v # vs))) b =
    (if v = 0x0304 then Some (Some Tls13) else Some (best_version ?b vs))"
    by (subst version_list.simps) (simp only: r Option.bind.simps, simp)
  then show ?case by (simp add: best_version_def)
qed

lemma only_extE:
  assumes "only_ext t d c"
  obtains pre post where "ch_extensions c = pre @ (t, d) # post" "list_all (\<lambda>e. fst e \<noteq> t) pre" "list_all (\<lambda>e. fst e \<noteq> t) post"
proof -
  from assms obtain pre post where p: "ch_extensions c = pre @ (t, d) # post" "\<forall>u\<in>set pre. \<not> fst u = t" "[] = filter (\<lambda>e. fst e = t) post"
    by (auto simp: only_ext_def filter_eq_Cons_iff)
  have "list_all (\<lambda>e. fst e \<noteq> t) post" using p(3) by (simp add: list_all_iff filter_empty_conv [symmetric])
  with p(2) show thesis by (intro that [OF p(1)]) (auto simp: list_all_iff)
qed

lemma hello_split:
  assumes "hello_ok c" and "only_ext t d c"
  obtains a pre post where "encode_client_hello c = a @ enc_exts pre @ enc_ext (t, d) @ enc_exts post" "length a = exts_at c"
    "list_all (\<lambda>(u, _). u \<noteq> t \<and> u \<le> U16_MAX) pre" "list_all (\<lambda>(u, _). u \<noteq> t \<and> u \<le> U16_MAX) post" "t \<le> U16_MAX"
    "length (enc_exts pre) \<le> U16_MAX" "length (enc_exts post) \<le> U16_MAX" "length d \<le> U16_MAX"
    "length (encode_client_hello c) = length (a @ enc_exts pre @ enc_ext (t, d) @ enc_exts post)"
proof -
  obtain pre post where p: "ch_extensions c = pre @ (t, d) # post" "list_all (\<lambda>e. fst e \<noteq> t) pre" "list_all (\<lambda>e. fst e \<noteq> t) post"
    by (rule only_extE [OF assms(2)])
  define a where "a = [0x16, 0x03, 0x01] @ u16_to_be_bytes (4 + length (hello_body c)) @ [0x01] @ be_bytes 3 (length (hello_body c)) @
     u16_to_be_bytes (ch_version c) @ ch_random c @ [word_of_nat (length (ch_session_id c))] @ ch_session_id c @
     u16_to_be_bytes (length (concat (ch_suites c))) @ concat (ch_suites c) @
     [word_of_nat (length (ch_compression c))] @ ch_compression c @ u16_to_be_bytes (length (enc_exts (ch_extensions c)))"
  have e: "encode_client_hello c = a @ enc_exts (ch_extensions c)"
    by (simp add: a_def encode_client_hello_def hello_body_def)
  then have l: "length a = exts_at c" using body_lengths(2) [OF assms(1)] by simp
  have u: "list_all (\<lambda>(u, _). u \<le> U16_MAX) (ch_extensions c)" using assms(1) by (simp add: hello_ok_def)
  show thesis using body_lengths(4) [OF assms(1)] p e l u
    by (intro that [of a pre post]) (auto simp: list_all_iff simp del: enc_ext.simps)
qed

lemma split_dots_bytes: "b \<in> set s \<Longrightarrow> b \<noteq> 0x2E \<Longrightarrow> \<exists>l\<in>set (split_dots s). b \<in> set l"
  by (induction s) (auto split: list.splits if_splits)

lemma ascii_utf8: "list_all (\<lambda>b. b < 0x80) s \<Longrightarrow> utf8_decode s \<noteq> None"
  by (induction s) auto

lemma valid_host_utf8:
  assumes "is_valid_sni_hostname host"
  shows "utf8_decode host \<noteq> None" "host \<noteq> []" "length host \<le> 253"
proof -
  have "b < 0x80" if "b \<in> set host" for b
  proof (cases "b = 0x2E")
    case False
    from split_dots_bytes [OF that this] obtain l where "l \<in> set (split_dots host)" "b \<in> set l" by blast
    then have "is_ascii_alphanumeric b \<or> b = 0x2D"
      using assms by (auto simp: is_valid_sni_hostname_def valid_label_def list_all_iff)
    then show ?thesis by (auto simp: is_ascii_alphanumeric_def intro: order_le_less_trans)
  qed simp
  then have "list_all (\<lambda>b. b < 0x80) host" by (simp add: list_all_iff)
  then show "utf8_decode host \<noteq> None" by (rule ascii_utf8)
qed (use assms in \<open>simp_all add: is_valid_sni_hostname_def\<close>)

lemma sni_read:
  assumes ok: "hello_ok c" and sni: "only_ext 0 (sni_ext host) c" and host: "is_valid_sni_hostname host"
  shows "extract_sni_from_client_hello (encode_client_hello c) = Some (Some (to_text host))"
proof -
  let ?hs = "encode_client_hello c" and ?d = "sni_ext host"
  obtain a pre post where s: "?hs = a @ enc_exts pre @ enc_ext (0, ?d) @ enc_exts post" "length a = exts_at c"
    "list_all (\<lambda>(u, _). u \<noteq> 0 \<and> u \<le> U16_MAX) pre" "list_all (\<lambda>(u, _). u \<noteq> 0 \<and> u \<le> U16_MAX) post" "0 \<le> U16_MAX"
    "length (enc_exts pre) \<le> U16_MAX" "length (enc_exts post) \<le> U16_MAX" "length ?d \<le> U16_MAX"
    "length ?hs = length (a @ enc_exts pre @ enc_ext (0, ?d) @ enc_exts post)"
    by (rule hello_split [OF ok sni])
  let ?p = "length (a @ enc_exts pre)" and ?e = "length ?hs"
  have d: "length ?d = 5 + length host" by (simp add: sni_ext_def)
  have at: "be16_at ?hs ?p = Some 0" "be16_at ?hs (?p + 2) = Some (length ?d)"
    using ext_at [of ?hs "a @ enc_exts pre" 0 ?d "enc_exts post"] s(1,8) by simp_all
  have l: "be16_at ?hs (?p + 4) = Some (3 + length host)"
    using be16_at_append [of "a @ enc_exts pre @ u16_to_be_bytes 0 @ u16_to_be_bytes (length ?d)" "?p + 4" "3 + length host"] s(1,8) d
    by (simp add: sni_ext_def)
  have n: "sni_names ?hs (?p + 6) (?p + 6 + (3 + length host)) = Some (Some host)"
    using sni_names_found [of ?hs "a @ enc_exts pre @ u16_to_be_bytes 0 @ u16_to_be_bytes (length ?d) @ u16_to_be_bytes (3 + length host)" host]
      s(1,8) d valid_host_utf8 [OF host] host by (simp add: sni_ext_def ac_simps)
  have "sni_extensions ?hs ?e (length a) False None = sni_extensions ?hs ?e (length a + length (enc_exts pre)) False None"
    by (rule sni_skip [OF s(3,6,1)]) (simp add: s(9))
  also have "\<dots> = sni_extensions ?hs ?e (?p + 4 + length ?d) True (Some host)"
  proof -
    have m: "min (?p + 6 + (3 + length host)) (?p + 4 + length ?d) = ?p + 6 + (3 + length host)" using d by simp
    have c: "?p + 4 \<le> ?e" "\<not> ?p + 4 + length ?d > ?e" "5 \<le> length ?d" using s(9) d by simp_all
    show ?thesis by (simp only: length_append [symmetric], subst sni_extensions.simps)
      (simp only: at l n m c if_True if_False Option.bind.simps simp_thms option.case)
  qed
  also have "\<dots> = sni_extensions ?hs ?e (length (a @ enc_exts pre @ enc_ext (0, ?d))) True (Some host)"
    by (rule arg_cong [of _ _ "\<lambda>p. sni_extensions ?hs ?e p True (Some host)"]) simp
  also have "\<dots> = sni_extensions ?hs ?e (length (a @ enc_exts pre @ enc_ext (0, ?d)) + length (enc_exts post)) True (Some host)"
    by (rule sni_skip [OF s(4,7), where r = "[]"]) (simp_all add: s(1,9) del: enc_ext.simps)
  also have "\<dots> = Some (Some host)" using s(9) by (subst sni_extensions.simps) simp
  finally show ?thesis using readers_at_extensions(1) [OF ok] s(2) by simp
qed

lemma alpn_read:
  assumes ok: "hello_ok c" and alpn: "only_ext 0x0010 (alpn_ext ps) c" and ps: "ps \<noteq> []" "list_all (\<lambda>p. length p \<le> U8_MAX) ps"
  shows "extract_alpn_from_client_hello (encode_client_hello c) = Some ps"
proof -
  let ?hs = "encode_client_hello c" and ?d = "alpn_ext ps" and ?n = "length (enc_protocols ps)"
  obtain a pre post where s: "?hs = a @ enc_exts pre @ enc_ext (0x0010, ?d) @ enc_exts post" "length a = exts_at c"
    "list_all (\<lambda>(u, _). u \<noteq> 0x0010 \<and> u \<le> U16_MAX) pre" "list_all (\<lambda>(u, _). u \<noteq> 0x0010 \<and> u \<le> U16_MAX) post" "0x0010 \<le> U16_MAX"
    "length (enc_exts pre) \<le> U16_MAX" "length (enc_exts post) \<le> U16_MAX" "length ?d \<le> U16_MAX"
    "length ?hs = length (a @ enc_exts pre @ enc_ext (0x0010, ?d) @ enc_exts post)"
    by (rule hello_split [OF ok alpn])
  let ?p = "length (a @ enc_exts pre)" and ?e = "length ?hs"
  have d: "length ?d = 2 + ?n" "1 \<le> ?n" using ps(1) by (simp_all add: alpn_ext_def neq_Nil_conv Suc_le_eq) auto
  have at: "be16_at ?hs ?p = Some 0x0010" "be16_at ?hs (?p + 2) = Some (length ?d)"
    using ext_at [of ?hs "a @ enc_exts pre" "0x0010" ?d "enc_exts post"] s(1,8) by simp_all
  have l: "be16_at ?hs (?p + 4) = Some ?n"
    using be16_at_append [of "a @ enc_exts pre @ u16_to_be_bytes 0x0010 @ u16_to_be_bytes (length ?d)" "?p + 4" ?n] s(1,8) d
    by (simp add: alpn_ext_def)
  have n: "alpn_list ?hs (?p + 6) (?p + 6 + ?n) = Some ps"
    using alpn_list_read [of ?hs "a @ enc_exts pre @ u16_to_be_bytes 0x0010 @ u16_to_be_bytes (length ?d) @ u16_to_be_bytes ?n" ps "enc_exts post"]
      s(1) ps(2) by (simp add: alpn_ext_def ac_simps)
  have small: "?p + 6 + ?n \<le> U64_MAX" using s(9) d body_lengths [OF ok] ok by (simp add: hello_ok_def)
  have "alpn_extensions ?hs ?e (length a) = alpn_extensions ?hs ?e (length a + length (enc_exts pre))"
    by (rule alpn_skip [OF s(3,6,1)]) (simp add: s(9))
  also have "\<dots> = Some ps"
  proof -
    have m: "min (sat_add U64_MAX (?p + 6) ?n) (?p + 4 + length ?d) = ?p + 6 + ?n" using d small by (simp add: sat_add_exact)
    have c: "?p + 4 \<le> ?e" "\<not> ?p + 4 + length ?d > ?e" "3 \<le> length ?d" using s(9) d by simp_all
    show ?thesis by (simp only: length_append [symmetric], subst alpn_extensions.simps)
      (simp only: at l m n c if_True if_False Option.bind.simps simp_thms)
  qed
  finally show ?thesis using readers_at_extensions(2) [OF ok] s(2) by simp
qed

lemma version_read:
  assumes ok: "hello_ok c" and ver: "only_ext 0x002b (versions_ext vs) c"
    and vs: "vs \<noteq> []" "length vs \<le> 127" "list_all (\<lambda>v. v \<le> U16_MAX) vs"
  shows "detect_client_hello_tls_version (encode_client_hello c) = Some (best_version False vs)"
proof -
  let ?hs = "encode_client_hello c" and ?d = "versions_ext vs" and ?n = "length (enc_versions vs)"
  obtain a pre post where s: "?hs = a @ enc_exts pre @ enc_ext (0x002b, ?d) @ enc_exts post" "length a = exts_at c"
    "list_all (\<lambda>(u, _). u \<noteq> 0x002b \<and> u \<le> U16_MAX) pre" "list_all (\<lambda>(u, _). u \<noteq> 0x002b \<and> u \<le> U16_MAX) post" "0x002b \<le> U16_MAX"
    "length (enc_exts pre) \<le> U16_MAX" "length (enc_exts post) \<le> U16_MAX" "length ?d \<le> U16_MAX"
    "length ?hs = length (a @ enc_exts pre @ enc_ext (0x002b, ?d) @ enc_exts post)"
    by (rule hello_split [OF ok ver])
  let ?p = "length (a @ enc_exts pre)" and ?e = "length ?hs"
  have d: "length ?d = 1 + ?n" by (simp add: versions_ext_def)
  have at: "be16_at ?hs ?p = Some 0x002b" "be16_at ?hs (?p + 2) = Some (length ?d)"
    using ext_at [of ?hs "a @ enc_exts pre" "0x002b" ?d "enc_exts post"] s(1,8) by simp_all
  have l: "index ?hs (?p + 4) = Some (word_of_nat ?n)"
    using s(1) by (simp add: versions_ext_def index_def nth_append)
  have u: "unat (word_of_nat ?n :: u8) = ?n" by (rule unat_small) (use vs(2) in simp)
  let ?x = "a @ enc_exts pre @ u16_to_be_bytes 0x002b @ u16_to_be_bytes (length ?d) @ [word_of_nat ?n]"
  have x: "length ?x = ?p + 5" by simp
  have "version_list ?hs (length ?x) (length ?x + ?n) False = Some (best_version False vs)"
    by (rule version_list_read [where r = "enc_exts post", OF _ vs(3)]) (simp add: s(1) versions_ext_def)
  then have n: "version_list ?hs (?p + 5) (?p + 5 + ?n) False = Some (best_version False vs)" unfolding x .
  have "version_extensions ?hs (ch_version c) ?e (length a) = version_extensions ?hs (ch_version c) ?e (length a + length (enc_exts pre))"
    by (rule version_skip [OF s(3,6,1)]) (simp add: s(9))
  also have "\<dots> = Some (best_version False vs)"
  proof -
    have c: "?p + 4 \<le> ?e" "\<not> ?p + 4 + length ?d > ?e" "\<not> length ?d < 1" "(?n = 0) = False" "?n mod 2 = 0" "\<not> length ?d < 1 + ?n"
      using s(9) d vs(1) by simp_all
    show ?thesis by (simp only: length_append [symmetric], subst version_extensions.simps)
      (simp only: at l u n c if_True if_False Option.bind.simps simp_thms)
  qed
  finally show ?thesis using readers_at_extensions(3) [OF ok] s(2) by simp
qed

lemma offers_read:
  assumes "hs = a @ concat ss @ r" and "list_all (\<lambda>s. length s = 2) ss" and "length s = 2"
  shows "client_hello_offers_cipher_suite hs (length a) (length a + length (concat ss)) s = Some (s \<in> set ss)"
  using assms(1,2)
proof (induction ss arbitrary: a)
  case Nil
  then show ?case by (simp add: client_hello_offers_cipher_suite.simps)
next
  case (Cons x ss)
  obtain y z where x: "x = [y, z]" using Cons.prems(2) by (auto simp: length_Suc_conv eval_nat_numeral)
  have r: "index hs (length a) = Some y" "index hs (length a + 1) = Some z"
    using Cons.prems(1) x by (simp_all add: index_def nth_append)
  have "client_hello_offers_cipher_suite hs (length a + 2) (length a + length (concat (x # ss))) s = Some (s \<in> set ss)"
    using Cons.IH [of "a @ x"] Cons.prems x by (simp add: ac_simps)
  then have "client_hello_offers_cipher_suite hs (length a) (length a + length (concat (x # ss))) s =
      (if x = s then Some True else Some (s \<in> set ss))"
    by (subst client_hello_offers_cipher_suite.simps) (simp only: r x Option.bind.simps, simp)
  then show ?case by auto
qed

definition chosen_suite :: "bytes \<Rightarrow> bytes list \<Rightarrow> bytes" where
  "chosen_suite wanted offered =
     (let preferred = (if is_tls13_cipher_suite wanted then wanted else TLS_AES_128_GCM_SHA256)
      in case List.find (\<lambda>s. s \<in> set offered)
           [preferred, TLS_AES_128_GCM_SHA256, TLS_CHACHA20_POLY1305_SHA256, TLS_AES_256_GCM_SHA384] of
           Some s \<Rightarrow> s | None \<Rightarrow> preferred)"

lemma first_offered_read:
  assumes "hs = a @ concat ss @ r" and "list_all (\<lambda>s. length s = 2) ss" and "list_all (\<lambda>s. length s = 2) choices"
  shows "first_offered hs (length a, length a + length (concat ss)) choices d =
    Some (case List.find (\<lambda>s. s \<in> set ss) choices of Some s \<Rightarrow> s | None \<Rightarrow> d)"
  using assms(3) by (induction choices) (simp_all add: offers_read [OF assms(1,2)])

lemma suite_read:
  assumes ok: "hello_ok c"
  shows "select_server_hello_cipher_suite (encode_client_hello c) wanted = Some (chosen_suite wanted (ch_suites c))"
proof -
  let ?hs = "encode_client_hello c" and ?p = "if is_tls13_cipher_suite wanted then wanted else TLS_AES_128_GCM_SHA256"
  let ?a = "[0x16, 0x03, 0x01] @ u16_to_be_bytes (4 + length (hello_body c)) @ [0x01] @ be_bytes 3 (length (hello_body c)) @
     u16_to_be_bytes (ch_version c) @ ch_random c @ [word_of_nat (length (ch_session_id c))] @ ch_session_id c @
     u16_to_be_bytes (length (concat (ch_suites c)))"
  have l: "suites_at c = length ?a" "comp_at c = length ?a + length (concat (ch_suites c))"
    using ok by (simp_all add: hello_ok_def suites_at_def comp_at_def)
  have "first_offered ?hs (length ?a, length ?a + length (concat (ch_suites c)))
      [?p, TLS_AES_128_GCM_SHA256, TLS_CHACHA20_POLY1305_SHA256, TLS_AES_256_GCM_SHA384] ?p = Some (chosen_suite wanted (ch_suites c))"
    unfolding chosen_suite_def Let_def
  proof (rule first_offered_read)
    show "?hs = ?a @ concat (ch_suites c) @ [word_of_nat (length (ch_compression c))] @ ch_compression c @
     u16_to_be_bytes (length (enc_exts (ch_extensions c))) @ enc_exts (ch_extensions c)"
      by (simp add: encode_client_hello_def hello_body_def)
  qed (use ok in \<open>auto simp: hello_ok_def is_tls13_cipher_suite_def TLS_AES_128_GCM_SHA256_def TLS_CHACHA20_POLY1305_SHA256_def TLS_AES_256_GCM_SHA384_def\<close>)
  then show ?thesis
    by (simp only: select_server_hello_cipher_suite_def readers_at_extensions(4) [OF ok] l Let_def Option.bind.simps option.case)
qed

subsection \<open>Properties of the readers\<close>

text \<open>
  C20. Whatever bytes arrive, no reader indexes past their end, each of them ends, a server name it
  returns is a host name, and the suite selected for the answer is one of TLS 1.3.
\<close>

theorem client_hello_readers_safe:
  "returns sni_ok (extract_sni_from_client_hello hs) \<and> returns (\<lambda>_. True) (extract_alpn_from_client_hello hs) \<and>
   returns (\<lambda>_. True) (detect_client_hello_tls_version hs) \<and>
   returns is_tls13_cipher_suite (select_server_hello_cipher_suite hs wanted)"
  by (intro conjI extract_sni_safe extract_alpn_safe detect_version_safe select_suite_safe)

text \<open>
  C21. From a client hello written as RFC 8446 says, the readers recover the server name, the protocols
  in the order of the client, the best version, and a suite the client offered whenever it offered one of TLS 1.3.
\<close>

theorem client_hello_recovered:
  assumes "hello_ok c"
    and "only_ext 0 (sni_ext host) c" "is_valid_sni_hostname host"
    and "only_ext 0x0010 (alpn_ext ps) c" "ps \<noteq> []" "list_all (\<lambda>p. length p \<le> U8_MAX) ps"
    and "only_ext 0x002b (versions_ext vs) c" "vs \<noteq> []" "length vs \<le> 127" "list_all (\<lambda>v. v \<le> U16_MAX) vs"
  shows "extract_sni_from_client_hello (encode_client_hello c) = Some (Some (to_text host)) \<and>
    extract_alpn_from_client_hello (encode_client_hello c) = Some ps \<and>
    detect_client_hello_tls_version (encode_client_hello c) = Some (best_version False vs) \<and>
    select_server_hello_cipher_suite (encode_client_hello c) wanted = Some (chosen_suite wanted (ch_suites c))"
  using sni_read [OF assms(1-3)] alpn_read [OF assms(1,4-6)] version_read [OF assms(1,7-10)] suite_read [OF assms(1)]
  by simp_all

definition demo_host :: bytes where
  "demo_host = [0x78, 0x2E, 0x79]"

definition demo_client_hello :: client_hello where
  "demo_client_hello =
     \<lparr>ch_version = 0x0303, ch_random = replicate 32 0x07, ch_session_id = [0x05], ch_suites = [[0xC0, 0x2F], [0x13, 0x03]],
      ch_compression = [0],
      ch_extensions = [(0x000A, [1]), (0, sni_ext demo_host), (0x0010, alpn_ext [[0x68, 0x32]]), (0x002b, versions_ext [0x0304, 0x0303])]\<rparr>"

lemma demo_host_valid: "is_valid_sni_hostname demo_host"
proof -
  have "read_groups 8 8 [0x78, 0x2E, 0x79] = ([], False, [0x78, 0x2E, 0x79])"
    using read_groups.simps(2) [of 8 7 "[0x78, 0x2E, 0x79]"] by (simp add: read_sep_def read_ipv4_def read_number_def to_digit_def)
  then have "\<not> parses_as_ip demo_host"
    by (simp add: demo_host_def parses_as_ip_def parse_ip_def read_ipv4_def read_number_def to_digit_def read_ipv6_def read_sep_def)
  then show ?thesis by (simp add: is_valid_sni_hostname_def valid_label_def is_ascii_alphanumeric_def demo_host_def)
qed

theorem client_hello_recovered_witness:
  "extract_sni_from_client_hello (encode_client_hello demo_client_hello) = Some (Some (to_text demo_host)) \<and>
   extract_alpn_from_client_hello (encode_client_hello demo_client_hello) = Some [[0x68, 0x32]] \<and>
   detect_client_hello_tls_version (encode_client_hello demo_client_hello) = Some (Some Tls13) \<and>
   select_server_hello_cipher_suite (encode_client_hello demo_client_hello) [0x13, 0x01] = Some [0x13, 0x03]"
proof -
  let ?c = demo_client_hello
  have ok: "hello_ok ?c"
    by (simp add: demo_client_hello_def demo_host_def hello_ok_def hello_body_def sni_ext_def alpn_ext_def versions_ext_def)
  have e: "only_ext 0 (sni_ext demo_host) ?c" "only_ext 0x0010 (alpn_ext [[0x68, 0x32]]) ?c" "only_ext 0x002b (versions_ext [0x0304, 0x0303]) ?c"
    by (simp_all add: only_ext_def demo_client_hello_def)
  have t: "chosen_suite [0x13, 0x01] (ch_suites ?c) = [0x13, 0x03]" "best_version False [0x0304, 0x0303] = Some Tls13"
    by (simp_all add: demo_client_hello_def chosen_suite_def is_tls13_cipher_suite_def TLS_AES_128_GCM_SHA256_def
        TLS_CHACHA20_POLY1305_SHA256_def best_version_def)
  from client_hello_recovered [OF ok e(1) demo_host_valid e(2) _ _ e(3), where wanted = "[0x13, 0x01]"] t show ?thesis by simp
qed

end
