(* ===== verification/Spec2Isabelle.thy ===== *)
theory Spec2Isabelle
  imports Frame_Codec Fair_Properties Proxy_Protocol Reader_Properties Replay_Cache User_Auth Tls_Stream Mtproto_Handshake Client_Hello
begin

text \<open>
  \<^bold>\<open>A verification library for telemt\<close>

  telemt is a proxy for the MTProto protocol. A client connects, possibly behind a load balancer that
  prepends a PROXY header and possibly inside a fake TLS session, and sends a first record (TLS) or 64 bytes
  (plain) from which the proxy finds the user whose secret was used. After that, bytes pass through a stack
  of streams, TLS records around a stream cipher around frames, and are exchanged with a datacenter,
  either directly or over middle-proxy connections that many clients share. This library models the
  parts that decide something and proves what the others rely on.

  \<^bold>\<open>Reading the model\<close>

  A byte is an \<open>8 word\<close> and a byte string a list of them. Sequence numbers, checksums and other values that
  wrap are words; wider integers are \<open>nat\<close> or \<open>int\<close>, with saturation, checked arithmetic or
  reduction written out where the type can be left. A hash map is an association list with distinct keys
  (locale \<open>hash_map\<close> of \<open>Telemt_Prelude\<close>). An instant is a number of nanoseconds and an argument of
  whatever reads the clock. A fallible operation returns \<open>error + value\<close> or an option. Code outside the
  repository is a parameter: the random generator (\<open>rng_env\<close>), the AES block function and keystream,
  SHA-256, MD5, SHA-1 and the CRCs, \<open>hex::decode\<close>, the standard hasher, network matching, the LRU cache
  (\<open>lru_ops\<close> with \<open>lru_laws\<close>), and the sockets below the streams (\<open>async_read\<close>, \<open>async_write\<close>). What
  the code relies on of them is a named hypothesis, and witnesses use concrete instances.

  \<^bold>\<open>Theories and sources\<close> (paths under \<^verbatim>\<open>src/src\<close>)

  \<^item> \<open>Telemt_Prelude\<close>: machine arithmetic, byte encodings, slices, association lists.
  \<^item> \<open>Secure_Random\<close>: \<^verbatim>\<open>crypto/random.rs\<close>. The buffered generator equals one that draws byte by byte.
  \<^item> \<open>Proto_Constants\<close>: \<^verbatim>\<open>protocol/constants.rs\<close>, \<^verbatim>\<open>protocol/frame.rs\<close>.
  \<^item> \<open>Frame_Codec\<close>: \<^verbatim>\<open>stream/frame.rs\<close>, \<^verbatim>\<open>stream/frame_codec.rs\<close>. Each codec satisfies the locale \<open>frame_codec\<close>: any
    cutting of the bytes of a sequence of frames decodes to those frames.
  \<^item> \<open>Fair_Pressure\<close>, \<open>Fair_Scheduler\<close>: \<^verbatim>\<open>transport/middle_proxy/fairness\<close>. \<open>Fair_Invariant\<close> holds the invariant of
    a worker and its preservation, \<open>Fair_Properties\<close> accounting and caps, refinement of FIFO queues,
    ordered delivery, and a bound on waiting.
  \<^item> \<open>Proxy_Error\<close>: \<^verbatim>\<open>error.rs\<close>. \<open>Proxy_Protocol\<close>: \<^verbatim>\<open>transport/proxy_protocol.rs\<close>, with round trips and exact consumption.
  \<^item> \<open>Aes_Modes\<close>: \<^verbatim>\<open>crypto/aes.rs\<close> (locale \<open>crypto_stream\<close>). \<open>Rpc_Wire\<close>: \<^verbatim>\<open>transport/middle_proxy/wire.rs\<close> and the key
    derivation of \<^verbatim>\<open>crypto/hash.rs\<close>. \<open>Rpc_Codec\<close>: \<^verbatim>\<open>codec.rs\<close> and the writer loop of \<^verbatim>\<open>pool_writer.rs\<close>.
  \<^item> \<open>Conn_Registry\<close>: \<^verbatim>\<open>registry.rs\<close> and \<^verbatim>\<open>registry/writer.rs\<close>. \<open>Registry_Invariant\<close> states how its tables agree,
    \<open>Registry_Routing\<close> runs it as a state machine with its permits and queues.
  \<^item> \<open>Rpc_Reader\<close>: \<^verbatim>\<open>reader.rs\<close>, which decrypts a middle-proxy socket, takes frames from it and routes them through
    the registry and a fairness worker. \<open>Reader_Invariant\<close>, \<open>Reader_Stream\<close> and \<open>Reader_Properties\<close> show that it keeps the
    bounds of both, accepts only checked frames, and recovers what the writer of \<open>Rpc_Codec\<close> sent.
  \<^item> \<open>Replay_Cache\<close>: \<^verbatim>\<open>stats/replay.rs\<close>, a refinement of a window of remembered strings. \<open>Auth_Probe\<close> and
    \<open>User_Auth\<close>: throttling, user snapshot, hints and scan of \<^verbatim>\<open>proxy/handshake.rs\<close>, \<^verbatim>\<open>config/load.rs\<close> and
    \<^verbatim>\<open>proxy/shared_state.rs\<close>. \<open>Obfuscation\<close>: \<^verbatim>\<open>protocol/obfuscation.rs\<close> and the nonce for a datacenter.
  \<^item> \<open>Mtproto_Handshake\<close>: \<open>handle_mtproto_handshake_impl\<close> of \<^verbatim>\<open>proxy/handshake.rs\<close>, which puts these together: only a fitting
    secret is accepted, a client with a configured secret is, a handshake is accepted once, and the work is bounded.
  \<^item> \<open>Stream_State\<close>: \<^verbatim>\<open>stream/state.rs\<close>. \<open>Async_Stream\<close>: the contracts \<open>byte_sink\<close> and \<open>byte_source\<close> between the layers.
    \<open>Cipher_Stream\<close>: \<^verbatim>\<open>stream/crypto_stream.rs\<close>. \<open>Tls_Stream\<close>: \<^verbatim>\<open>stream/tls_stream.rs\<close>. Each layer turns a sink or source into
    another one (a \<open>sublocale\<close>), so the stack is an interpretation of one layer on the next.
  \<^item> \<open>Client_Hello\<close>: the readers of \<^verbatim>\<open>protocol/tls.rs\<close>. They do not panic on any bytes, and recover
    what a client wrote.

  \<^bold>\<open>Loops\<close>

  No definition has fuel. Loops over data are recursive functions with a termination proof. Loops
  that can run forever (awaiting a stream, skipping records, drawing a nonce until one is allowed) are partial
  functions into \<open>option\<close>, where not returning is \<open>None\<close>; that they return, and what, is stated as an
  equation with \<open>Some\<close>. A panic is \<open>None\<close> or an error value as the theory says at its head.

  \<^bold>\<open>Concurrency\<close>

  Operations that take a lock are atomic steps. Where the sources act between two locks the model has
  one definition for each step and the interleaving is explicit (\<open>unregister\<close> and \<open>bind_writer\<close> of the registry; what a
  client does between two attempts to route). Atomics are read and written in the order of the code.

  \<^bold>\<open>Not modelled\<close>

  \<^item> The digest check, the server hello and the TLS handshake handler (\<^verbatim>\<open>protocol/tls.rs\<close> in part,
    \<open>handle_tls_handshake_impl\<close>, \<^verbatim>\<open>tls_front\<close>): the handler also depends on certificates fetched from decoy hosts.
  \<^item> Tasks that join sockets, timers and channels: relays, masking, the pool of middle-proxy connections, upstreams,
    network probing, start-up and shutdown. They perform input and output and call the parts above.
  \<^item> Traffic limits, quotas and address tracking: counters shared by those tasks without a lock.
  \<^item> Configuration files, the control interface, logging, metrics and statistics: printing, parsing by
    libraries, and counters that no modelled decision reads.
  \<^item> Delays before an answer, log messages, telemetry, zeroizing of memory and capacity hints.
\<close>

end
